theory Spec2Isabelle
  imports Complex_Main
begin

section \<open>Host values: the object graph the lock manager reads and writes\<close>

subsection \<open>Numbers\<close>

text \<open>
  A number of the host is an IEEE 754 binary64 value: \<open>NaN\<close>, one of the two
  infinities, or a finite value, held here as the rational number it denotes. The sign
  of a zero is not kept (no operation of the manager observes it). \<open>typeof\<close> answers
  \<open>"number"\<close> for all of them.
\<close>

datatype jsnum = NaN | PosInf | NegInf | Finite rat

text \<open>
  Rounding to the nearest double, ties to the even significand. \<open>binExponent a\<close> is
  the exponent of the binade of \<open>a > 0\<close>, within the range of the format (so that
  values below \<open>2 powi (- 1022)\<close> are spaced like the subnormal numbers); the
  significand has 53 bits; a result that reaches \<open>2 powi 1024\<close> overflows to an infinity.
\<close>

definition binExponent :: "rat \<Rightarrow> int" where
  "binExponent a = Max (insert (- 1022) {k \<in> {- 1022 .. 1023}. 2 powi k \<le> a})"

definition roundHalfEven :: "rat \<Rightarrow> int" where
  "roundHalfEven n =
     (let f = \<lfloor>n\<rfloor>
      in if n - of_int f < 1 / 2 then f
         else if 1 / 2 < n - of_int f then f + 1
         else if even f then f else f + 1)"

definition roundD :: "rat \<Rightarrow> jsnum" where
  "roundD r =
     (if r = 0 then Finite 0
      else
        (let a = \<bar>r\<bar>;
             q = binExponent a - 52;
             m = roundHalfEven (a / 2 powi q);
             v = of_int m * 2 powi q
         in if 2 powi 1024 \<le> v then (if r < 0 then NegInf else PosInf)
            else Finite (if r < 0 then - v else v)))"

text \<open>\<open>x - y\<close>, \<open>Math.abs(x)\<close> and \<open>x <= y\<close> on numbers.\<close>

fun fsub :: "jsnum \<Rightarrow> jsnum \<Rightarrow> jsnum" where
  "fsub (Finite a) (Finite b) = roundD (a - b)"
| "fsub NaN y = NaN"
| "fsub x NaN = NaN"
| "fsub PosInf PosInf = NaN"
| "fsub NegInf NegInf = NaN"
| "fsub PosInf y = PosInf"
| "fsub NegInf y = NegInf"
| "fsub (Finite a) PosInf = NegInf"
| "fsub (Finite a) NegInf = PosInf"

fun fabs :: "jsnum \<Rightarrow> jsnum" where
  "fabs (Finite a) = Finite \<bar>a\<bar>"
| "fabs NaN = NaN"
| "fabs PosInf = PosInf"
| "fabs NegInf = PosInf"

fun fle :: "jsnum \<Rightarrow> jsnum \<Rightarrow> bool" where
  "fle (Finite a) (Finite b) = (a \<le> b)"
| "fle NaN y = False"
| "fle x NaN = False"
| "fle NegInf y = True"
| "fle x PosInf = True"
| "fle PosInf y = False"
| "fle x NegInf = False"

subsection \<open>Objects\<close>

text \<open>
  The manager reaches the host's objects only through property reads \<open>b["k"]\<close>,
  \<open>typeof\<close> tests and property writes. Objects are therefore heap cells addressed
  by a reference; a cell maps a property name to a value, an absent property reading as
  \<open>Undefined\<close> (the code never distinguishes the two). Two properties may hold the
  same reference, so aliasing between shapes is part of the model. DOM elements are
  heap objects as well.
\<close>

type_synonym addr = nat

datatype jsval =
    Undefined
  | Null
  | Num jsnum
  | Str string
  | Bool bool
  | Fn
  | Ref addr

type_synonym heap = "addr \<Rightarrow> string \<Rightarrow> jsval"

text \<open>\<open>typeof v === "number"\<close>\<close>

fun isNumber :: "jsval \<Rightarrow> bool" where
  "isNumber (Num r) = True"
| "isNumber v = False"

text \<open>\<open>b[k] = v\<close>\<close>

definition setProp :: "heap \<Rightarrow> addr \<Rightarrow> string \<Rightarrow> jsval \<Rightarrow> heap" where
  "setProp hp b k v = hp(b := (hp b)(k := v))"

section \<open>Geometry snapshots\<close>

datatype snapmode = Top | Pos | Rect | Data | Unknown

record ModelSnapshot =
  snap_mode :: snapmode
  snap_x :: jsnum
  snap_y :: jsnum
  snap_w :: "jsnum option"
  snap_h :: "jsnum option"

subsection \<open>isSameSnapshot\<close>

text \<open>
  \<open>const eps = 0.0001\<close>: the literal denotes the double nearest to \<open>1 / 10000\<close>.
  \<open>close(x, y)\<close> is \<open>Math.abs(x - y) <= eps\<close>.
\<close>

definition eps :: jsnum where
  "eps = roundD (1 / 10000)"

definition close :: "jsnum \<Rightarrow> jsnum \<Rightarrow> bool" where
  "close u v = fle (fabs (fsub u v)) eps"

text \<open>
  The comparison of one optional dimension: \<open>aw === undefined || bw === undefined\<close>
  then \<open>aw !== bw\<close> rejects, otherwise \<open>!close(aw, bw)\<close> rejects.
\<close>

definition dimDiffers :: "jsnum option \<Rightarrow> jsnum option \<Rightarrow> bool" where
  "dimDiffers aw bw =
     (if aw = None \<or> bw = None then aw \<noteq> bw
      else \<not> close (the aw) (the bw))"

text \<open>The copy inside \<open>attachStyleGuardToCanvas\<close>, used by the mutation observer.\<close>

definition isSameSnapshot :: "ModelSnapshot \<Rightarrow> ModelSnapshot \<Rightarrow> bool" where
  "isSameSnapshot a b =
     (if \<not> close (snap_x a) (snap_x b) \<or> \<not> close (snap_y a) (snap_y b) then False
      else if dimDiffers (snap_w a) (snap_w b) then False
      else if dimDiffers (snap_h a) (snap_h b) then False
      else True)"

text \<open>The copy inside \<open>enforceLockedNodesOnce\<close>, with its own \<open>eps\<close> and \<open>close\<close>.\<close>

definition isSameSnapshot_enforce :: "ModelSnapshot \<Rightarrow> ModelSnapshot \<Rightarrow> bool" where
  "isSameSnapshot_enforce a b =
     (let eps' = roundD (1 / 10000);
          close' = (\<lambda>u v. fle (fabs (fsub u v)) eps')
      in if \<not> close' (snap_x a) (snap_x b) \<or> \<not> close' (snap_y a) (snap_y b) then False
         else if (if snap_w a = None \<or> snap_w b = None then snap_w a \<noteq> snap_w b
                  else \<not> close' (the (snap_w a)) (the (snap_w b))) then False
         else if (if snap_h a = None \<or> snap_h b = None then snap_h a \<noteq> snap_h b
                  else \<not> close' (the (snap_h a)) (the (snap_h b))) then False
         else True)"

subsection \<open>readModelSnapshot\<close>

text \<open>
  \<open>fromObj(base, mode)\<close>: \<open>base\<close> must be a non-null object with numeric \<open>x\<close>
  and \<open>y\<close>; the width comes from \<open>width\<close>, else from \<open>w\<close>, else is undefined.
\<close>

definition pickDim :: "jsval \<Rightarrow> jsval \<Rightarrow> jsnum option" where
  "pickDim w w2 =
     (case w of Num r \<Rightarrow> Some r
      | _ \<Rightarrow> (case w2 of Num r2 \<Rightarrow> Some r2 | _ \<Rightarrow> None))"

definition fromObj :: "heap \<Rightarrow> jsval \<Rightarrow> snapmode \<Rightarrow> ModelSnapshot option" where
  "fromObj hp base mode =
     (case base of
        Ref b \<Rightarrow>
          (case hp b ''x'' of
             Num vx \<Rightarrow>
               (case hp b ''y'' of
                  Num vy \<Rightarrow>
                    Some \<lparr> snap_mode = mode, snap_x = vx, snap_y = vy,
                           snap_w = pickDim (hp b ''width'') (hp b ''w''),
                           snap_h = pickDim (hp b ''height'') (hp b ''h'') \<rparr>
                | _ \<Rightarrow> None)
           | _ \<Rightarrow> None)
      | _ \<Rightarrow> None)"

text \<open>JavaScript's \<open>a || b\<close> on results that are an object or null.\<close>

definition orElse :: "'a option \<Rightarrow> 'a option \<Rightarrow> 'a option" where
  "orElse a b = (case a of Some v \<Rightarrow> Some v | None \<Rightarrow> b)"

text \<open>The part of \<open>readModelSnapshot\<close> after the node's backing object \<open>o\<close> is found.\<close>

definition readFromNode :: "heap \<Rightarrow> addr \<Rightarrow> ModelSnapshot option" where
  "readFromNode hp ob =
     orElse (fromObj hp (Ref ob) Top)
       (orElse (fromObj hp (hp ob ''pos'') Pos)
          (orElse (fromObj hp (hp ob ''rect'') Rect)
             (orElse (fromObj hp (hp ob ''data'') Data) None)))"

subsection \<open>restoreModelSnapshot\<close>

text \<open>
  \<open>applyTo(base)\<close>: the result is the returned boolean and the heap after the writes
  made before returning. The write to \<open>x\<close> happens before \<open>y\<close> is tested.
\<close>

definition writeDim :: "heap \<Rightarrow> addr \<Rightarrow> string \<Rightarrow> string \<Rightarrow> jsnum option \<Rightarrow> heap" where
  "writeDim hp b long short d =
     (case d of
        None \<Rightarrow> hp
      | Some v \<Rightarrow>
          if isNumber (hp b long) then setProp hp b long (Num v)
          else if isNumber (hp b short) then setProp hp b short (Num v)
          else hp)"

definition applyTo :: "ModelSnapshot \<Rightarrow> heap \<Rightarrow> jsval \<Rightarrow> bool \<times> heap" where
  "applyTo snap hp base =
     (case base of
        Ref b \<Rightarrow>
          if isNumber (hp b ''x'') then
            (let hp1 = setProp hp b ''x'' (Num (snap_x snap)) in
             if isNumber (hp1 b ''y'') then
               (let hp2 = setProp hp1 b ''y'' (Num (snap_y snap));
                    hp3 = writeDim hp2 b ''width'' ''w'' (snap_w snap);
                    hp4 = writeDim hp3 b ''height'' ''h'' (snap_h snap)
                in (True, hp4))
             else (False, hp1))
          else (False, hp)
      | _ \<Rightarrow> (False, hp))"

text \<open>The array \<open>bases\<close>, built from the node object before any write.\<close>

definition bases :: "snapmode \<Rightarrow> heap \<Rightarrow> addr \<Rightarrow> jsval list" where
  "bases mode hp ob =
     (if mode = Top then [Ref ob, hp ob ''pos'', hp ob ''rect'', hp ob ''data'']
      else if mode = Pos then [hp ob ''pos'', Ref ob, hp ob ''rect'', hp ob ''data'']
      else if mode = Rect then [hp ob ''rect'', Ref ob, hp ob ''pos'', hp ob ''data'']
      else if mode = Data then [hp ob ''data'', Ref ob, hp ob ''pos'', hp ob ''rect'']
      else [Ref ob, hp ob ''pos'', hp ob ''rect'', hp ob ''data''])"

text \<open>\<open>for (const base of bases) { if (applyTo(base)) break; }\<close>\<close>

fun applyBases :: "ModelSnapshot \<Rightarrow> heap \<Rightarrow> jsval list \<Rightarrow> heap" where
  "applyBases snap hp [] = hp"
| "applyBases snap hp (base # rest) =
     (case applyTo snap hp base of
        (True, hp') \<Rightarrow> hp'
      | (False, hp') \<Rightarrow> applyBases snap hp' rest)"

text \<open>The geometry writes of \<open>restoreModelSnapshot\<close> on the node object \<open>ob\<close>.\<close>

definition restoreNode :: "ModelSnapshot \<Rightarrow> heap \<Rightarrow> addr \<Rightarrow> heap" where
  "restoreNode snap hp ob = applyBases snap hp (bases (snap_mode snap) hp ob)"

section \<open>The host's view, canvas and DOM\<close>

text \<open>
  A redraw hook of the canvas object either returns or throws; its own effect on the
  host is not modelled.
\<close>

datatype hostfn = Returns | Throws

text \<open>
  The one exception the manager lets escape: \<open>container.querySelector(sel)\<close> throws a
  \<open>SyntaxError\<close> when \<open>sel\<close> is not a valid selector, and the node id is
  spliced into four of the five selectors as it is.
\<close>

datatype error = SyntaxError

text \<open>
  \<open>canvas_nodes\<close> is \<open>Some m\<close> exactly when \<open>canvas.nodes instanceof Map\<close>;
  \<open>canvas_methods k\<close> is \<open>Some f\<close> exactly when \<open>typeof canvas[k] === "function"\<close>.
\<close>

record canvas =
  canvas_nodes :: "(string \<rightharpoonup> jsval) option"
  canvas_methods :: "string \<Rightarrow> hostfn option"

text \<open>
  What the browser answers about the elements under the view's container. These are
  the DOM calls the manager makes; the class \<open>lc-locked\<close> and the style attribute,
  which the manager itself changes, live in the world state below.
\<close>

record dom =
  isHTMLElement :: "addr \<Rightarrow> bool"
  hasCanvasNodeClass :: "addr \<Rightarrow> bool"
  closestCanvasNode :: "addr \<Rightarrow> addr option"
  querySelector :: "string \<Rightarrow> error + addr option"
  canvasNodeEls :: "addr list"
  descendantCanvasNodes :: "addr \<Rightarrow> addr list"
  parentElement :: "addr \<Rightarrow> addr option"
  cssEscape :: "string \<Rightarrow> string"
  cssGetPropertyValue :: "string \<Rightarrow> string \<Rightarrow> string"
  cssSetProperty :: "string option \<Rightarrow> string \<Rightarrow> string \<Rightarrow> string option"
  cssRemoveProperty :: "string option \<Rightarrow> string \<Rightarrow> string option"

record view =
  view_canvas :: "canvas option"
  view_dom :: dom

record CanvasContext =
  ctx_view :: view
  ctx_canvasPath :: string

text \<open>
  The mutable part of the host: the object heap, each element's \<open>style\<close> attribute
  (\<open>None\<close> when it has none), the elements carrying the class \<open>lc-locked\<close>, and
  the redraw hooks invoked so far.
\<close>

record world =
  w_heap :: heap
  w_styleAttr :: "addr \<Rightarrow> string option"
  w_lcLocked :: "addr \<Rightarrow> bool"
  w_redraws :: "string list"

definition getCanvasFromView :: "view \<Rightarrow> canvas option" where
  "getCanvasFromView v = view_canvas v"

text \<open>\<open>nodes.get(nodeId)\<close> when it is a non-null object, after \<open>canvas?.nodes instanceof Map\<close>.\<close>

definition nodeObject :: "view \<Rightarrow> string \<Rightarrow> addr option" where
  "nodeObject v nodeId =
     (case getCanvasFromView v of
        None \<Rightarrow> None
      | Some c \<Rightarrow>
          (case canvas_nodes c of
             None \<Rightarrow> None
           | Some nodes \<Rightarrow>
               (case nodes nodeId of
                  Some (Ref ob) \<Rightarrow> Some ob
                | _ \<Rightarrow> None)))"

definition readModelSnapshot :: "heap \<Rightarrow> view \<Rightarrow> string \<Rightarrow> ModelSnapshot option" where
  "readModelSnapshot hp v nodeId =
     (case nodeObject v nodeId of
        None \<Rightarrow> None
      | Some ob \<Rightarrow> readFromNode hp ob)"

text \<open>
  The redraw loop: the hooks are tried in order, a hook that throws is skipped, the
  first that returns ends the loop. The result lists the hooks invoked.
\<close>

fun invokeRedraw :: "(string \<Rightarrow> hostfn option) \<Rightarrow> string list \<Rightarrow> string list" where
  "invokeRedraw ms [] = []"
| "invokeRedraw ms (k # ks) =
     (case ms k of
        None \<Rightarrow> invokeRedraw ms ks
      | Some Returns \<Rightarrow> [k]
      | Some Throws \<Rightarrow> k # invokeRedraw ms ks)"

definition maybeMethods :: "string list" where
  "maybeMethods = [''requestRender'', ''requestFrame'', ''render'', ''redraw'']"

definition restoreModelSnapshot :: "view \<Rightarrow> string \<Rightarrow> ModelSnapshot \<Rightarrow> world \<Rightarrow> world" where
  "restoreModelSnapshot v nodeId snap w =
     (case nodeObject v nodeId of
        None \<Rightarrow> w
      | Some ob \<Rightarrow>
          (case getCanvasFromView v of
             None \<Rightarrow> w
           | Some c \<Rightarrow>
               w\<lparr> w_heap := restoreNode snap (w_heap w) ob,
                  w_redraws := w_redraws w @ invokeRedraw (canvas_methods c) maybeMethods \<rparr>))"

section \<open>Element resolution\<close>

text \<open>\<open>style.includes(t)\<close>\<close>

fun startsWith :: "string \<Rightarrow> string \<Rightarrow> bool" where
  "startsWith s [] = True"
| "startsWith [] (c # t) = False"
| "startsWith (d # s) (c # t) = (d = c \<and> startsWith s t)"

fun str_includes :: "string \<Rightarrow> string \<Rightarrow> bool" where
  "str_includes [] t = (t = [])"
| "str_includes (c # s) t = (startsWith (c # s) t \<or> str_includes s t)"

definition hasInlinePositionProps :: "world \<Rightarrow> addr \<Rightarrow> bool" where
  "hasInlinePositionProps w el =
     (case w_styleAttr w el of
        None \<Rightarrow> False
      | Some style \<Rightarrow>
          if style = [] then False
          else (str_includes style ''transform'' \<or> str_includes style ''left'' \<or>
                str_includes style ''top'' \<or> str_includes style ''width'' \<or>
                str_includes style ''height''))"

text \<open>
  The loop \<open>for (let i = 0; i < 3 && cursor; i++)\<close> of \<open>findMoveElement\<close>;
  \<open>n\<close> is the number of iterations left, \<open>None\<close> the null cursor. The result
  \<open>None\<close> means the loop ended without returning.
\<close>

fun findMoveLoop :: "dom \<Rightarrow> world \<Rightarrow> nat \<Rightarrow> addr option \<Rightarrow> addr option" where
  "findMoveLoop d w 0 cursor = None"
| "findMoveLoop d w (Suc n) None = None"
| "findMoveLoop d w (Suc n) (Some c) =
     (if hasInlinePositionProps w c then Some c
      else findMoveLoop d w n (parentElement d c))"

definition findMoveElement :: "dom \<Rightarrow> world \<Rightarrow> addr \<Rightarrow> addr" where
  "findMoveElement d w nodeEl =
     (case findMoveLoop d w 3 (Some nodeEl) of
        Some el \<Rightarrow> el
      | None \<Rightarrow> nodeEl)"

text \<open>
  \<open>c.classList.contains("canvas-node") ? c : c.closest(".canvas-node")\<close>
\<close>

definition toCanvasNode :: "dom \<Rightarrow> addr \<Rightarrow> addr option" where
  "toCanvasNode d c = (if hasCanvasNodeClass d c then Some c else closestCanvasNode d c)"

text \<open>The loop over the element-holding fields of the registry's node object.\<close>

fun firstCandidate :: "dom \<Rightarrow> jsval list \<Rightarrow> addr option" where
  "firstCandidate d [] = None"
| "firstCandidate d (c # cs) =
     (case c of
        Ref e \<Rightarrow>
          if isHTMLElement d e then
            (case toCanvasNode d e of
               Some nodeEl \<Rightarrow> Some nodeEl
             | None \<Rightarrow> firstCandidate d cs)
          else firstCandidate d cs
      | _ \<Rightarrow> firstCandidate d cs)"

definition selectors :: "dom \<Rightarrow> string \<Rightarrow> string list" where
  \<open>selectors d ident =
     [ ''.canvas-node[data-node-id="'' @ ident @ ''"]'',
       ''.canvas-node[data-id="'' @ ident @ ''"]'',
       ''.canvas-node[data-node="'' @ ident @ ''"]'',
       ''.canvas-node[data-uid="'' @ ident @ ''"]'',
       ''#'' @ cssEscape d ident ]\<close>

text \<open>
  The loop over the selectors. A selector the browser rejects ends the loop, and the
  call, with the exception.
\<close>

fun firstSelected :: "dom \<Rightarrow> string list \<Rightarrow> error + addr option" where
  "firstSelected d [] = Inr None"
| "firstSelected d (sel # sels) =
     (case querySelector d sel of
        Inl ex \<Rightarrow> Inl ex
      | Inr None \<Rightarrow> firstSelected d sels
      | Inr (Some el) \<Rightarrow>
          (case toCanvasNode d el of
             Some nodeEl \<Rightarrow> Inr (Some nodeEl)
           | None \<Rightarrow> firstSelected d sels))"

text \<open>
  What \<open>resolveNodeElById\<close> yields: the exception it throws, or the element it
  returns (\<open>None\<close> for null).
\<close>

definition resolveEl :: "heap \<Rightarrow> view \<Rightarrow> string \<Rightarrow> error + addr option" where
  "resolveEl hp v ident =
     (let d = view_dom v;
          fromRegistry =
            (case nodeObject v ident of
               None \<Rightarrow> None
             | Some ob \<Rightarrow>
                 firstCandidate d
                   [hp ob ''nodeEl'', hp ob ''el'', hp ob ''containerEl'', hp ob ''contentEl''])
      in case fromRegistry of
           Some nodeEl \<Rightarrow> Inr (Some nodeEl)
         | None \<Rightarrow> firstSelected d (selectors d ident))"

section \<open>The lock manager\<close>

record LockCardsSettings =
  disableLockWhileAltDown :: bool
  enableDebugLogging :: bool

text \<open>A deadline of the enforcement loop: a clock reading or \<open>Number.POSITIVE_INFINITY\<close>.\<close>

datatype deadline = Ms int | PositiveInfinity

fun deadlineMax :: "deadline \<Rightarrow> deadline \<Rightarrow> deadline" where
  "deadlineMax (Ms a) (Ms b) = Ms (max a b)"
| "deadlineMax a b = PositiveInfinity"

fun beforeDeadline :: "int \<Rightarrow> deadline \<Rightarrow> bool" where
  "beforeDeadline now (Ms t) = (now < t)"
| "beforeDeadline now PositiveInfinity = True"

text \<open>
  The fields of \<open>CanvasLockManager\<close>. \<open>observer\<close> says whether an observer is
  installed; \<open>restoring\<close> is the weak set of elements, and \<open>pendingMicrotasks\<close>
  the elements whose \<open>restoring.delete\<close> is queued as a microtask.
\<close>

record manager =
  lockedByCanvas :: "string \<rightharpoonup> string list"
  lockedStyleByCanvas :: "string \<rightharpoonup> (string \<rightharpoonup> string)"
  lockedMoveStyleByCanvas :: "string \<rightharpoonup> (string \<rightharpoonup> string)"
  lockedModelByCanvas :: "string \<rightharpoonup> (string \<rightharpoonup> ModelSnapshot)"
  observer :: bool
  observedCanvasPath :: "string option"
  observedView :: "view option"
  lastRestoreAtByCanvas :: "string \<rightharpoonup> (string \<rightharpoonup> int)"
  altDown :: bool
  restoring :: "addr \<Rightarrow> bool"
  pendingMicrotasks :: "addr list"
  nodeIdByEl :: "addr \<rightharpoonup> string"
  moveElByNodeEl :: "addr \<rightharpoonup> addr"
  enforcementRaf :: "nat option"
  enforcing :: bool
  pointerIsDown :: bool
  enforceUntil :: deadline
  blockedPointerId :: "nat option"
  settings :: LockCardsSettings

text \<open>\<open>rec[p]?.[k]\<close>, \<open>rec[p][k] = v\<close> after \<open>rec[p] ??= {}\<close>, and \<open>delete rec[p][k]\<close>
  when \<open>rec[p]\<close> exists.\<close>

definition lookup2 :: "('p \<rightharpoonup> ('k \<rightharpoonup> 'v)) \<Rightarrow> 'p \<Rightarrow> 'k \<Rightarrow> 'v option" where
  "lookup2 mm p k = (case mm p of None \<Rightarrow> None | Some mp \<Rightarrow> mp k)"

definition put2 :: "('p \<rightharpoonup> ('k \<rightharpoonup> 'v)) \<Rightarrow> 'p \<Rightarrow> 'k \<Rightarrow> 'v \<Rightarrow> ('p \<rightharpoonup> ('k \<rightharpoonup> 'v))" where
  "put2 mm p k v = mm(p \<mapsto> (case mm p of None \<Rightarrow> Map.empty | Some mp \<Rightarrow> mp)(k \<mapsto> v))"

definition del2 :: "('p \<rightharpoonup> ('k \<rightharpoonup> 'v)) \<Rightarrow> 'p \<Rightarrow> 'k \<Rightarrow> ('p \<rightharpoonup> ('k \<rightharpoonup> 'v))" where
  "del2 mm p k = (case mm p of None \<Rightarrow> mm | Some mp \<Rightarrow> mm(p \<mapsto> mp(k := None)))"

text \<open>\<open>this.lockedByCanvas[canvasPath] ?? []\<close>\<close>

definition lockedIdsOf :: "manager \<Rightarrow> string \<Rightarrow> string list" where
  "lockedIdsOf m canvasPath =
     (case lockedByCanvas m canvasPath of None \<Rightarrow> [] | Some ids \<Rightarrow> ids)"

text \<open>
  Functions that can end with an exception return a sum: \<open>Inl\<close> holds the
  exception, \<open>Inr\<close> the normal result. \<open>resolveNodeElById\<close> records the element
  it returns in \<open>nodeIdByEl\<close>; when it throws it has changed nothing.
\<close>

definition resolveNodeElById ::
  "view \<Rightarrow> string \<Rightarrow> world \<Rightarrow> manager \<Rightarrow> error + (addr option \<times> manager)" where
  "resolveNodeElById v ident w m =
     (case resolveEl (w_heap w) v ident of
        Inl ex \<Rightarrow> Inl ex
      | Inr None \<Rightarrow> Inr (None, m)
      | Inr (Some nodeEl) \<Rightarrow>
          Inr (Some nodeEl, m\<lparr> nodeIdByEl := (nodeIdByEl m)(nodeEl \<mapsto> ident) \<rparr>))"

text \<open>
  A \<open>for\<close> loop whose body can throw: the exception ends the loop, and \<open>Inl\<close>
  holds it together with the state the loop had reached. (Every loop body below throws,
  if at all, in its first statement, before it has changed anything.)
\<close>

fun foldE :: "('a \<Rightarrow> 's \<Rightarrow> error + 's) \<Rightarrow> 'a list \<Rightarrow> 's \<Rightarrow> (error \<times> 's) + 's" where
  "foldE f [] s = Inr s"
| "foldE f (x # xs) s =
     (case f x s of
        Inl ex \<Rightarrow> Inl (ex, s)
      | Inr s' \<Rightarrow> foldE f xs s')"

definition isLocked :: "manager \<Rightarrow> string \<Rightarrow> string \<Rightarrow> bool" where
  "isLocked m canvasPath nodeId = (nodeId \<in> set (lockedIdsOf m canvasPath))"

text \<open>\<open>new Set(array)\<close> read back by \<open>Array.from\<close>: insertion order, first occurrences.\<close>

definition setAdd :: "string list \<Rightarrow> string \<Rightarrow> string list" where
  "setAdd cur k = (if k \<in> set cur then cur else cur @ [k])"

definition newSet :: "string list \<Rightarrow> string list" where
  "newSet xs = foldl setAdd [] xs"

definition setLocked :: "string \<Rightarrow> string \<Rightarrow> bool \<Rightarrow> manager \<Rightarrow> manager" where
  "setLocked canvasPath nodeId locked m =
     (let current = newSet (lockedIdsOf m canvasPath);
          current' = (if locked then setAdd current nodeId else removeAll nodeId current)
      in m\<lparr> lockedByCanvas := (lockedByCanvas m)(canvasPath \<mapsto> current') \<rparr>)"

text \<open>\<open>el.getAttribute("style") ?? ""\<close>\<close>

definition styleOrEmpty :: "world \<Rightarrow> addr \<Rightarrow> string" where
  "styleOrEmpty w el = (case w_styleAttr w el of None \<Rightarrow> [] | Some s \<Rightarrow> s)"

definition snapshotLockedNodeStyle :: "string \<Rightarrow> string \<Rightarrow> addr \<Rightarrow> world \<Rightarrow> manager \<Rightarrow> manager" where
  "snapshotLockedNodeStyle canvasPath nodeId nodeEl w m =
     m\<lparr> lockedStyleByCanvas := put2 (lockedStyleByCanvas m) canvasPath nodeId (styleOrEmpty w nodeEl) \<rparr>"

definition snapshotLockedMoveStyle :: "dom \<Rightarrow> string \<Rightarrow> string \<Rightarrow> addr \<Rightarrow> world \<Rightarrow> manager \<Rightarrow> manager" where
  "snapshotLockedMoveStyle d canvasPath nodeId nodeEl w m =
     (let moveEl = findMoveElement d w nodeEl
      in m\<lparr> moveElByNodeEl := (moveElByNodeEl m)(nodeEl \<mapsto> moveEl),
             lockedMoveStyleByCanvas :=
               put2 (lockedMoveStyleByCanvas m) canvasPath nodeId (styleOrEmpty w moveEl) \<rparr>)"

definition snapshotLockedNodeModel :: "CanvasContext \<Rightarrow> string \<Rightarrow> world \<Rightarrow> manager \<Rightarrow> manager" where
  "snapshotLockedNodeModel ctx nodeId w m =
     (case readModelSnapshot (w_heap w) (ctx_view ctx) nodeId of
        None \<Rightarrow> m
      | Some snap \<Rightarrow>
          m\<lparr> lockedModelByCanvas := put2 (lockedModelByCanvas m) (ctx_canvasPath ctx) nodeId snap \<rparr>)"

definition forgetLockedNodeStyle :: "string \<Rightarrow> string \<Rightarrow> manager \<Rightarrow> manager" where
  "forgetLockedNodeStyle canvasPath nodeId m =
     m\<lparr> lockedStyleByCanvas := del2 (lockedStyleByCanvas m) canvasPath nodeId \<rparr>"

definition forgetLockedMoveStyle :: "string \<Rightarrow> string \<Rightarrow> manager \<Rightarrow> manager" where
  "forgetLockedMoveStyle canvasPath nodeId m =
     m\<lparr> lockedMoveStyleByCanvas := del2 (lockedMoveStyleByCanvas m) canvasPath nodeId \<rparr>"

definition forgetLockedNodeModel :: "string \<Rightarrow> string \<Rightarrow> manager \<Rightarrow> manager" where
  "forgetLockedNodeModel canvasPath nodeId m =
     m\<lparr> lockedModelByCanvas := del2 (lockedModelByCanvas m) canvasPath nodeId \<rparr>"

definition snapshotOnLock :: "CanvasContext \<Rightarrow> string \<Rightarrow> world \<Rightarrow> manager \<Rightarrow> error + manager" where
  "snapshotOnLock ctx nodeId w m =
     (case resolveNodeElById (ctx_view ctx) nodeId w m of
        Inl ex \<Rightarrow> Inl ex
      | Inr (None, m0) \<Rightarrow> Inr m0
      | Inr (Some el, m0) \<Rightarrow>
          (let m1 = m0\<lparr> nodeIdByEl := (nodeIdByEl m0)(el \<mapsto> nodeId) \<rparr>;
               m2 = snapshotLockedNodeStyle (ctx_canvasPath ctx) nodeId el w m1;
               m3 = snapshotLockedMoveStyle (view_dom (ctx_view ctx)) (ctx_canvasPath ctx) nodeId el w m2
           in Inr (snapshotLockedNodeModel ctx nodeId w m3)))"

definition forgetOnUnlock :: "string \<Rightarrow> string \<Rightarrow> manager \<Rightarrow> manager" where
  "forgetOnUnlock canvasPath nodeId m =
     forgetLockedNodeModel canvasPath nodeId
       (forgetLockedMoveStyle canvasPath nodeId
          (forgetLockedNodeStyle canvasPath nodeId m))"

text \<open>
  \<open>applyLockedClasses\<close>: the class is removed from every \<open>.canvas-node\<close> under the
  container, then added to the element of each locked id that resolves.
\<close>

definition addLockedClass :: "view \<Rightarrow> string \<Rightarrow> manager \<times> world \<Rightarrow> error + manager \<times> world" where
  "addLockedClass v ident mw =
     (case resolveNodeElById v ident (snd mw) (fst mw) of
        Inl ex \<Rightarrow> Inl ex
      | Inr (None, m0) \<Rightarrow> Inr (m0, snd mw)
      | Inr (Some el, m0) \<Rightarrow>
          Inr (m0, (snd mw)\<lparr> w_lcLocked := (w_lcLocked (snd mw))(el := True) \<rparr>))"

definition applyLockedClasses ::
  "CanvasContext \<Rightarrow> manager \<times> world \<Rightarrow> (error \<times> manager \<times> world) + manager \<times> world" where
  "applyLockedClasses ctx mw =
     (let m = fst mw; w = snd mw;
          cleared = w\<lparr> w_lcLocked :=
                      (\<lambda>e. if List.member (canvasNodeEls (view_dom (ctx_view ctx))) e then False
                           else w_lcLocked w e) \<rparr>;
          lockedIds = lockedIdsOf m (ctx_canvasPath ctx)
      in foldE (addLockedClass (ctx_view ctx)) lockedIds (m, cleared))"

definition unlockAllInCanvas ::
  "CanvasContext \<Rightarrow> manager \<times> world \<Rightarrow> (error \<times> manager \<times> world) + nat \<times> manager \<times> world" where
  "unlockAllInCanvas ctx mw =
     (let m = fst mw; w = snd mw;
          lockedIds = lockedIdsOf m (ctx_canvasPath ctx)
      in if length lockedIds = 0 then Inr (0, m, w)
         else
           (let m1 = fold (forgetOnUnlock (ctx_canvasPath ctx)) lockedIds m;
                m2 = m1\<lparr> lockedByCanvas := (lockedByCanvas m1)(ctx_canvasPath ctx \<mapsto> []) \<rparr>
            in case applyLockedClasses ctx (m2, w) of
                 Inl ex \<Rightarrow> Inl ex
               | Inr mw' \<Rightarrow> Inr (length lockedIds, mw')))"

text \<open>
  \<open>attachStyleGuardToCanvas\<close>, as far as the manager's fields go: nothing when an
  observer for this canvas path is installed, otherwise the observer is replaced and the
  observed path and view are recorded. (Of the listeners of the input guard only the
  \<open>keydown\<close> listener is modelled, further down; the pointer listeners are not.)
\<close>

definition attachStyleGuardToCanvas :: "view \<Rightarrow> string \<Rightarrow> manager \<Rightarrow> manager" where
  "attachStyleGuardToCanvas v canvasPath m =
     (if observer m \<and> observedCanvasPath m = Some canvasPath then m
      else m\<lparr> observer := True, observedCanvasPath := Some canvasPath, observedView := Some v \<rparr>)"

definition ensureGuardAttached :: "CanvasContext \<Rightarrow> manager \<Rightarrow> manager" where
  "ensureGuardAttached ctx m = attachStyleGuardToCanvas (ctx_view ctx) (ctx_canvasPath ctx) m"

subsection \<open>The command toggle-lock-selected-cards\<close>

text \<open>
  The callback of the command with \<open>checking = false\<close>, from the point where the
  active canvas context \<open>ctx\<close> and \<open>selectedIds = mgr.getSelectedNodeIds(ctx)\<close> are
  known. The boolean is the callback's result; the callback has no \<open>try\<close>, so an
  exception of \<open>snapshotOnLock\<close> or \<open>applyLockedClasses\<close> ends it where it is
  thrown. Saving the plugin data and the notice are left out.
\<close>

definition toggleStep :: "CanvasContext \<Rightarrow> bool \<Rightarrow> world \<Rightarrow> string \<Rightarrow> manager \<Rightarrow> error + manager" where
  "toggleStep ctx newLockedState w ident m =
     (if newLockedState then snapshotOnLock ctx ident w m
      else Inr (forgetOnUnlock (ctx_canvasPath ctx) ident m))"

definition toggleLockSelected ::
  "CanvasContext \<Rightarrow> string list \<Rightarrow> manager \<times> world \<Rightarrow>
     (error \<times> manager \<times> world) + bool \<times> manager \<times> world" where
  "toggleLockSelected ctx selectedIds mw =
     (if length selectedIds = 0 then Inr (False, mw)
      else
        (let m0 = ensureGuardAttached ctx (fst mw);
             anyUnlocked = list_ex (\<lambda>ident. \<not> isLocked m0 (ctx_canvasPath ctx) ident) selectedIds;
             newLockedState = anyUnlocked;
             m1 = fold (\<lambda>ident. setLocked (ctx_canvasPath ctx) ident newLockedState) selectedIds m0
         in case foldE (toggleStep ctx newLockedState (snd mw)) selectedIds m1 of
              Inl (ex, m2) \<Rightarrow> Inl (ex, m2, snd mw)
            | Inr m2 \<Rightarrow>
                (case applyLockedClasses ctx (m2, snd mw) of
                   Inl ex \<Rightarrow> Inl ex
                 | Inr mw' \<Rightarrow> Inr (True, mw'))))"

subsection \<open>Style-only restore\<close>

definition positionProps :: "string list" where
  "positionProps = [''left'', ''top'', ''width'', ''height'', ''transform'']"

definition restoreProp :: "dom \<Rightarrow> string \<Rightarrow> string \<Rightarrow> string option \<Rightarrow> string option" where
  "restoreProp d savedStyle prop current =
     (let v = cssGetPropertyValue d savedStyle prop
      in if v \<noteq> [] then cssSetProperty d current prop v
         else cssRemoveProperty d current prop)"

definition restorePositionStyleOnly :: "dom \<Rightarrow> addr \<Rightarrow> string \<Rightarrow> world \<Rightarrow> world" where
  "restorePositionStyleOnly d nodeEl savedStyle w =
     w\<lparr> w_styleAttr :=
          (w_styleAttr w)(nodeEl := fold (restoreProp d savedStyle) positionProps (w_styleAttr w nodeEl)) \<rparr>"

subsection \<open>The mutation observer\<close>

text \<open>
  \<open>shouldThrottleRestore(nodeId)\<close> of the observer installed for \<open>canvasPath\<close>;
  \<open>now\<close> is the reading of \<open>Date.now()\<close>.
\<close>

definition shouldThrottleRestore :: "string \<Rightarrow> string \<Rightarrow> int \<Rightarrow> manager \<Rightarrow> bool \<times> manager" where
  "shouldThrottleRestore canvasPath nodeId now m =
     (let m0 = (if lastRestoreAtByCanvas m canvasPath = None
                then m\<lparr> lastRestoreAtByCanvas := (lastRestoreAtByCanvas m)(canvasPath \<mapsto> Map.empty) \<rparr>
                else m);
          last = (case lookup2 (lastRestoreAtByCanvas m0) canvasPath nodeId of
                    None \<Rightarrow> 0 | Some t \<Rightarrow> t)
      in if now - last < 50 then (True, m0)
         else (False, m0\<lparr> lastRestoreAtByCanvas :=
                             put2 (lastRestoreAtByCanvas m0) canvasPath nodeId now \<rparr>))"

record MutationRecord =
  mut_type :: string
  mut_target :: jsval

text \<open>The \<open>.canvas-node\<close> a mutation's target belongs to, or holds as a locked descendant.\<close>

definition mutationNodeEl :: "dom \<Rightarrow> world \<Rightarrow> addr \<Rightarrow> addr option" where
  "mutationNodeEl d w target =
     (if hasCanvasNodeClass d target then Some target
      else (case closestCanvasNode d target of
              Some n \<Rightarrow> Some n
            | None \<Rightarrow> find (w_lcLocked w) (descendantCanvasNodes d target)))"

text \<open>
  The body of the \<open>try\<close> block for one mutation, entered with the element marked as
  restoring: the model-based restore when a geometry snapshot and the observed view
  exist, the style-based fallback otherwise.
\<close>

definition observerRestore ::
  "string \<Rightarrow> int \<Rightarrow> addr \<Rightarrow> string \<Rightarrow> manager \<times> world \<Rightarrow> manager \<times> world" where
  "observerRestore canvasPath now nodeEl nodeId mw =
     (let m = fst mw; w = snd mw;
          savedStyle = lookup2 (lockedStyleByCanvas m) canvasPath nodeId;
          savedMoveStyle = lookup2 (lockedMoveStyleByCanvas m) canvasPath nodeId;
          savedModel = lookup2 (lockedModelByCanvas m) canvasPath nodeId
      in case (savedModel, observedView m) of
           (Some saved, Some v) \<Rightarrow>
             (let currentModel = readModelSnapshot (w_heap w) v nodeId
              in if (case currentModel of None \<Rightarrow> True | Some cur \<Rightarrow> \<not> isSameSnapshot cur saved)
                 then (case shouldThrottleRestore canvasPath nodeId now m of
                         (True, m') \<Rightarrow> (m', w)
                       | (False, m') \<Rightarrow> (m', restoreModelSnapshot v nodeId saved w))
                 else (m, w))
         | _ \<Rightarrow>
             (case observedView m of
                None \<Rightarrow> (m, w)
              | Some v \<Rightarrow>
                  (let d = view_dom v;
                       moveEl = (case moveElByNodeEl m nodeEl of Some e \<Rightarrow> e | None \<Rightarrow> nodeEl)
                   in case savedMoveStyle of
                        Some sms \<Rightarrow> (m, restorePositionStyleOnly d moveEl sms w)
                      | None \<Rightarrow>
                          (case savedStyle of
                             Some ss \<Rightarrow> (m, restorePositionStyleOnly d nodeEl ss w)
                           | None \<Rightarrow> (m, w)))))"

text \<open>
  One iteration of the loop over the mutations; \<open>now\<close> is what \<open>Date.now()\<close> reads
  while this mutation is handled.
\<close>

definition observeMutation ::
  "string \<Rightarrow> MutationRecord \<times> int \<Rightarrow> manager \<times> world \<Rightarrow> manager \<times> world" where
  "observeMutation canvasPath mt mw =
     (let m = fst mw; w = snd mw; mu = fst mt; now = snd mt
      in case observedView m of
           None \<Rightarrow> mw
         | Some v \<Rightarrow>
            (let d = view_dom v in
             if mut_type mu \<noteq> ''attributes'' then mw
             else (case mut_target mu of
                Ref target \<Rightarrow>
                  if \<not> isHTMLElement d target then mw
                  else (case mutationNodeEl d w target of
                     None \<Rightarrow> mw
                   | Some nodeEl \<Rightarrow>
                       if \<not> w_lcLocked w nodeEl then mw
                       else (case nodeIdByEl m nodeEl of
                          None \<Rightarrow> mw
                        | Some nodeId \<Rightarrow>
                            if nodeId = [] then mw
                            else if lookup2 (lockedStyleByCanvas m) canvasPath nodeId = None \<and>
                                    lookup2 (lockedMoveStyleByCanvas m) canvasPath nodeId = None \<and>
                                    lookup2 (lockedModelByCanvas m) canvasPath nodeId = None then mw
                            else if restoring m nodeEl then mw
                            else
                              (let m1 = m\<lparr> restoring := (restoring m)(nodeEl := True) \<rparr>;
                                   mw2 = observerRestore canvasPath now nodeEl nodeId (m1, w)
                               in ((fst mw2)\<lparr> pendingMicrotasks := pendingMicrotasks (fst mw2) @ [nodeEl] \<rparr>,
                                   snd mw2))))
              | _ \<Rightarrow> mw)))"

text \<open>The callback of the observer installed for \<open>canvasPath\<close>, on one batch of mutations.\<close>

definition observerCallback ::
  "string \<Rightarrow> (MutationRecord \<times> int) list \<Rightarrow> manager \<times> world \<Rightarrow> manager \<times> world" where
  "observerCallback canvasPath mutations mw =
     (if disableLockWhileAltDown (settings (fst mw)) \<and> altDown (fst mw) then mw
      else if observedView (fst mw) = None then mw
      else fold (observeMutation canvasPath) mutations mw)"

text \<open>The queued \<open>restoring.delete(nodeEl)\<close> calls, run after the callback returns.\<close>

definition runMicrotasks :: "manager \<Rightarrow> manager" where
  "runMicrotasks m =
     m\<lparr> restoring := (\<lambda>e. if List.member (pendingMicrotasks m) e then False else restoring m e),
        pendingMicrotasks := [] \<rparr>"

subsection \<open>The enforcement loop\<close>

text \<open>One iteration of the loop over the locked ids in \<open>enforceLockedNodesOnce\<close>.\<close>

text \<open>
  The part of an iteration after the element \<open>el\<close> is found: the model-based restore
  when there is a geometry snapshot, else the restore of the move element's style, else
  of the element's style.
\<close>

definition enforceResolved ::
  "view \<Rightarrow> string \<Rightarrow> string \<Rightarrow> addr \<Rightarrow> manager \<times> world \<Rightarrow> manager \<times> world" where
  "enforceResolved v canvasPath nodeId el mw =
     (let w = snd mw;
          m = (fst mw)\<lparr> nodeIdByEl := (nodeIdByEl (fst mw))(el \<mapsto> nodeId) \<rparr>
      in case lookup2 (lockedModelByCanvas m) canvasPath nodeId of
           Some savedModel \<Rightarrow>
             (let currentModel = readModelSnapshot (w_heap w) v nodeId
              in if (case currentModel of None \<Rightarrow> True
                     | Some cur \<Rightarrow> \<not> isSameSnapshot_enforce cur savedModel)
                 then (m, restoreModelSnapshot v nodeId savedModel w)
                 else (m, w))
         | None \<Rightarrow>
             (case lookup2 (lockedMoveStyleByCanvas m) canvasPath nodeId of
                Some savedMoveStyle \<Rightarrow>
                  (let moveEl = (case moveElByNodeEl m el of
                                   Some e \<Rightarrow> e
                                 | None \<Rightarrow> findMoveElement (view_dom v) w el)
                   in (m\<lparr> moveElByNodeEl := (moveElByNodeEl m)(el \<mapsto> moveEl) \<rparr>,
                       restorePositionStyleOnly (view_dom v) moveEl savedMoveStyle w))
              | None \<Rightarrow>
                  (case lookup2 (lockedStyleByCanvas m) canvasPath nodeId of
                     Some savedStyle \<Rightarrow> (m, restorePositionStyleOnly (view_dom v) el savedStyle w)
                   | None \<Rightarrow> (m, w))))"

definition enforceNode ::
  "view \<Rightarrow> string \<Rightarrow> string \<Rightarrow> manager \<times> world \<Rightarrow> error + manager \<times> world" where
  "enforceNode v canvasPath nodeId mw =
     (case resolveNodeElById v nodeId (snd mw) (fst mw) of
        Inl ex \<Rightarrow> Inl ex
      | Inr (None, m0) \<Rightarrow> Inr (m0, snd mw)
      | Inr (Some el, m0) \<Rightarrow> Inr (enforceResolved v canvasPath nodeId el (m0, snd mw)))"

definition enforceLockedNodesOnce ::
  "manager \<times> world \<Rightarrow> (error \<times> manager \<times> world) + manager \<times> world" where
  "enforceLockedNodesOnce mw =
     (case observedView (fst mw) of
        None \<Rightarrow> Inr mw
      | Some v \<Rightarrow>
          (case observedCanvasPath (fst mw) of
             None \<Rightarrow> Inr mw
           | Some canvasPath \<Rightarrow>
               if canvasPath = [] then Inr mw
               else
                 (let lockedIds = lockedIdsOf (fst mw) canvasPath
                  in if length lockedIds = 0 then Inr mw
                     else foldE (enforceNode v canvasPath) lockedIds mw)))"

text \<open>
  \<open>startEnforcementLoop(until)\<close>; \<open>raf\<close> is the handle \<open>requestAnimationFrame\<close>
  returns.
\<close>

definition startEnforcementLoop :: "deadline \<Rightarrow> nat \<Rightarrow> manager \<Rightarrow> manager" where
  "startEnforcementLoop until raf m =
     (let m1 = m\<lparr> enforceUntil := deadlineMax (enforceUntil m) until \<rparr>
      in if enforcing m1 then m1
         else m1\<lparr> enforcing := True, enforcementRaf := Some raf \<rparr>)"

text \<open>
  One run of \<open>tick\<close> at clock reading \<open>now\<close>. An exception of the pass ends the
  run before the next frame is requested and with \<open>enforcing\<close> still set.
\<close>

definition tick ::
  "int \<Rightarrow> nat \<Rightarrow> manager \<times> world \<Rightarrow> (error \<times> manager \<times> world) + manager \<times> world" where
  "tick now raf mw =
     (if \<not> enforcing (fst mw) then Inr mw
      else
        (let shouldBypass = (disableLockWhileAltDown (settings (fst mw)) \<and> altDown (fst mw))
         in case (if \<not> shouldBypass then enforceLockedNodesOnce mw else Inr mw) of
              Inl ex \<Rightarrow> Inl ex
            | Inr mw1 \<Rightarrow>
                (let m1 = fst mw1
                 in if pointerIsDown m1 \<or> beforeDeadline now (enforceUntil m1)
                    then Inr (m1\<lparr> enforcementRaf := Some raf \<rparr>, snd mw1)
                    else Inr (m1\<lparr> enforcing := False, enforcementRaf := None,
                                  enforceUntil := Ms 0 \<rparr>, snd mw1))))"

text \<open>The key listeners of \<open>installAltKeyTracking\<close>.\<close>

definition onKeyDown :: "string \<Rightarrow> manager \<Rightarrow> manager" where
  "onKeyDown key m = (if key = ''Alt'' then m\<lparr> altDown := True \<rparr> else m)"

definition onKeyUp :: "string \<Rightarrow> manager \<Rightarrow> manager" where
  "onKeyUp key m = (if key = ''Alt'' then m\<lparr> altDown := False \<rparr> else m)"

text \<open>
  The \<open>keydown\<close> listener of \<open>attachInputGuardToCanvas\<close>; \<open>now\<close> is the reading
  of \<open>Date.now()\<close> and \<open>raf\<close> the handle \<open>requestAnimationFrame\<close> would return.
\<close>

definition guardKeyDown :: "string \<Rightarrow> int \<Rightarrow> nat \<Rightarrow> manager \<Rightarrow> manager" where
  "guardKeyDown key now raf m =
     (if disableLockWhileAltDown (settings m) \<and> altDown m then m
      else if key = ''ArrowUp'' \<or> key = ''ArrowDown'' \<or> key = ''ArrowLeft'' \<or> key = ''ArrowRight''
           then startEnforcementLoop (Ms (now + 400)) raf m
           else m)"

section \<open>Notions used to state the properties\<close>

text \<open>
  Two readings of "within the absolute tolerance 1e-4". \<open>withinTolerance\<close> is the
  reading over the exact values: both numbers are finite and differ by at most
  \<open>1 / 10000\<close>. \<open>withinCheck\<close> is what the double-precision test turns out to
  decide: both numbers are finite and differ by less than \<open>closeBound\<close>, the midpoint
  between \<open>epsValue\<close>, the double nearest to \<open>1 / 10000\<close>, and the next double
  (about \<open>1.0000000000000001157e-4\<close>).
\<close>

definition epsValue :: rat where
  "epsValue = 7378697629483821 / 2 ^ 66"

definition closeBound :: rat where
  "closeBound = 14757395258967643 / 2 ^ 67"

definition withinTolerance :: "jsnum \<Rightarrow> jsnum \<Rightarrow> bool" where
  "withinTolerance u v =
     (case u of
        Finite p \<Rightarrow> (case v of Finite q \<Rightarrow> \<bar>p - q\<bar> \<le> 1 / 10000 | _ \<Rightarrow> False)
      | _ \<Rightarrow> False)"

definition withinCheck :: "jsnum \<Rightarrow> jsnum \<Rightarrow> bool" where
  "withinCheck u v =
     (case u of
        Finite p \<Rightarrow> (case v of Finite q \<Rightarrow> \<bar>p - q\<bar> < closeBound | _ \<Rightarrow> False)
      | _ \<Rightarrow> False)"

text \<open>
  The comparison of one optional dimension as the specification words it: both
  undefined is equal, exactly one undefined is unequal, both defined are compared
  within the tolerance.
\<close>

definition dimEqualSpec :: "jsnum option \<Rightarrow> jsnum option \<Rightarrow> bool" where
  "dimEqualSpec u v =
     (case (u, v) of
        (None, None) \<Rightarrow> True
      | (Some p, Some q) \<Rightarrow> withinCheck p q
      | _ \<Rightarrow> False)"

text \<open>The magnitude \<open>roundD\<close> gives a positive value before the test for overflow.\<close>

definition roundMag :: "rat \<Rightarrow> rat" where
  "roundMag a =
     of_int (roundHalfEven (a / 2 powi (binExponent a - 52))) * 2 powi (binExponent a - 52)"

text \<open>
  A rational is a double when rounding leaves it as it is. A snapshot is finite when
  none of its numbers is \<open>NaN\<close> or an infinity.
\<close>

definition isDouble :: "rat \<Rightarrow> bool" where
  "isDouble r = (roundD r = Finite r)"

definition isFiniteNum :: "jsnum \<Rightarrow> bool" where
  "isFiniteNum u = (case u of Finite p \<Rightarrow> True | _ \<Rightarrow> False)"

definition finiteSnapshot :: "ModelSnapshot \<Rightarrow> bool" where
  "finiteSnapshot s =
     (isFiniteNum (snap_x s) \<and> isFiniteNum (snap_y s) \<and>
      (case snap_w s of None \<Rightarrow> True | Some d \<Rightarrow> isFiniteNum d) \<and>
      (case snap_h s of None \<Rightarrow> True | Some d \<Rightarrow> isFiniteNum d))"

text \<open>
  What a call that may throw leaves behind, however it ended: \<open>stateOf\<close> is the
  state after a loop or a pass, \<open>stateAfter\<close> the state after a call that also returns
  a value. An id \<open>resolves\<close> when \<open>resolveNodeElById\<close> returns for it (an element
  or null) instead of throwing.
\<close>

definition stateOf :: "(error \<times> 's) + 's \<Rightarrow> 's" where
  "stateOf r = (case r of Inl (ex, s) \<Rightarrow> s | Inr s \<Rightarrow> s)"

definition stateAfter :: "(error \<times> 's) + ('a \<times> 's) \<Rightarrow> 's" where
  "stateAfter r = (case r of Inl (ex, s) \<Rightarrow> s | Inr (x, s) \<Rightarrow> s)"

definition resolves :: "heap \<Rightarrow> view \<Rightarrow> string \<Rightarrow> bool" where
  "resolves hp v ident = (case resolveEl hp v ident of Inl ex \<Rightarrow> False | Inr r \<Rightarrow> True)"

text \<open>
  A candidate shape exposes numeric \<open>x\<close> and \<open>y\<close>: it is an object whose \<open>x\<close>
  and \<open>y\<close> are both numbers. The same test decides whether a write to it succeeds
  structurally.
\<close>

definition exposesXY :: "heap \<Rightarrow> jsval \<Rightarrow> bool" where
  "exposesXY hp base =
     (case base of Ref b \<Rightarrow> isNumber (hp b ''x'') \<and> isNumber (hp b ''y'') | _ \<Rightarrow> False)"

text \<open>
  The snapshot a shape yields, in the specification's words: \<open>x\<close> and \<open>y\<close>, the
  width from \<open>width\<close> or, failing that, \<open>w\<close> (likewise the height), and the shape
  that matched.
\<close>

definition numberOf :: "jsval \<Rightarrow> jsnum option" where
  "numberOf v = (case v of Num r \<Rightarrow> Some r | _ \<Rightarrow> None)"

definition dimOf :: "heap \<Rightarrow> addr \<Rightarrow> string \<Rightarrow> string \<Rightarrow> jsnum option" where
  "dimOf hp b long short =
     (if isNumber (hp b long) then numberOf (hp b long) else numberOf (hp b short))"

definition shapeSnapshot :: "heap \<Rightarrow> jsval \<Rightarrow> snapmode \<Rightarrow> ModelSnapshot option" where
  "shapeSnapshot hp base mode =
     (case base of
        Ref b \<Rightarrow>
          (case (numberOf (hp b ''x''), numberOf (hp b ''y'')) of
             (Some vx, Some vy) \<Rightarrow>
               Some \<lparr> snap_mode = mode, snap_x = vx, snap_y = vy,
                      snap_w = dimOf hp b ''width'' ''w'',
                      snap_h = dimOf hp b ''height'' ''h'' \<rparr>
           | _ \<Rightarrow> None)
      | _ \<Rightarrow> None)"

text \<open>The candidates in their fixed priority order, each with the shape it records.\<close>

definition candidates :: "heap \<Rightarrow> addr \<Rightarrow> (snapmode \<times> jsval) list" where
  "candidates hp ob =
     [(Top, Ref ob), (Pos, hp ob ''pos''), (Rect, hp ob ''rect''), (Data, hp ob ''data'')]"

text \<open>
  The elements the move-element search looks at: the node element, its parent and its
  grandparent, as far as they exist.
\<close>

definition examined :: "dom \<Rightarrow> addr \<Rightarrow> addr list" where
  "examined d nodeEl =
     nodeEl # (case parentElement d nodeEl of
                 None \<Rightarrow> []
               | Some p \<Rightarrow> p # (case parentElement d p of None \<Rightarrow> [] | Some g \<Rightarrow> [g]))"

text \<open>The inline style contains a word as a contiguous substring.\<close>

definition containsWord :: "string \<Rightarrow> string \<Rightarrow> bool" where
  "containsWord style t = (\<exists>pre post. style = pre @ t @ post)"

definition positionWords :: "string list" where
  "positionWords = [''transform'', ''left'', ''top'', ''width'', ''height'']"

text \<open>The shape that a snapshot of the given mode was read from; none for \<open>Unknown\<close>.\<close>

definition recordedShape :: "snapmode \<Rightarrow> heap \<Rightarrow> addr \<Rightarrow> jsval option" where
  "recordedShape mode hp ob = map_of (candidates hp ob) mode"

text \<open>
  What a shape's optional dimension reads after a successful write: the saved value
  when the snapshot has one and the shape has a numeric field for it, the shape's own
  value otherwise.
\<close>

definition writtenDim :: "jsnum option \<Rightarrow> jsnum option \<Rightarrow> jsnum option" where
  "writtenDim saved present =
     (case saved of
        None \<Rightarrow> present
      | Some v \<Rightarrow> (case present of None \<Rightarrow> None | Some u \<Rightarrow> Some v))"

text \<open>The only property names a restore assigns to.\<close>

definition geometryKeys :: "string list" where
  "geometryKeys = [''x'', ''y'', ''width'', ''w'', ''height'', ''h'']"

subsection \<open>A small canvas used to instantiate the properties\<close>

text \<open>
  Node \<open>n1\<close> is object 1; its geometry lives in the nested \<open>pos\<close> object 2. Its
  element is 10, whose parent is 11 and grandparent 12; only 12 has an inline style.
  No selector matches an element, and the browser rejects the selector \<open>#\<close>, which
  is what the empty id yields.
\<close>

definition exHeap :: heap where
  "exHeap =
     (\<lambda>a k. Undefined)
       (1 := (\<lambda>k. Undefined)(''pos'' := Ref 2, ''nodeEl'' := Ref 10),
        2 := (\<lambda>k. Undefined)(''x'' := Num (Finite 10), ''y'' := Num (Finite 20),
                              ''width'' := Num (Finite 30)))"

definition exDom :: dom where
  "exDom =
     \<lparr> isHTMLElement = (\<lambda>a. a = 10 \<or> a = 11 \<or> a = 12),
       hasCanvasNodeClass = (\<lambda>a. a = 10),
       closestCanvasNode = (\<lambda>a. if a = 10 then Some 10 else None),
       querySelector = (\<lambda>sel. if sel = ''#'' then Inl SyntaxError else Inr None),
       canvasNodeEls = [10],
       descendantCanvasNodes = (\<lambda>a. if a = 11 \<or> a = 12 then [10] else []),
       parentElement = (\<lambda>a. if a = 10 then Some 11 else if a = 11 then Some 12 else None),
       cssEscape = (\<lambda>s. s),
       cssGetPropertyValue = (\<lambda>style prop. []),
       cssSetProperty = (\<lambda>cur prop v. cur),
       cssRemoveProperty = (\<lambda>cur prop. cur) \<rparr>"

definition exView :: view where
  "exView =
     \<lparr> view_canvas =
         Some \<lparr> canvas_nodes = Some [''n1'' \<mapsto> Ref 1],
                canvas_methods = (\<lambda>k. if k = ''requestFrame'' then Some Returns else None) \<rparr>,
       view_dom = exDom \<rparr>"

definition exWorld :: world where
  "exWorld =
     \<lparr> w_heap = exHeap,
       w_styleAttr = (\<lambda>a. if a = 12 then Some ''transform: translate(10px, 20px)'' else None),
       w_lcLocked = (\<lambda>a. a = 10),
       w_redraws = [] \<rparr>"

text \<open>A node object whose own \<open>y\<close> is not a number, with a usable \<open>pos\<close> shape.\<close>

definition exHeapBroken :: heap where
  "exHeapBroken =
     (\<lambda>a k. Undefined)
       (1 := (\<lambda>k. Undefined)(''x'' := Num (Finite 5), ''y'' := Str ''bad'', ''pos'' := Ref 2),
        2 := (\<lambda>k. Undefined)(''x'' := Num (Finite 7), ''y'' := Num (Finite 8)))"

definition exSnap :: ModelSnapshot where
  "exSnap = \<lparr> snap_mode = Pos, snap_x = Finite 1, snap_y = Finite 2,
              snap_w = Some (Finite 3), snap_h = Some (Finite 4) \<rparr>"

definition exSnapTop :: ModelSnapshot where
  "exSnapTop = \<lparr> snap_mode = Top, snap_x = Finite 0, snap_y = Finite 0,
                 snap_w = None, snap_h = None \<rparr>"

text \<open>
  A manager observing the canvas \<open>c.canvas\<close> with three locked ids; only \<open>n1\<close> has a
  backing object and an element.
\<close>

definition exCtx :: CanvasContext where
  "exCtx = \<lparr> ctx_view = exView, ctx_canvasPath = ''c.canvas'' \<rparr>"

definition exManager :: manager where
  "exManager =
     \<lparr> lockedByCanvas = [''c.canvas'' \<mapsto> [''n1'', ''b'', ''c'']],
       lockedStyleByCanvas = [''c.canvas'' \<mapsto> [''n1'' \<mapsto> ''left: 1px'', ''b'' \<mapsto> []]],
       lockedMoveStyleByCanvas = [''c.canvas'' \<mapsto> [''n1'' \<mapsto> ''left: 1px'']],
       lockedModelByCanvas = [''c.canvas'' \<mapsto> [''n1'' \<mapsto> exSnap]],
       observer = True,
       observedCanvasPath = Some ''c.canvas'',
       observedView = Some exView,
       lastRestoreAtByCanvas = Map.empty,
       altDown = False,
       restoring = (\<lambda>e. False),
       pendingMicrotasks = [],
       nodeIdByEl = [10 \<mapsto> ''n1''],
       moveElByNodeEl = Map.empty,
       enforcementRaf = None,
       enforcing = False,
       pointerIsDown = False,
       enforceUntil = Ms 0,
       blockedPointerId = None,
       settings = \<lparr> disableLockWhileAltDown = True, enableDebugLogging = False \<rparr> \<rparr>"

subsection \<open>What locking captures\<close>

text \<open>
  The values \<open>snapshotOnLock\<close> stores for a node in the current world: nothing when
  its element does not resolve (or resolving it throws); otherwise the element's inline
  style, the move element's inline style and, when the geometry is readable, the
  geometry snapshot.
  \<open>overwrite\<close> is the entry after such a capture: the captured value if there is one,
  the previous entry otherwise.
\<close>

definition capturedStyle :: "CanvasContext \<Rightarrow> world \<Rightarrow> string \<Rightarrow> string option" where
  "capturedStyle ctx w ident =
     (case resolveEl (w_heap w) (ctx_view ctx) ident of
        Inr (Some el) \<Rightarrow> Some (styleOrEmpty w el)
      | _ \<Rightarrow> None)"

definition capturedMoveStyle :: "CanvasContext \<Rightarrow> world \<Rightarrow> string \<Rightarrow> string option" where
  "capturedMoveStyle ctx w ident =
     (case resolveEl (w_heap w) (ctx_view ctx) ident of
        Inr (Some el) \<Rightarrow> Some (styleOrEmpty w (findMoveElement (view_dom (ctx_view ctx)) w el))
      | _ \<Rightarrow> None)"

definition capturedModel :: "CanvasContext \<Rightarrow> world \<Rightarrow> string \<Rightarrow> ModelSnapshot option" where
  "capturedModel ctx w ident =
     (case resolveEl (w_heap w) (ctx_view ctx) ident of
        Inr (Some el) \<Rightarrow> readModelSnapshot (w_heap w) (ctx_view ctx) ident
      | _ \<Rightarrow> None)"

definition overwrite :: "'a option \<Rightarrow> 'a option \<Rightarrow> 'a option" where
  "overwrite captured old = (case captured of Some v \<Rightarrow> Some v | None \<Rightarrow> old)"

subsection \<open>Notions for the enforcement pass\<close>

text \<open>
  The shapes of a node object are the object and its \<open>pos\<close>, \<open>rect\<close> and
  \<open>data\<close> fields; two node objects are separate when no object is a shape of both.
  A node is still shaped like its snapshot when its geometry is read from the shape the
  snapshot records and has a width (a height) exactly when the snapshot has one.
  Two heaps have the same types when they agree on which properties are numbers and on
  every property other than the six geometry keys. The geometry holds when it is
  readable and passes the divergence check against the snapshot.
\<close>

definition shapes :: "heap \<Rightarrow> addr \<Rightarrow> jsval list" where
  "shapes hp ob = [Ref ob, hp ob ''pos'', hp ob ''rect'', hp ob ''data'']"

definition separate :: "heap \<Rightarrow> addr \<Rightarrow> addr \<Rightarrow> bool" where
  "separate hp ob ob' = (\<forall>a. Ref a \<in> set (shapes hp ob) \<longrightarrow> Ref a \<notin> set (shapes hp ob'))"

definition stillShaped :: "heap \<Rightarrow> addr \<Rightarrow> ModelSnapshot \<Rightarrow> bool" where
  "stillShaped hp ob s =
     (\<exists>cur. readFromNode hp ob = Some cur \<and> snap_mode cur = snap_mode s \<and>
            (snap_w cur = None) = (snap_w s = None) \<and>
            (snap_h cur = None) = (snap_h s = None))"

definition sameTypes :: "heap \<Rightarrow> heap \<Rightarrow> bool" where
  "sameTypes hp hp' =
     ((\<forall>a j. isNumber (hp' a j) = isNumber (hp a j)) \<and>
      (\<forall>a j. j \<notin> set geometryKeys \<longrightarrow> hp' a j = hp a j))"

definition geometryHolds :: "heap \<Rightarrow> addr \<Rightarrow> ModelSnapshot \<Rightarrow> bool" where
  "geometryHolds hp ob s = (\<exists>cur. readFromNode hp ob = Some cur \<and> isSameSnapshot cur s)"

text \<open>
  \<open>n1\<close> locked alone, with the snapshot taken from \<open>exHeap\<close>; the host then moves
  and resizes it inside its \<open>pos\<close> shape, or gives the node object coordinates of its
  own, or detaches its element.
\<close>

definition exSaved :: ModelSnapshot where
  "exSaved = \<lparr> snap_mode = Pos, snap_x = Finite 10, snap_y = Finite 20,
               snap_w = Some (Finite 30), snap_h = None \<rparr>"

definition exManager1 :: manager where
  "exManager1 =
     exManager\<lparr> lockedByCanvas := [''c.canvas'' \<mapsto> [''n1'']],
                lockedModelByCanvas := [''c.canvas'' \<mapsto> [''n1'' \<mapsto> exSaved]] \<rparr>"

definition exWorldMoved :: world where
  "exWorldMoved =
     exWorld\<lparr> w_heap := setProp (setProp exHeap 2 ''x'' (Num (Finite 55))) 2 ''width'' (Num (Finite 99)) \<rparr>"

definition exWorldReshaped :: world where
  "exWorldReshaped =
     exWorld\<lparr> w_heap := setProp (setProp exHeap 1 ''x'' (Num (Finite 100))) 1 ''y'' (Num (Finite 200)) \<rparr>"

definition exWorldDetached :: world where
  "exWorldDetached = exWorldMoved\<lparr> w_heap := setProp (w_heap exWorldMoved) 1 ''nodeEl'' Undefined \<rparr>"

subsection \<open>Notions for the throttle\<close>

text \<open>
  The time of the last recorded restore of a node (0 when none is recorded, as
  \<open>?? 0\<close> reads it), a state with other recorded restore times, and the test both
  detectors make before a model restore: the geometry is unreadable or fails the
  divergence check.
\<close>

definition lastRestoreOf :: "manager \<Rightarrow> string \<Rightarrow> string \<Rightarrow> int" where
  "lastRestoreOf m p nodeId =
     (case lookup2 (lastRestoreAtByCanvas m) p nodeId of None \<Rightarrow> 0 | Some t \<Rightarrow> t)"

definition withTimes ::
  "(string \<rightharpoonup> (string \<rightharpoonup> int)) \<Rightarrow> manager \<times> world \<Rightarrow> manager \<times> world" where
  "withTimes L mw = ((fst mw)\<lparr> lastRestoreAtByCanvas := L \<rparr>, snd mw)"

definition diverged :: "world \<Rightarrow> view \<Rightarrow> string \<Rightarrow> ModelSnapshot \<Rightarrow> bool" where
  "diverged w v nodeId saved =
     (case readModelSnapshot (w_heap w) v nodeId of
        None \<Rightarrow> True
      | Some cur \<Rightarrow> \<not> isSameSnapshot cur saved)"

text \<open>
  A style mutation on the element of \<open>n1\<close>, and a manager that recorded a restore of
  \<open>n1\<close> at clock reading 1000 and whose enforcement loop is running.
\<close>

definition exMutation :: MutationRecord where
  "exMutation = \<lparr> mut_type = ''attributes'', mut_target = Ref 10 \<rparr>"

definition exManagerR :: manager where
  "exManagerR =
     exManager1\<lparr> lastRestoreAtByCanvas := [''c.canvas'' \<mapsto> [''n1'' \<mapsto> 1000]], enforcing := True \<rparr>"

subsection \<open>The host's events around the two detectors\<close>

text \<open>
  What the host does around the detectors: it changes the world (geometry, styles), it
  calls the observer with a batch of mutations (the queued microtasks run right after),
  it runs \<open>tick\<close> in a frame (an exception of the callback is reported and the state
  stays as the callback left it), or it delivers a key event. A \<open>keydown\<close> reaches the
  listener of \<open>installAltKeyTracking\<close> first and then, once a canvas is guarded, the
  listener of \<open>attachInputGuardToCanvas\<close>. \<open>hostOnly\<close> is the world the host's
  changes alone produce. \<open>shouldBypass\<close> is the bypass test both detectors make, and
  \<open>releasesAlt\<close> singles out the event that ends it.
\<close>

datatype hostEvent =
    HostMutation "world \<Rightarrow> world"
  | ObserverBatch "(MutationRecord \<times> int) list"
  | FrameTick int nat
  | KeyDown string int nat
  | KeyUp string

definition keyDownEvent :: "string \<Rightarrow> int \<Rightarrow> nat \<Rightarrow> manager \<Rightarrow> manager" where
  "keyDownEvent key now raf m =
     (let m1 = onKeyDown key m
      in if observedView m1 = None then m1 else guardKeyDown key now raf m1)"

definition hostStep :: "string \<Rightarrow> hostEvent \<Rightarrow> manager \<times> world \<Rightarrow> manager \<times> world" where
  "hostStep p ev mw =
     (case ev of
        HostMutation f \<Rightarrow> (fst mw, f (snd mw))
      | ObserverBatch mutations \<Rightarrow>
          (runMicrotasks (fst (observerCallback p mutations mw)), snd (observerCallback p mutations mw))
      | FrameTick now raf \<Rightarrow> stateOf (tick now raf mw)
      | KeyDown key now raf \<Rightarrow> (keyDownEvent key now raf (fst mw), snd mw)
      | KeyUp key \<Rightarrow> (onKeyUp key (fst mw), snd mw))"

definition hostRun :: "string \<Rightarrow> hostEvent list \<Rightarrow> manager \<times> world \<Rightarrow> manager \<times> world" where
  "hostRun p evs mw = fold (hostStep p) evs mw"

fun hostOnly :: "hostEvent list \<Rightarrow> world \<Rightarrow> world" where
  "hostOnly [] w = w"
| "hostOnly (HostMutation f # evs) w = hostOnly evs (f w)"
| "hostOnly (ObserverBatch mutations # evs) w = hostOnly evs w"
| "hostOnly (FrameTick now raf # evs) w = hostOnly evs w"
| "hostOnly (KeyDown key now raf # evs) w = hostOnly evs w"
| "hostOnly (KeyUp key # evs) w = hostOnly evs w"

fun releasesAlt :: "hostEvent \<Rightarrow> bool" where
  "releasesAlt (KeyUp key) = (key = ''Alt'')"
| "releasesAlt ev = False"

definition shouldBypass :: "manager \<Rightarrow> bool" where
  "shouldBypass m = (disableLockWhileAltDown (settings m) \<and> altDown m)"

text \<open>Two locked ids that the registry maps to the same node object, with snapshots that differ.\<close>

definition exViewShared :: view where
  "exViewShared =
     exView\<lparr> view_canvas :=
         Some \<lparr> canvas_nodes = Some [''n1'' \<mapsto> Ref 1, ''n2'' \<mapsto> Ref 1],
                canvas_methods = (\<lambda>k. None) \<rparr> \<rparr>"

definition exManagerShared :: manager where
  "exManagerShared =
     exManager\<lparr> lockedByCanvas := [''c.canvas'' \<mapsto> [''n1'', ''n2'']],
                lockedModelByCanvas :=
                  [''c.canvas'' \<mapsto> [''n1'' \<mapsto> exSaved, ''n2'' \<mapsto> exSaved\<lparr> snap_x := Finite 500 \<rparr>]],
                observedView := Some exViewShared \<rparr>"

text \<open>
  The same canvas with the empty id locked ahead of \<open>n1\<close>; a snapshot whose \<open>x\<close>
  is \<open>NaN\<close>; a manager whose pointer is down, so that the enforcement loop keeps
  running; one whose loop is not running; and the host's move of \<open>n1\<close>.
\<close>

definition exManagerEmptyId :: manager where
  "exManagerEmptyId = exManager1\<lparr> lockedByCanvas := [''c.canvas'' \<mapsto> [[], ''n1'']] \<rparr>"

definition exSavedNaN :: ModelSnapshot where
  "exSavedNaN = exSaved\<lparr> snap_x := NaN \<rparr>"

definition exManagerNaN :: manager where
  "exManagerNaN = exManager1\<lparr> lockedModelByCanvas := [''c.canvas'' \<mapsto> [''n1'' \<mapsto> exSavedNaN]] \<rparr>"

definition exManagerP :: manager where
  "exManagerP = exManagerR\<lparr> pointerIsDown := True \<rparr>"

definition exManagerIdle :: manager where
  "exManagerIdle = exManagerR\<lparr> enforcing := False \<rparr>"

definition exMove :: "world \<Rightarrow> world" where
  "exMove w = w\<lparr> w_heap := setProp (setProp (w_heap w) 2 ''x'' (Num (Finite 55))) 2 ''width'' (Num (Finite 99)) \<rparr>"

section \<open>Properties\<close>

subsection \<open>The tolerance test in double precision\<close>

lemma binExponent_finite:
  "finite (insert (- 1022) {k \<in> {- 1022 .. 1023 :: int}. 2 powi k \<le> (a :: rat)})"
proof -
  have "{k \<in> {- 1022 .. 1023 :: int}. 2 powi k \<le> a} \<subseteq> {- 1022 .. 1023}" by auto
  then have "finite {k \<in> {- 1022 .. 1023 :: int}. 2 powi k \<le> a}"
    by (rule finite_subset) simp
  then show ?thesis by simp
qed

lemma pow2_less_exp:
  assumes "(2 :: rat) powi j < 2 powi k"
  shows "j < k"
proof (rule ccontr)
  assume "\<not> j < k"
  then have "k \<le> j" by simp
  then have "(2 :: rat) powi k \<le> 2 powi j" by (intro power_int_increasing) simp_all
  then show False using assms by simp
qed

lemma binExponent_eq:
  assumes "- 1022 \<le> k" "k \<le> 1023" "2 powi k \<le> a" "a < 2 powi (k + 1)"
  shows "binExponent a = k"
  unfolding binExponent_def
proof (rule Max_eqI)
  show "finite (insert (- 1022) {j \<in> {- 1022 .. 1023}. 2 powi j \<le> a})"
    by (rule binExponent_finite)
  show "k \<in> insert (- 1022) {j \<in> {- 1022 .. 1023}. 2 powi j \<le> a}" using assms by simp
  fix j assume "j \<in> insert (- 1022) {j \<in> {- 1022 .. 1023}. 2 powi j \<le> a}"
  then consider "j = - 1022" | "(2 :: rat) powi j \<le> a" by auto
  then show "j \<le> k"
  proof cases
    case 1
    then show ?thesis using assms by simp
  next
    case 2
    then have "(2 :: rat) powi j < 2 powi (k + 1)" using assms(4) by simp
    then have "j < k + 1" by (rule pow2_less_exp)
    then show ?thesis by simp
  qed
qed

lemma binExponent_min:
  assumes "a < 2 powi (- 1022)"
  shows "binExponent a = - 1022"
proof -
  have "{k \<in> {- 1022 .. 1023}. (2 :: rat) powi k \<le> a} = {}"
  proof -
    have "\<not> (2 :: rat) powi k \<le> a" if "- 1022 \<le> k" for k
    proof -
      have "(2 :: rat) powi (- 1022) \<le> 2 powi k"
        using that by (intro power_int_increasing) simp_all
      then show ?thesis using assms by simp
    qed
    then show ?thesis by auto
  qed
  then have "binExponent a = Max (insert (- 1022) {})"
    unfolding binExponent_def by (simp only:)
  then show ?thesis by simp
qed

lemma binExponent_range: "- 1022 \<le> binExponent a \<and> binExponent a \<le> 1023"
proof -
  let ?S = "insert (- 1022) {k \<in> {- 1022 .. 1023}. 2 powi k \<le> a}"
  have "Max ?S \<in> ?S" by (rule Max_in [OF binExponent_finite]) simp
  then show ?thesis unfolding binExponent_def by auto
qed

lemma binExponent_lower:
  assumes "2 powi (- 1022) \<le> a"
  shows "2 powi (binExponent a) \<le> a"
proof -
  let ?S = "insert (- 1022) {k \<in> {- 1022 .. 1023}. 2 powi k \<le> a}"
  have "Max ?S \<in> ?S" by (rule Max_in [OF binExponent_finite]) simp
  then show ?thesis unfolding binExponent_def using assms by auto
qed

lemma binExponent_ge:
  assumes "- 1022 \<le> k" "k \<le> 1023" "2 powi k \<le> a"
  shows "k \<le> binExponent a"
  unfolding binExponent_def using assms by (intro Max_ge binExponent_finite) simp

lemma binExponent_upper:
  assumes "binExponent a < 1023"
  shows "a < 2 powi (binExponent a + 1)"
proof (rule ccontr)
  assume "\<not> a < 2 powi (binExponent a + 1)"
  then have "2 powi (binExponent a + 1) \<le> a" by simp
  then have "binExponent a + 1 \<le> binExponent a"
    using binExponent_range [of a] assms by (intro binExponent_ge) simp_all
  then show False by simp
qed

lemma roundHalfEven_ge: "of_int N \<le> n \<Longrightarrow> N \<le> roundHalfEven n"
proof -
  assume "of_int N \<le> n"
  then have "N \<le> \<lfloor>n\<rfloor>" by (simp add: le_floor_iff)
  then show ?thesis by (simp add: roundHalfEven_def Let_def)
qed

lemma roundHalfEven_le: "n \<le> of_int N \<Longrightarrow> roundHalfEven n \<le> N"
proof -
  assume n: "n \<le> of_int N"
  then have f: "\<lfloor>n\<rfloor> \<le> N" by (simp add: floor_le_iff)
  show ?thesis
  proof (cases "\<lfloor>n\<rfloor> = N")
    case True
    then have "n - of_int \<lfloor>n\<rfloor> \<le> 0" using n by simp
    then show ?thesis using True by (simp add: roundHalfEven_def Let_def)
  next
    case False
    then have "\<lfloor>n\<rfloor> + 1 \<le> N" using f by simp
    then show ?thesis by (auto simp add: roundHalfEven_def Let_def)
  qed
qed

lemma roundHalfEven_le_odd:
  assumes "odd M"
  shows "(roundHalfEven n \<le> M) = (n < of_int M + 1 / 2)"
proof
  assume le: "roundHalfEven n \<le> M"
  show "n < of_int M + 1 / 2"
  proof (rule ccontr)
    assume "\<not> n < of_int M + 1 / 2"
    then have ge: "of_int M + 1 / 2 \<le> n" by simp
    then have "of_int M \<le> n" by simp
    then have f: "M \<le> \<lfloor>n\<rfloor>" by (simp add: le_floor_iff)
    show False
    proof (cases "\<lfloor>n\<rfloor> = M")
      case True
      then have "1 / 2 \<le> n - of_int \<lfloor>n\<rfloor>" using ge by simp
      then have "roundHalfEven n = M + 1"
        using True assms by (auto simp add: roundHalfEven_def Let_def)
      then show False using le by simp
    next
      case False
      then have "M + 1 \<le> \<lfloor>n\<rfloor>" using f by simp
      moreover have "\<lfloor>n\<rfloor> \<le> roundHalfEven n" by (simp add: roundHalfEven_def Let_def)
      ultimately show False using le by simp
    qed
  qed
next
  assume lt: "n < of_int M + 1 / 2"
  have "\<lfloor>n\<rfloor> \<le> M"
  proof -
    have "of_int \<lfloor>n\<rfloor> \<le> n" by simp
    then have "(of_int \<lfloor>n\<rfloor> :: rat) < of_int M + 1" using lt by linarith
    then have "(of_int \<lfloor>n\<rfloor> :: rat) < of_int (M + 1)" by simp
    then have "\<lfloor>n\<rfloor> < M + 1" by (simp only: of_int_less_iff)
    then show ?thesis by simp
  qed
  then show "roundHalfEven n \<le> M"
  proof (cases "\<lfloor>n\<rfloor> = M")
    case True
    then have "n - of_int \<lfloor>n\<rfloor> < 1 / 2" using lt by simp
    then show ?thesis using True by (simp add: roundHalfEven_def Let_def)
  next
    case False
    then have "\<lfloor>n\<rfloor> + 1 \<le> M" using \<open>\<lfloor>n\<rfloor> \<le> M\<close> by simp
    then show ?thesis by (auto simp add: roundHalfEven_def Let_def)
  qed
qed


lemma roundD_roundMag:
  "roundD r =
     (if r = 0 then Finite 0
      else if 2 powi 1024 \<le> roundMag \<bar>r\<bar> then (if r < 0 then NegInf else PosInf)
      else Finite (if r < 0 then - roundMag \<bar>r\<bar> else roundMag \<bar>r\<bar>))"
  by (simp add: roundD_def roundMag_def Let_def)

lemma roundMag_nonneg:
  assumes "0 \<le> a"
  shows "0 \<le> roundMag a"
proof -
  have "0 \<le> a / 2 powi (binExponent a - 52)" using assms by simp
  then have "(of_int 0 :: rat) \<le> a / 2 powi (binExponent a - 52)" by simp
  then have "0 \<le> roundHalfEven (a / 2 powi (binExponent a - 52))"
    by (rule roundHalfEven_ge)
  then show ?thesis by (simp add: roundMag_def)
qed

lemma roundMag_mid:
  assumes lo: "2 powi (- 14) \<le> a" and hi: "a < 2 powi (- 13)"
  shows "(roundMag a \<le> epsValue) = (a < closeBound)"
proof -
  have e: "binExponent a = - 14"
    using lo hi by (intro binExponent_eq) simp_all
  have odd: "odd (7378697629483821 :: int)" by simp
  have "(roundMag a \<le> epsValue) = (roundHalfEven (a * 2 ^ 66) \<le> 7378697629483821)"
    unfolding roundMag_def e epsValue_def
    by (simp add: power_int_minus field_simps)
  also have "\<dots> = (a * 2 ^ 66 < of_int 7378697629483821 + 1 / 2)"
    by (rule roundHalfEven_le_odd [OF odd])
  also have "\<dots> = (a < closeBound)"
    unfolding closeBound_def by (simp add: field_simps)
  finally show ?thesis .
qed

lemma roundMag_small:
  assumes pos: "0 < a" and hi: "a < 2 powi (- 14)"
  shows "roundMag a \<le> epsValue" and "a < closeBound"
proof -
  let ?e = "binExponent a"
  have e: "?e < - 14"
  proof (cases "a < 2 powi (- 1022)")
    case True
    then show ?thesis by (simp add: binExponent_min)
  next
    case False
    then have "2 powi ?e \<le> a" by (intro binExponent_lower) simp
    then have "(2 :: rat) powi ?e < 2 powi (- 14)" using hi by simp
    then show ?thesis by (rule pow2_less_exp)
  qed
  then have up: "a < 2 powi (?e + 1)" by (intro binExponent_upper) simp
  have split: "(2 :: rat) powi (?e + 1) = 2 ^ 53 * 2 powi (?e - 52)"
  proof -
    have "?e + 1 = 53 + (?e - 52)" by simp
    then have "(2 :: rat) powi (?e + 1) = 2 powi (53 + (?e - 52))" by (simp only:)
    also have "\<dots> = 2 powi 53 * 2 powi (?e - 52)" by (rule power_int_add) simp
    finally show ?thesis by simp
  qed
  have "a / 2 powi (?e - 52) \<le> 2 ^ 53"
    using up unfolding split by (simp add: field_simps)
  then have "a / 2 powi (?e - 52) \<le> of_int (2 ^ 53)" by simp
  then have "roundHalfEven (a / 2 powi (?e - 52)) \<le> 2 ^ 53" by (rule roundHalfEven_le)
  then have "(of_int (roundHalfEven (a / 2 powi (?e - 52))) :: rat) \<le> of_int (2 ^ 53)"
    by (simp only: of_int_le_iff)
  then have "roundMag a \<le> 2 ^ 53 * 2 powi (?e - 52)"
    unfolding roundMag_def by (intro mult_right_mono) simp_all
  also have "\<dots> = 2 powi (?e + 1)" by (rule split [symmetric])
  also have "\<dots> \<le> 2 powi (- 14)" using e by (intro power_int_increasing) simp_all
  also have "\<dots> \<le> epsValue" by (simp add: epsValue_def)
  finally show "roundMag a \<le> epsValue" .
  have "(2 :: rat) powi (- 14) < closeBound" by (simp add: closeBound_def)
  then show "a < closeBound" using hi by simp
qed

lemma roundMag_large:
  assumes lo: "2 powi (- 13) \<le> a"
  shows "epsValue < roundMag a" and "closeBound \<le> a"
proof -
  let ?e = "binExponent a"
  have e: "- 13 \<le> ?e" using lo by (intro binExponent_ge) simp_all
  have "(2 :: rat) powi (- 1022) \<le> 2 powi (- 13)" by (intro power_int_increasing) simp_all
  then have low: "2 powi ?e \<le> a" using lo by (intro binExponent_lower) simp
  have split: "(2 :: rat) powi ?e = 2 ^ 52 * 2 powi (?e - 52)"
  proof -
    have "?e = 52 + (?e - 52)" by simp
    then have "(2 :: rat) powi ?e = 2 powi (52 + (?e - 52))" by (simp only:)
    also have "\<dots> = 2 powi 52 * 2 powi (?e - 52)" by (rule power_int_add) simp
    finally show ?thesis by simp
  qed
  have "2 ^ 52 \<le> a / 2 powi (?e - 52)"
    using low unfolding split by (simp add: field_simps)
  then have "of_int (2 ^ 52) \<le> a / 2 powi (?e - 52)" by simp
  then have "2 ^ 52 \<le> roundHalfEven (a / 2 powi (?e - 52))" by (rule roundHalfEven_ge)
  then have "(of_int (2 ^ 52) :: rat) \<le> of_int (roundHalfEven (a / 2 powi (?e - 52)))"
    by (simp only: of_int_le_iff)
  then have "2 ^ 52 * 2 powi (?e - 52) \<le> roundMag a"
    unfolding roundMag_def by (intro mult_right_mono) simp_all
  then have "2 powi ?e \<le> roundMag a" by (simp only: split [symmetric])
  moreover have "(2 :: rat) powi (- 13) \<le> 2 powi ?e"
    using e by (intro power_int_increasing) simp_all
  moreover have "epsValue < 2 powi (- 13)" by (simp add: epsValue_def)
  ultimately show "epsValue < roundMag a" by simp
  have "closeBound < 2 powi (- 13)" by (simp add: closeBound_def)
  then show "closeBound \<le> a" using lo by simp
qed

lemma roundMag_le_eps:
  assumes "0 < a"
  shows "(roundMag a \<le> epsValue) = (a < closeBound)"
proof -
  consider "a < 2 powi (- 14)" | "2 powi (- 14) \<le> a" "a < 2 powi (- 13)" | "2 powi (- 13) \<le> a"
    by linarith
  then show ?thesis
  proof cases
    case 1
    then show ?thesis using roundMag_small [OF assms] by simp
  next
    case 2
    then show ?thesis by (rule roundMag_mid)
  next
    case 3
    then show ?thesis using roundMag_large [OF 3] by simp
  qed
qed

lemma eps_value: "eps = Finite epsValue"
proof -
  have lo: "(2 :: rat) powi (- 14) \<le> 1 / 10000" by simp
  have hi: "(1 / 10000 :: rat) < 2 powi (- 13)" by simp
  have e: "binExponent (1 / 10000) = - 14"
    using lo hi by (intro binExponent_eq) simp_all
  have fl: "\<lfloor>(1 / 10000 * 2 ^ 66 :: rat)\<rfloor> = 7378697629483820"
    by (rule floor_unique) simp_all
  have r: "roundHalfEven (1 / 10000 * 2 ^ 66) = 7378697629483821"
    unfolding roundHalfEven_def Let_def fl by simp
  have m: "roundMag (1 / 10000) = epsValue"
    unfolding roundMag_def e epsValue_def using r
    by (simp add: power_int_minus field_simps)
  have "\<not> 2 powi 1024 \<le> epsValue" by (simp add: epsValue_def)
  then show ?thesis
    unfolding eps_def roundD_roundMag using m by simp
qed

lemma fabs_roundD:
  assumes "r \<noteq> 0"
  shows "fabs (roundD r) =
           (if 2 powi 1024 \<le> roundMag \<bar>r\<bar> then PosInf else Finite (roundMag \<bar>r\<bar>))"
proof -
  have nn: "0 \<le> roundMag \<bar>r\<bar>" by (rule roundMag_nonneg) simp
  have g: "0 \<le> m \<Longrightarrow>
           fabs (if r = 0 then Finite 0
                 else if P then (if r < 0 then NegInf else PosInf)
                 else Finite (if r < 0 then - m else m)) =
           (if P then PosInf else Finite m)" for m :: rat and P
    using assms by simp
  show ?thesis unfolding roundD_roundMag by (rule g [OF nn])
qed

lemma close_Finite:
  "close (Finite a) (Finite b) = (\<bar>a - b\<bar> < closeBound)"
proof (cases "a = b")
  case True
  then show ?thesis
    by (simp add: close_def eps_value roundD_roundMag epsValue_def closeBound_def)
next
  case False
  let ?d = "\<bar>a - b\<bar>"
  have pos: "0 < ?d" using False by simp
  have ne: "a - b \<noteq> 0" using False by simp
  have small: "epsValue < 2 powi 1024" by (simp add: epsValue_def)
  have c: "close (Finite a) (Finite b) =
             fle (if 2 powi 1024 \<le> roundMag ?d then PosInf else Finite (roundMag ?d))
               (Finite epsValue)"
    unfolding close_def eps_value fsub.simps fabs_roundD [OF ne] ..
  have "close (Finite a) (Finite b) = (roundMag ?d \<le> epsValue)"
  proof (cases "2 powi 1024 \<le> roundMag ?d")
    case True
    then have "\<not> roundMag ?d \<le> epsValue" using small by simp
    then show ?thesis unfolding c using True by simp
  next
    case ov: False
    then show ?thesis unfolding c by simp
  qed
  then show ?thesis by (simp only: roundMag_le_eps [OF pos])
qed

lemma close_iff:
  "close x y = (\<exists>a b. x = Finite a \<and> y = Finite b \<and> \<bar>a - b\<bar> < closeBound)"
proof (cases x)
  case (Finite a)
  then show ?thesis
  proof (cases y)
    case (Finite b)
    then show ?thesis using \<open>x = Finite a\<close> by (simp add: close_Finite)
  qed (simp_all add: close_def eps_value)
next
  case NaN
  then show ?thesis by (simp add: close_def)
next
  case PosInf
  then show ?thesis by (cases y) (simp_all add: close_def eps_value)
next
  case NegInf
  then show ?thesis by (cases y) (simp_all add: close_def eps_value)
qed

lemma close_withinCheck: "close u v = withinCheck u v"
  unfolding close_iff withinCheck_def by (cases u; cases v) simp_all

lemma withinTolerance_withinCheck: "withinTolerance u v \<Longrightarrow> withinCheck u v"
  by (cases u; cases v) (simp_all add: withinTolerance_def withinCheck_def closeBound_def)

lemma roundHalfEven_of_int: "roundHalfEven (of_int n) = n"
  by (simp add: roundHalfEven_def)

lemma isDouble_epsValue: "isDouble epsValue"
proof -
  have lo: "(2 :: rat) powi (- 14) \<le> epsValue" by (simp add: epsValue_def)
  have hi: "epsValue < 2 powi (- 13)" by (simp add: epsValue_def)
  have e: "binExponent epsValue = - 14"
    using lo hi by (intro binExponent_eq) simp_all
  have "epsValue / 2 powi (- 66) = of_int 7378697629483821"
    by (simp add: epsValue_def power_int_minus field_simps)
  then have r: "roundHalfEven (epsValue / 2 powi (- 66)) = 7378697629483821"
    by (simp only: roundHalfEven_of_int)
  have m: "roundMag epsValue = epsValue"
    unfolding roundMag_def e using r by (simp add: epsValue_def power_int_minus field_simps)
  have pos: "0 < epsValue" by (simp add: epsValue_def)
  have "\<not> 2 powi 1024 \<le> epsValue" by (simp add: epsValue_def)
  then show ?thesis
    unfolding isDouble_def roundD_roundMag using m pos by simp
qed

subsection \<open>The divergence check\<close>

lemma dimDiffers_spec: "dimDiffers u v = (\<not> dimEqualSpec u v)"
  by (cases u; cases v) (simp_all add: dimDiffers_def dimEqualSpec_def close_withinCheck)

lemma isSameSnapshot_enforce_eq: "isSameSnapshot_enforce a b = isSameSnapshot a b"
  by (simp add: isSameSnapshot_enforce_def isSameSnapshot_def dimDiffers_def close_def eps_def
      Let_def)

lemma isSameSnapshot_spec:
  "isSameSnapshot a b =
     (withinCheck (snap_x a) (snap_x b) \<and> withinCheck (snap_y a) (snap_y b) \<and>
      dimEqualSpec (snap_w a) (snap_w b) \<and> dimEqualSpec (snap_h a) (snap_h b))"
  by (auto simp add: isSameSnapshot_def dimDiffers_spec close_withinCheck)

text \<open>
  C4, as amended. Both copies of \<open>isSameSnapshot\<close> (the observer's and the
  enforcement loop's) return true exactly when \<open>x\<close> and \<open>y\<close> each pass the
  tolerance test and, for width and for height separately, both are undefined or both
  are defined and pass it. The test \<open>Math.abs(u - v) <= 0.0001\<close> is evaluated in
  double precision: it passes exactly when \<open>u\<close> and \<open>v\<close> are finite and their
  exact difference is below \<open>closeBound\<close>. So every pair within \<open>1e-4\<close> passes,
  pairs whose difference exceeds \<open>1e-4\<close> by less than about \<open>1.157e-20\<close> pass as
  well, and a \<open>NaN\<close> or an infinity never passes.
\<close>

theorem isSameSnapshot_iff:
  "isSameSnapshot a b =
     (withinCheck (snap_x a) (snap_x b) \<and> withinCheck (snap_y a) (snap_y b) \<and>
      dimEqualSpec (snap_w a) (snap_w b) \<and> dimEqualSpec (snap_h a) (snap_h b))
   \<and> isSameSnapshot_enforce a b =
     (withinCheck (snap_x a) (snap_x b) \<and> withinCheck (snap_y a) (snap_y b) \<and>
      dimEqualSpec (snap_w a) (snap_w b) \<and> dimEqualSpec (snap_h a) (snap_h b))
   \<and> (\<forall>u v. close u v = withinCheck u v)
   \<and> (\<forall>u v. withinTolerance u v \<longrightarrow> withinCheck u v)
   \<and> (\<forall>u. \<not> withinCheck NaN u \<and> \<not> withinCheck u NaN \<and>
           \<not> withinCheck PosInf u \<and> \<not> withinCheck u PosInf \<and>
           \<not> withinCheck NegInf u \<and> \<not> withinCheck u NegInf)"
proof -
  have inf: "\<not> withinCheck NaN u \<and> \<not> withinCheck u NaN \<and>
           \<not> withinCheck PosInf u \<and> \<not> withinCheck u PosInf \<and>
           \<not> withinCheck NegInf u \<and> \<not> withinCheck u NegInf" for u
    by (cases u) (simp_all add: withinCheck_def)
  show ?thesis
    unfolding isSameSnapshot_enforce_eq
    using isSameSnapshot_spec [of a b] close_withinCheck withinTolerance_withinCheck inf
    by blast
qed

theorem isSameSnapshot_iff_witness:
  "withinTolerance (Finite 1) (Finite (1 + 1 / 2 ^ 14)) \<and>
   isSameSnapshot
     \<lparr> snap_mode = Top, snap_x = Finite 1, snap_y = Finite 2, snap_w = Some (Finite 3), snap_h = None \<rparr>
     \<lparr> snap_mode = Pos, snap_x = Finite (1 + 1 / 2 ^ 14), snap_y = Finite 2,
       snap_w = Some (Finite 3), snap_h = None \<rparr>
   \<and> \<not> isSameSnapshot_enforce
     \<lparr> snap_mode = Top, snap_x = Finite 1, snap_y = Finite 2, snap_w = Some (Finite 3), snap_h = None \<rparr>
     \<lparr> snap_mode = Top, snap_x = Finite 1, snap_y = Finite 2, snap_w = Some (Finite 3),
       snap_h = Some (Finite 4) \<rparr>"
proof -
  let ?a = "\<lparr> snap_mode = Top, snap_x = Finite 1, snap_y = Finite 2, snap_w = Some (Finite 3),
              snap_h = None \<rparr>"
  let ?b = "\<lparr> snap_mode = Pos, snap_x = Finite (1 + 1 / 2 ^ 14), snap_y = Finite 2,
              snap_w = Some (Finite 3), snap_h = None \<rparr>"
  let ?c = "\<lparr> snap_mode = Top, snap_x = Finite 1, snap_y = Finite 2, snap_w = Some (Finite 3),
              snap_h = Some (Finite 4) \<rparr>"
  have tol: "withinTolerance (Finite 1) (Finite (1 + 1 / 2 ^ 14))"
    by (simp add: withinTolerance_def)
  have x: "withinCheck (Finite 1) (Finite (1 + 1 / 2 ^ 14))"
    using isSameSnapshot_iff [of ?a ?b, THEN conjunct2, THEN conjunct2, THEN conjunct2,
        THEN conjunct1, THEN spec, THEN spec, THEN mp, OF tol] .
  have same: "withinCheck (Finite 2) (Finite 2)" "withinCheck (Finite 3) (Finite 3)"
    by (simp_all add: withinCheck_def closeBound_def)
  have ab: "isSameSnapshot ?a ?b"
    using isSameSnapshot_iff [of ?a ?b, THEN conjunct1] x same by (simp add: dimEqualSpec_def)
  have ac: "\<not> isSameSnapshot_enforce ?a ?c"
    using isSameSnapshot_iff [of ?a ?c, THEN conjunct2, THEN conjunct1]
    by (simp add: dimEqualSpec_def)
  show ?thesis using tol ab ac by simp
qed

text \<open>
  The tolerance of C4 is not \<open>1e-4\<close> over the exact values: the double nearest to
  \<open>1e-4\<close> lies above \<open>1 / 10000\<close>, so a node at that \<open>x\<close> and one at 0 are
  more than \<open>1e-4\<close> apart and still count as the same.
\<close>

theorem isSameSnapshot_tolerance_counterexample:
  "isDouble epsValue \<and> isDouble 0 \<and>
   isSameSnapshot
     \<lparr> snap_mode = Top, snap_x = Finite epsValue, snap_y = Finite 0, snap_w = None, snap_h = None \<rparr>
     \<lparr> snap_mode = Top, snap_x = Finite 0, snap_y = Finite 0, snap_w = None, snap_h = None \<rparr> \<and>
   isSameSnapshot_enforce
     \<lparr> snap_mode = Top, snap_x = Finite epsValue, snap_y = Finite 0, snap_w = None, snap_h = None \<rparr>
     \<lparr> snap_mode = Top, snap_x = Finite 0, snap_y = Finite 0, snap_w = None, snap_h = None \<rparr> \<and>
   \<not> \<bar>epsValue - 0\<bar> \<le> 1 / 10000 \<and>
   \<not> withinTolerance (Finite epsValue) (Finite 0)"
proof -
  have z: "isDouble 0" by (simp add: isDouble_def roundD_def)
  have far: "\<not> \<bar>epsValue - 0\<bar> \<le> 1 / 10000" by (simp add: epsValue_def)
  then have tol: "\<not> withinTolerance (Finite epsValue) (Finite 0)"
    by (simp add: withinTolerance_def)
  have x: "withinCheck (Finite epsValue) (Finite 0)" "withinCheck (Finite 0) (Finite 0)"
    by (simp_all add: withinCheck_def epsValue_def closeBound_def)
  have s: "isSameSnapshot
     \<lparr> snap_mode = Top, snap_x = Finite epsValue, snap_y = Finite 0, snap_w = None, snap_h = None \<rparr>
     \<lparr> snap_mode = Top, snap_x = Finite 0, snap_y = Finite 0, snap_w = None, snap_h = None \<rparr>"
    using x by (simp add: isSameSnapshot_spec dimEqualSpec_def)
  then have s': "isSameSnapshot_enforce
     \<lparr> snap_mode = Top, snap_x = Finite epsValue, snap_y = Finite 0, snap_w = None, snap_h = None \<rparr>
     \<lparr> snap_mode = Top, snap_x = Finite 0, snap_y = Finite 0, snap_w = None, snap_h = None \<rparr>"
    by (simp only: isSameSnapshot_enforce_eq)
  show ?thesis using isDouble_epsValue z s s' far tol by simp
qed


subsection \<open>Reading the geometry\<close>

lemma pickDim_dimOf: "pickDim (hp b long) (hp b short) = dimOf hp b long short"
  by (simp add: pickDim_def dimOf_def numberOf_def split: jsval.splits)

lemma fromObj_shapeSnapshot: "fromObj hp base mode = shapeSnapshot hp base mode"
  by (simp add: fromObj_def shapeSnapshot_def pickDim_dimOf numberOf_def split: jsval.splits)

lemma shapeSnapshot_None: "(shapeSnapshot hp base mode = None) = (\<not> exposesXY hp base)"
  by (simp add: shapeSnapshot_def exposesXY_def numberOf_def split: jsval.splits)

lemma orElse_shapeSnapshot:
  "orElse (shapeSnapshot hp base mode) r =
     (if exposesXY hp base then shapeSnapshot hp base mode else r)"
  using shapeSnapshot_None [of hp base mode]
  by (cases "shapeSnapshot hp base mode") (auto simp: orElse_def)

lemma readFromNode_find:
  "readFromNode hp ob =
     (case find (\<lambda>c. exposesXY hp (snd c)) (candidates hp ob) of
        None \<Rightarrow> None
      | Some c \<Rightarrow> shapeSnapshot hp (snd c) (fst c))"
  by (simp add: readFromNode_def fromObj_shapeSnapshot orElse_shapeSnapshot candidates_def
      shapeSnapshot_None)

text \<open>
  C6. \<open>readModelSnapshot\<close> tries the backing object, then its \<open>pos\<close>, \<open>rect\<close>
  and \<open>data\<close> fields, in this order, and returns the snapshot of the first candidate
  that exposes numeric \<open>x\<close> and \<open>y\<close>, with the matched shape recorded and the
  width and height taken from \<open>width\<close>/\<open>height\<close> or else \<open>w\<close>/\<open>h\<close>; it
  returns null when no candidate qualifies (or the node has no backing object).
\<close>

theorem readModelSnapshot_priority:
  "readModelSnapshot hp v nodeId =
     (case nodeObject v nodeId of
        None \<Rightarrow> None
      | Some ob \<Rightarrow>
          (case find (\<lambda>c. exposesXY hp (snd c)) (candidates hp ob) of
             None \<Rightarrow> None
           | Some c \<Rightarrow> shapeSnapshot hp (snd c) (fst c)))"
  by (simp add: readModelSnapshot_def readFromNode_find split: option.splits)

theorem readModelSnapshot_priority_witness:
  "readModelSnapshot exHeap exView ''n1'' =
     Some \<lparr> snap_mode = Pos, snap_x = Finite 10, snap_y = Finite 20,
            snap_w = Some (Finite 30), snap_h = None \<rparr>"
  using readModelSnapshot_priority [of exHeap exView "''n1''"]
  by (simp add: exHeap_def exView_def nodeObject_def getCanvasFromView_def candidates_def
      exposesXY_def shapeSnapshot_def numberOf_def dimOf_def)

subsection \<open>The move element\<close>

lemma startsWith_iff: "startsWith s t = (\<exists>post. s = t @ post)"
  by (induction s t rule: startsWith.induct) auto

lemma str_includes_iff: "str_includes s t = containsWord s t"
proof (induction s)
  case Nil
  then show ?case by (auto simp: containsWord_def)
next
  case (Cons c s)
  have "containsWord (c # s) t = ((\<exists>post. c # s = t @ post) \<or> containsWord s t)"
    unfolding containsWord_def
    by (auto simp: Cons_eq_append_conv)
  with Cons show ?case by (simp add: startsWith_iff del: startsWith.simps)
qed

lemma hasInlinePositionProps_iff:
  "hasInlinePositionProps w el =
     (\<exists>style. w_styleAttr w el = Some style \<and> (\<exists>t \<in> set positionWords. containsWord style t))"
  by (cases "w_styleAttr w el")
    (auto simp: hasInlinePositionProps_def positionWords_def str_includes_iff containsWord_def)

lemma findMoveLoop_3:
  "findMoveLoop d w 3 (Some nodeEl) = find (hasInlinePositionProps w) (examined d nodeEl)"
  by (simp add: numeral_3_eq_3 examined_def split: option.splits)

text \<open>
  C5. \<open>findMoveElement\<close> looks at no more than three elements going upward from the
  node element (the node element itself, its parent, its grandparent) and returns the
  first whose inline style contains one of \<open>transform\<close>, \<open>left\<close>, \<open>top\<close>,
  \<open>width\<close>, \<open>height\<close>; when none of them qualifies it returns the node element.
\<close>

theorem findMoveElement_spec:
  "findMoveElement d w nodeEl =
     (case find (hasInlinePositionProps w) (examined d nodeEl) of
        Some e \<Rightarrow> e
      | None \<Rightarrow> nodeEl)
   \<and> length (examined d nodeEl) \<le> 3
   \<and> set (examined d nodeEl) \<subseteq>
       {nodeEl} \<union> {p. parentElement d nodeEl = Some p}
         \<union> {g. \<exists>p. parentElement d nodeEl = Some p \<and> parentElement d p = Some g}
   \<and> (\<forall>el. hasInlinePositionProps w el =
       (\<exists>style. w_styleAttr w el = Some style \<and> (\<exists>t \<in> set positionWords. containsWord style t)))"
  by (auto simp add: findMoveElement_def findMoveLoop_3 hasInlinePositionProps_iff examined_def
      simp del: findMoveLoop.simps split: option.splits)

theorem findMoveElement_spec_witness:
  "findMoveElement exDom exWorld 10 = 12 \<and> findMoveElement exDom exWorld 11 = 12 \<and>
   findMoveElement exDom (exWorld\<lparr> w_styleAttr := (\<lambda>a. None) \<rparr>) 10 = 10"
  using findMoveElement_spec [of exDom exWorld 10] findMoveElement_spec [of exDom exWorld 11]
    findMoveElement_spec [of exDom "exWorld\<lparr> w_styleAttr := (\<lambda>a. None) \<rparr>" 10]
  by (simp add: examined_def exDom_def exWorld_def hasInlinePositionProps_def)

subsection \<open>Restoring the geometry\<close>

lemma isNumber_setProp_Num:
  "isNumber (hp b k) \<Longrightarrow> isNumber (setProp hp b k (Num r) a j) = isNumber (hp a j)"
  by (simp add: setProp_def)

lemma isNumber_writeDim:
  "isNumber (writeDim hp b long short d a j) = isNumber (hp a j)"
  by (cases d) (simp_all add: writeDim_def isNumber_setProp_Num)

lemma writeDim_other: "a \<noteq> b \<Longrightarrow> writeDim hp b long short d a = hp a"
  by (cases d) (simp_all add: writeDim_def setProp_def)

lemma writeDim_nonnum: "\<not> isNumber (hp a j) \<Longrightarrow> writeDim hp b long short d a j = hp a j"
  by (cases d) (auto simp add: writeDim_def setProp_def)

lemma writeDim_key: "j \<noteq> long \<Longrightarrow> j \<noteq> short \<Longrightarrow> writeDim hp b long short d a j = hp a j"
  by (cases d) (auto simp add: writeDim_def setProp_def)

lemma applyTo_fst: "fst (applyTo snap hp base) = exposesXY hp base"
  by (cases base) (simp_all add: applyTo_def exposesXY_def Let_def setProp_def)

lemma applyTo_isNumber: "isNumber (snd (applyTo snap hp base) a j) = isNumber (hp a j)"
  by (cases base)
    (simp_all add: applyTo_def Let_def isNumber_writeDim isNumber_setProp_Num)

lemma applyTo_other: "base \<noteq> Ref a \<Longrightarrow> snd (applyTo snap hp base) a = hp a"
  by (cases base) (auto simp add: applyTo_def Let_def writeDim_other setProp_def)

lemma setProp_nonnum:
  "isNumber (hp b k) \<Longrightarrow> \<not> isNumber (hp a j) \<Longrightarrow> setProp hp b k v a j = hp a j"
  by (auto simp add: setProp_def)

lemma applyTo_nonnum:
  assumes "\<not> isNumber (hp a j)"
  shows "snd (applyTo snap hp base) a j = hp a j"
proof (cases base)
  case (Ref b)
  show ?thesis
  proof (cases "isNumber (hp b ''x'')")
    case x: True
    define hp1 where "hp1 = setProp hp b ''x'' (Num (snap_x snap))"
    have n1: "\<not> isNumber (hp1 a j)" and e1: "hp1 a j = hp a j"
      using assms x by (simp_all add: hp1_def isNumber_setProp_Num setProp_nonnum)
    show ?thesis
    proof (cases "isNumber (hp1 b ''y'')")
      case y: True
      define hp2 where "hp2 = setProp hp1 b ''y'' (Num (snap_y snap))"
      define hp3 where "hp3 = writeDim hp2 b ''width'' ''w'' (snap_w snap)"
      have n2: "\<not> isNumber (hp2 a j)" and e2: "hp2 a j = hp1 a j"
        using n1 y by (simp_all add: hp2_def isNumber_setProp_Num setProp_nonnum)
      have n3: "\<not> isNumber (hp3 a j)" and e3: "hp3 a j = hp2 a j"
        using n2 by (simp_all add: hp3_def isNumber_writeDim writeDim_nonnum)
      have "snd (applyTo snap hp base) = writeDim hp3 b ''height'' ''h'' (snap_h snap)"
        using Ref x y by (simp add: applyTo_def Let_def hp1_def hp2_def hp3_def)
      then show ?thesis using n3 e3 e2 e1 by (simp add: writeDim_nonnum)
    next
      case False
      then have "snd (applyTo snap hp base) = hp1"
        using Ref x by (simp add: applyTo_def Let_def hp1_def)
      then show ?thesis using e1 by simp
    qed
  next
    case False
    then show ?thesis using Ref by (simp add: applyTo_def)
  qed
qed (simp_all add: applyTo_def)

lemma applyTo_key: "j \<notin> set geometryKeys \<Longrightarrow> snd (applyTo snap hp base) a j = hp a j"
  by (cases base) (auto simp add: applyTo_def Let_def writeDim_key setProp_def geometryKeys_def)

lemma exposesXY_applyTo: "exposesXY (snd (applyTo snap hp base)) c = exposesXY hp c"
  by (cases c) (simp_all add: exposesXY_def applyTo_isNumber)

lemma dimOf_writeDim:
  "dimOf (writeDim hp b long short d) b long short = writtenDim d (dimOf hp b long short)"
  by (cases d; cases "hp b long"; cases "hp b short")
    (auto simp add: writeDim_def dimOf_def numberOf_def writtenDim_def setProp_def)

lemma dimOf_other_keys:
  "hp' b long = hp b long \<Longrightarrow> hp' b short = hp b short \<Longrightarrow>
   dimOf hp' b long short = dimOf hp b long short"
  by (simp add: dimOf_def)

lemma applyTo_readback:
  assumes "exposesXY hp (Ref b)"
  shows "shapeSnapshot (snd (applyTo snap hp (Ref b))) (Ref b) mode =
           Some \<lparr> snap_mode = mode, snap_x = snap_x snap, snap_y = snap_y snap,
                  snap_w = writtenDim (snap_w snap) (dimOf hp b ''width'' ''w''),
                  snap_h = writtenDim (snap_h snap) (dimOf hp b ''height'' ''h'') \<rparr>"
proof -
  define hp2 where "hp2 = setProp (setProp hp b ''x'' (Num (snap_x snap))) b ''y'' (Num (snap_y snap))"
  define hp3 where "hp3 = writeDim hp2 b ''width'' ''w'' (snap_w snap)"
  define hp4 where "hp4 = writeDim hp3 b ''height'' ''h'' (snap_h snap)"
  from assms have res: "snd (applyTo snap hp (Ref b)) = hp4"
    by (simp add: applyTo_def exposesXY_def Let_def hp2_def hp3_def hp4_def setProp_def)
  have x: "hp4 b ''x'' = Num (snap_x snap)" and y: "hp4 b ''y'' = Num (snap_y snap)"
    by (simp_all add: hp4_def hp3_def hp2_def writeDim_key setProp_def)
  have w0: "dimOf hp2 b ''width'' ''w'' = dimOf hp b ''width'' ''w''"
    and h0: "dimOf hp2 b ''height'' ''h'' = dimOf hp b ''height'' ''h''"
    by (simp_all add: hp2_def dimOf_def setProp_def)
  have w: "dimOf hp4 b ''width'' ''w'' = writtenDim (snap_w snap) (dimOf hp b ''width'' ''w'')"
  proof -
    have "dimOf hp4 b ''width'' ''w'' = dimOf hp3 b ''width'' ''w''"
      by (rule dimOf_other_keys) (simp_all add: hp4_def writeDim_key)
    then show ?thesis by (simp add: hp3_def dimOf_writeDim w0)
  qed
  have h: "dimOf hp4 b ''height'' ''h'' = writtenDim (snap_h snap) (dimOf hp b ''height'' ''h'')"
  proof -
    have "dimOf hp3 b ''height'' ''h'' = dimOf hp2 b ''height'' ''h''"
      by (rule dimOf_other_keys) (simp_all add: hp3_def writeDim_key)
    then show ?thesis by (simp add: hp4_def dimOf_writeDim h0)
  qed
  show ?thesis
    unfolding res by (simp add: shapeSnapshot_def numberOf_def x y w h)
qed

lemma applyBases_isNumber: "isNumber (applyBases snap hp bs a j) = isNumber (hp a j)"
proof (induction bs arbitrary: hp)
  case Nil
  then show ?case by simp
next
  case (Cons base rest)
  show ?case
  proof (cases "applyTo snap hp base")
    case (Pair ok hp')
    then have "isNumber (hp' a j) = isNumber (hp a j)"
      using applyTo_isNumber [of snap hp base a j] by simp
    with Pair Cons show ?thesis by (cases ok) simp_all
  qed
qed

lemma applyBases_other: "Ref a \<notin> set bs \<Longrightarrow> applyBases snap hp bs a = hp a"
proof (induction bs arbitrary: hp)
  case Nil
  then show ?case by simp
next
  case (Cons base rest)
  show ?case
  proof (cases "applyTo snap hp base")
    case (Pair ok hp')
    from Cons.prems have "base \<noteq> Ref a" by auto
    then have "hp' a = hp a"
      using applyTo_other [of base a snap hp] Pair by simp
    with Pair Cons show ?thesis by (cases ok) simp_all
  qed
qed

lemma applyBases_nonnum: "\<not> isNumber (hp a j) \<Longrightarrow> applyBases snap hp bs a j = hp a j"
proof (induction bs arbitrary: hp)
  case Nil
  then show ?case by simp
next
  case (Cons base rest)
  show ?case
  proof (cases "applyTo snap hp base")
    case (Pair ok hp')
    then have eq: "hp' a j = hp a j"
      using applyTo_nonnum [of hp a j snap base] Cons.prems by simp
    with Pair Cons show ?thesis by (cases ok) simp_all
  qed
qed

lemma applyBases_key: "j \<notin> set geometryKeys \<Longrightarrow> applyBases snap hp bs a j = hp a j"
proof (induction bs arbitrary: hp)
  case Nil
  then show ?case by simp
next
  case (Cons base rest)
  show ?case
  proof (cases "applyTo snap hp base")
    case (Pair ok hp')
    then have eq: "hp' a j = hp a j"
      using applyTo_key [of j snap hp base a] Cons.prems by simp
    with Pair Cons show ?thesis by (cases ok) simp_all
  qed
qed

lemma exposesXY_applyBases: "exposesXY (applyBases snap hp bs) c = exposesXY hp c"
  by (cases c) (simp_all add: exposesXY_def applyBases_isNumber)

lemma applyBases_stop:
  assumes "\<forall>c \<in> set pre. \<not> exposesXY hp c" and "exposesXY hp base"
  shows "applyBases snap hp (pre @ base # post) = snd (applyTo snap (applyBases snap hp pre) base)"
  using assms
proof (induction pre arbitrary: hp)
  case Nil
  then show ?case
    using applyTo_fst [of snap hp base] by (cases "applyTo snap hp base") simp
next
  case (Cons c pre)
  show ?case
  proof (cases "applyTo snap hp c")
    case (Pair ok hp')
    from Cons.prems have "\<not> exposesXY hp c" by simp
    then have ok: "\<not> ok" using applyTo_fst [of snap hp c] Pair by simp
    have hp': "hp' = snd (applyTo snap hp c)" using Pair by simp
    have "\<forall>c \<in> set pre. \<not> exposesXY hp' c" and "exposesXY hp' base"
      using Cons.prems by (simp_all add: hp' exposesXY_applyTo)
    then have "applyBases snap hp' (pre @ base # post) =
                 snd (applyTo snap (applyBases snap hp' pre) base)"
      by (rule Cons.IH)
    with Pair ok show ?thesis by simp
  qed
qed

lemma nodeObject_canvas: "nodeObject v nodeId = Some ob \<Longrightarrow> \<exists>c. getCanvasFromView v = Some c"
  by (auto simp add: nodeObject_def split: option.splits)

lemma restoreModelSnapshot_heap:
  "nodeObject v nodeId = Some ob \<Longrightarrow>
   w_heap (restoreModelSnapshot v nodeId snap w) = restoreNode snap (w_heap w) ob"
  using nodeObject_canvas [of v nodeId ob]
  by (auto simp add: restoreModelSnapshot_def)

lemma bases_recorded:
  "recordedShape mode hp ob = Some base \<Longrightarrow> \<exists>rest. bases mode hp ob = base # rest"
  by (cases mode) (auto simp add: recordedShape_def candidates_def bases_def)

lemma readFromNode_recorded:
  assumes "readFromNode hp ob = Some s"
  shows "\<exists>base. recordedShape (snap_mode s) hp ob = Some base \<and> exposesXY hp base \<and>
           shapeSnapshot hp base (snap_mode s) = Some s"
proof -
  have mode: "shapeSnapshot hp base mode = Some s \<Longrightarrow> snap_mode s = mode" for base mode
    by (auto simp add: shapeSnapshot_def split: jsval.splits option.splits)
  have ex: "shapeSnapshot hp base mode = Some s \<Longrightarrow> exposesXY hp base" for base mode
    using shapeSnapshot_None [of hp base mode] by auto
  from assms show ?thesis
    unfolding readFromNode_find candidates_def recordedShape_def
    by (auto split: if_splits dest: mode ex)
qed

lemma restoreNode_primary:
  assumes "recordedShape (snap_mode snap) hp ob = Some base" and "exposesXY hp base"
  shows "restoreNode snap hp ob = snd (applyTo snap hp base)"
proof -
  from assms(1) obtain rest where "bases (snap_mode snap) hp ob = base # rest"
    using bases_recorded by blast
  then have "bases (snap_mode snap) hp ob = [] @ base # rest" by simp
  then show ?thesis
    unfolding restoreNode_def using applyBases_stop [of "[]" hp base snap rest] assms(2) by simp
qed

text \<open>
  C7. \<open>restoreModelSnapshot\<close> writes into the shape recorded in the snapshot first.
  When that shape exposes numeric \<open>x\<close> and \<open>y\<close> the write succeeds: the heap is
  the result of that one \<open>applyTo\<close>, no other object changes, and the shape reads back
  the snapshot's \<open>x\<close>, \<open>y\<close> and, where the snapshot has them and the shape has a
  numeric \<open>width\<close>/\<open>height\<close> or \<open>w\<close>/\<open>h\<close>, its width and height. Another
  object is changed only if the recorded shape fails structurally. In general the loop
  stops at the first shape whose write succeeds structurally: no later shape is written.
\<close>

theorem restoreModelSnapshot_primary_first:
  assumes node: "nodeObject v nodeId = Some ob"
    and rec: "recordedShape (snap_mode snap) (w_heap w) ob = Some base"
  shows "(exposesXY (w_heap w) base \<longrightarrow>
            w_heap (restoreModelSnapshot v nodeId snap w) = snd (applyTo snap (w_heap w) base) \<and>
            (\<forall>a. base \<noteq> Ref a \<longrightarrow>
                 w_heap (restoreModelSnapshot v nodeId snap w) a = w_heap w a) \<and>
            (\<forall>b. base = Ref b \<longrightarrow>
                 shapeSnapshot (w_heap (restoreModelSnapshot v nodeId snap w)) base (snap_mode snap) =
                   Some \<lparr> snap_mode = snap_mode snap, snap_x = snap_x snap, snap_y = snap_y snap,
                          snap_w = writtenDim (snap_w snap) (dimOf (w_heap w) b ''width'' ''w''),
                          snap_h = writtenDim (snap_h snap) (dimOf (w_heap w) b ''height'' ''h'') \<rparr>))
       \<and> ((\<exists>a. base \<noteq> Ref a \<and> w_heap (restoreModelSnapshot v nodeId snap w) a \<noteq> w_heap w a) \<longrightarrow>
            \<not> exposesXY (w_heap w) base)
       \<and> (\<forall>pre b post.
            bases (snap_mode snap) (w_heap w) ob = pre @ b # post \<and>
            (\<forall>c \<in> set pre. \<not> exposesXY (w_heap w) c) \<and> exposesXY (w_heap w) b \<longrightarrow>
              w_heap (restoreModelSnapshot v nodeId snap w) =
                snd (applyTo snap (applyBases snap (w_heap w) pre) b) \<and>
              (\<forall>a. Ref a \<notin> set pre \<and> b \<noteq> Ref a \<longrightarrow>
                   w_heap (restoreModelSnapshot v nodeId snap w) a = w_heap w a))"
proof -
  let ?hp = "w_heap w"
  let ?hp' = "w_heap (restoreModelSnapshot v nodeId snap w)"
  have heap: "?hp' = restoreNode snap ?hp ob"
    using node by (rule restoreModelSnapshot_heap)
  have first: "?hp' = snd (applyTo snap ?hp base)" if "exposesXY ?hp base"
    unfolding heap using rec that by (rule restoreNode_primary)
  have frame: "?hp' a = ?hp a" if "exposesXY ?hp base" and "base \<noteq> Ref a" for a
    using first [OF that(1)] applyTo_other [OF that(2)] by simp
  have rb: "shapeSnapshot ?hp' base (snap_mode snap) =
                Some \<lparr> snap_mode = snap_mode snap, snap_x = snap_x snap, snap_y = snap_y snap,
                       snap_w = writtenDim (snap_w snap) (dimOf ?hp b ''width'' ''w''),
                       snap_h = writtenDim (snap_h snap) (dimOf ?hp b ''height'' ''h'') \<rparr>"
    if "exposesXY ?hp base" and "base = Ref b" for b
    using first [OF that(1)] applyTo_readback [of ?hp b snap "snap_mode snap"] that by simp
  have stop: "?hp' = snd (applyTo snap (applyBases snap ?hp pre) b) \<and>
              (\<forall>a. Ref a \<notin> set pre \<and> b \<noteq> Ref a \<longrightarrow> ?hp' a = ?hp a)"
    if split: "bases (snap_mode snap) ?hp ob = pre @ b # post"
      and fail: "\<forall>c \<in> set pre. \<not> exposesXY ?hp c" and ok: "exposesXY ?hp b" for pre b post
  proof -
    have eq: "?hp' = snd (applyTo snap (applyBases snap ?hp pre) b)"
      unfolding heap restoreNode_def split using fail ok by (rule applyBases_stop)
    have "?hp' a = ?hp a" if "Ref a \<notin> set pre" and "b \<noteq> Ref a" for a
      using eq applyTo_other [OF that(2)] applyBases_other [OF that(1)] by simp
    with eq show ?thesis by blast
  qed
  show ?thesis
    using first frame rb stop by blast
qed

theorem restoreModelSnapshot_primary_first_witness:
  "nodeObject exView ''n1'' = Some 1 \<and> recordedShape Pos exHeap 1 = Some (Ref 2) \<and>
   exposesXY exHeap (Ref 2) \<and>
   w_heap (restoreModelSnapshot exView ''n1'' exSnap exWorld) 1 = exHeap 1 \<and>
   shapeSnapshot (w_heap (restoreModelSnapshot exView ''n1'' exSnap exWorld)) (Ref 2) Pos
     = Some \<lparr> snap_mode = Pos, snap_x = Finite 1, snap_y = Finite 2,
              snap_w = Some (Finite 3), snap_h = None \<rparr>"
proof -
  have hw: "w_heap exWorld = exHeap" by (simp add: exWorld_def)
  have n: "nodeObject exView ''n1'' = Some 1"
    by (simp add: nodeObject_def exView_def getCanvasFromView_def)
  have r0: "recordedShape Pos exHeap 1 = Some (Ref 2)"
    by (simp add: recordedShape_def candidates_def exHeap_def)
  then have r: "recordedShape (snap_mode exSnap) (w_heap exWorld) 1 = Some (Ref 2)"
    by (simp add: exSnap_def hw)
  have e0: "exposesXY exHeap (Ref 2)"
    by (simp add: exposesXY_def exHeap_def)
  then have e: "exposesXY (w_heap exWorld) (Ref 2)" by (simp add: hw)
  have d: "dimOf (w_heap exWorld) 2 ''width'' ''w'' = Some (Finite 30)"
      "dimOf (w_heap exWorld) 2 ''height'' ''h'' = None"
    by (simp_all add: dimOf_def numberOf_def hw exHeap_def)
  note t = restoreModelSnapshot_primary_first [OF n r, THEN conjunct1, THEN mp, OF e]
  have ne: "Ref 2 \<noteq> Ref (1::nat)" by simp
  have frame: "w_heap (restoreModelSnapshot exView ''n1'' exSnap exWorld) 1 = w_heap exWorld 1"
    using t [THEN conjunct2, THEN conjunct1, THEN spec, of 1] ne by simp
  have rb: "shapeSnapshot (w_heap (restoreModelSnapshot exView ''n1'' exSnap exWorld)) (Ref 2)
              (snap_mode exSnap) =
            Some \<lparr> snap_mode = snap_mode exSnap, snap_x = snap_x exSnap, snap_y = snap_y exSnap,
                   snap_w = writtenDim (snap_w exSnap) (dimOf (w_heap exWorld) 2 ''width'' ''w''),
                   snap_h = writtenDim (snap_h exSnap) (dimOf (w_heap exWorld) 2 ''height'' ''h'') \<rparr>"
    using t [THEN conjunct2, THEN conjunct2, THEN spec, of 2] by simp
  have rb': "shapeSnapshot (w_heap (restoreModelSnapshot exView ''n1'' exSnap exWorld)) (Ref 2) Pos
     = Some \<lparr> snap_mode = Pos, snap_x = Finite 1, snap_y = Finite 2,
              snap_w = Some (Finite 3), snap_h = None \<rparr>"
    using rb unfolding d by (simp add: exSnap_def writtenDim_def)
  show ?thesis using n r0 e0 frame rb' by (simp add: hw)
qed

lemma applyTo_keeps_x:
  "hp b ''x'' = Num (snap_x snap) \<Longrightarrow> snd (applyTo snap hp base) b ''x'' = Num (snap_x snap)"
  by (cases base) (auto simp add: applyTo_def Let_def writeDim_key setProp_def)

lemma applyBases_keeps_x:
  "hp b ''x'' = Num (snap_x snap) \<Longrightarrow> applyBases snap hp bs b ''x'' = Num (snap_x snap)"
proof (induction bs arbitrary: hp)
  case Nil
  then show ?case by simp
next
  case (Cons base rest)
  show ?case
  proof (cases "applyTo snap hp base")
    case (Pair ok hp')
    then have "hp' b ''x'' = Num (snap_x snap)"
      using applyTo_keeps_x [of hp b snap base] Cons.prems by simp
    with Pair Cons show ?thesis by (cases ok) simp_all
  qed
qed

text \<open>
  C10. When the first shape tried has a numeric \<open>x\<close> but no numeric \<open>y\<close>,
  \<open>applyTo\<close> rejects it after having overwritten its \<open>x\<close> with the snapshot's;
  the loop goes on to the fallback shapes from that heap, and at the end the rejected
  shape still holds the snapshot's \<open>x\<close> next to its old, non-numeric \<open>y\<close>.
\<close>

theorem restoreModelSnapshot_partial_write:
  assumes node: "nodeObject v nodeId = Some ob"
    and primary: "bases (snap_mode snap) (w_heap w) ob = Ref b # rest"
    and x: "isNumber (w_heap w b ''x'')"
    and y: "\<not> isNumber (w_heap w b ''y'')"
  shows "applyTo snap (w_heap w) (Ref b) = (False, setProp (w_heap w) b ''x'' (Num (snap_x snap)))
       \<and> w_heap (restoreModelSnapshot v nodeId snap w) =
           applyBases snap (setProp (w_heap w) b ''x'' (Num (snap_x snap))) rest
       \<and> w_heap (restoreModelSnapshot v nodeId snap w) b ''x'' = Num (snap_x snap)
       \<and> w_heap (restoreModelSnapshot v nodeId snap w) b ''y'' = w_heap w b ''y''"
proof -
  let ?hp = "w_heap w"
  let ?hp1 = "setProp ?hp b ''x'' (Num (snap_x snap))"
  have rejected: "applyTo snap ?hp (Ref b) = (False, ?hp1)"
    using x y by (simp add: applyTo_def Let_def setProp_def)
  have heap: "w_heap (restoreModelSnapshot v nodeId snap w) = applyBases snap ?hp1 rest"
    using restoreModelSnapshot_heap [OF node, of snap w] primary rejected
    by (simp add: restoreNode_def)
  have "?hp1 b ''x'' = Num (snap_x snap)" by (simp add: setProp_def)
  then have xs: "applyBases snap ?hp1 rest b ''x'' = Num (snap_x snap)"
    by (rule applyBases_keeps_x)
  have "\<not> isNumber (?hp1 b ''y'')" using y by (simp add: setProp_def)
  then have "applyBases snap ?hp1 rest b ''y'' = ?hp1 b ''y''"
    by (rule applyBases_nonnum)
  then have ys: "applyBases snap ?hp1 rest b ''y'' = ?hp b ''y''"
    by (simp add: setProp_def)
  show ?thesis using rejected heap xs ys by simp
qed

theorem restoreModelSnapshot_partial_write_witness:
  "nodeObject exView ''n1'' = Some 1 \<and>
   isNumber (exHeapBroken 1 ''x'') \<and> isNumber (exHeapBroken 1 ''y'') = False \<and>
   w_heap (restoreModelSnapshot exView ''n1'' exSnapTop (exWorld\<lparr> w_heap := exHeapBroken \<rparr>)) 1 ''x''
     = Num (Finite 0) \<and>
   w_heap (restoreModelSnapshot exView ''n1'' exSnapTop (exWorld\<lparr> w_heap := exHeapBroken \<rparr>)) 1 ''y''
     = Str ''bad''"
proof -
  let ?w = "exWorld\<lparr> w_heap := exHeapBroken \<rparr>"
  have hw: "w_heap ?w = exHeapBroken" by simp
  have n: "nodeObject exView ''n1'' = Some 1"
    by (simp add: nodeObject_def exView_def getCanvasFromView_def)
  have b: "bases (snap_mode exSnapTop) (w_heap ?w) 1 = Ref 1 # [Ref 2, Undefined, Undefined]"
    by (simp add: bases_def exHeapBroken_def exSnapTop_def)
  have x0: "isNumber (exHeapBroken 1 ''x'')" and y0: "\<not> isNumber (exHeapBroken 1 ''y'')"
    and yv: "exHeapBroken 1 ''y'' = Str ''bad''"
    by (simp_all add: exHeapBroken_def)
  have x: "isNumber (w_heap ?w 1 ''x'')" and y: "\<not> isNumber (w_heap ?w 1 ''y'')"
    using x0 y0 by simp_all
  note t = restoreModelSnapshot_partial_write [OF n b x y]
  have rx: "w_heap (restoreModelSnapshot exView ''n1'' exSnapTop ?w) 1 ''x'' = Num (Finite 0)"
    using t [THEN conjunct2, THEN conjunct2, THEN conjunct1] by (simp add: exSnapTop_def)
  have ry: "w_heap (restoreModelSnapshot exView ''n1'' exSnapTop ?w) 1 ''y'' = Str ''bad''"
    using t [THEN conjunct2, THEN conjunct2, THEN conjunct2] yv by simp
  show ?thesis using n x0 y0 rx ry by simp
qed


subsection \<open>Loops that may throw\<close>

lemma stateOf_simps [simp]: "stateOf (Inl (ex, s)) = s" "stateOf (Inr s) = s"
  by (simp_all add: stateOf_def)

lemma stateAfter_simps [simp]: "stateAfter (Inl (ex, s)) = s" "stateAfter (Inr (x, s)) = s"
  by (simp_all add: stateAfter_def)

lemma foldE_invariant:
  assumes "P s" and "\<And>x s s'. P s \<Longrightarrow> f x s = Inr s' \<Longrightarrow> P s'"
  shows "P (stateOf (foldE f xs s))"
  using assms(1)
proof (induction xs arbitrary: s)
  case Nil
  then show ?case by simp
next
  case (Cons x xs)
  show ?case
  proof (cases "f x s")
    case (Inl ex)
    then show ?thesis using Cons.prems by simp
  next
    case (Inr s')
    then have "P s'" using Cons.prems assms(2) by blast
    then have "P (stateOf (foldE f xs s'))" by (rule Cons.IH)
    then show ?thesis using Inr by simp
  qed
qed

lemma foldE_returns:
  assumes "P s" and "\<And>x s. x \<in> set xs \<Longrightarrow> P s \<Longrightarrow> \<exists>s'. f x s = Inr s' \<and> P s'"
  shows "\<exists>s'. foldE f xs s = Inr s' \<and> P s'"
  using assms
proof (induction xs arbitrary: s)
  case Nil
  then show ?case by simp
next
  case (Cons x xs)
  from Cons.prems(2) [of x s] Cons.prems(1) obtain s' where s': "f x s = Inr s'" "P s'"
    by auto
  have "\<exists>s''. foldE f xs s' = Inr s'' \<and> P s''"
    using s'(2) Cons.prems(2) by (intro Cons.IH) auto
  then show ?case using s'(1) by simp
qed

lemma foldE_throws:
  assumes "x \<in> set xs" and "\<And>s. \<exists>ex. f x s = Inl ex"
  shows "\<exists>ex s'. foldE f xs s = Inl (ex, s')"
  using assms(1)
proof (induction xs arbitrary: s)
  case Nil
  then show ?case by simp
next
  case (Cons y ys)
  show ?case
  proof (cases "f y s")
    case (Inl ex)
    then show ?thesis by simp
  next
    case (Inr s')
    then have "y \<noteq> x" using assms(2) [of s] by auto
    then have "x \<in> set ys" using Cons.prems by simp
    then have "\<exists>ex s''. foldE f ys s' = Inl (ex, s'')" by (rule Cons.IH)
    then show ?thesis using Inr by simp
  qed
qed

lemma foldE_Inr: "foldE (\<lambda>x s. Inr (g x s)) xs s = Inr (fold g xs s)"
  by (induction xs arbitrary: s) simp_all

lemma error_is_SyntaxError: "(ex :: error) = SyntaxError"
  by (cases ex) simp

lemma resolves_iff: "resolves hp v i = (\<exists>r. resolveEl hp v i = Inr r)"
  by (cases "resolveEl hp v i") (simp_all add: resolves_def)

lemma not_resolves_iff: "(\<not> resolves hp v i) = (resolveEl hp v i = Inl SyntaxError)"
  by (cases "resolveEl hp v i") (simp_all add: resolves_def error_is_SyntaxError)

lemma resolveNodeElById_cases:
  "resolveEl (w_heap w) v i = Inl ex \<Longrightarrow> resolveNodeElById v i w m = Inl ex"
  "resolveEl (w_heap w) v i = Inr None \<Longrightarrow> resolveNodeElById v i w m = Inr (None, m)"
  "resolveEl (w_heap w) v i = Inr (Some el) \<Longrightarrow>
     resolveNodeElById v i w m = Inr (Some el, m\<lparr> nodeIdByEl := (nodeIdByEl m)(el \<mapsto> i) \<rparr>)"
  by (simp_all add: resolveNodeElById_def)

subsection \<open>Locking and unlocking\<close>

lemma lookup2_put2:
  "lookup2 (put2 mm p k v) p' k' = (if p' = p \<and> k' = k then Some v else lookup2 mm p' k')"
  by (auto simp add: lookup2_def put2_def split: option.splits)

lemma lookup2_del2:
  "lookup2 (del2 mm p k) p' k' = (if p' = p \<and> k' = k then None else lookup2 mm p' k')"
  by (auto simp add: lookup2_def del2_def split: option.splits)

lemma forgetOnUnlock_fields:
  "lockedByCanvas (forgetOnUnlock p k m) = lockedByCanvas m"
  "lookup2 (lockedStyleByCanvas (forgetOnUnlock p k m)) p' k' =
     (if p' = p \<and> k' = k then None else lookup2 (lockedStyleByCanvas m) p' k')"
  "lookup2 (lockedMoveStyleByCanvas (forgetOnUnlock p k m)) p' k' =
     (if p' = p \<and> k' = k then None else lookup2 (lockedMoveStyleByCanvas m) p' k')"
  "lookup2 (lockedModelByCanvas (forgetOnUnlock p k m)) p' k' =
     (if p' = p \<and> k' = k then None else lookup2 (lockedModelByCanvas m) p' k')"
  by (simp_all add: forgetOnUnlock_def forgetLockedNodeModel_def forgetLockedMoveStyle_def
      forgetLockedNodeStyle_def lookup2_del2)

lemma fold_forgetOnUnlock_fields:
  "lockedByCanvas (fold (forgetOnUnlock p) ids m) = lockedByCanvas m"
  "lookup2 (lockedStyleByCanvas (fold (forgetOnUnlock p) ids m)) p' k' =
     (if p' = p \<and> k' \<in> set ids then None else lookup2 (lockedStyleByCanvas m) p' k')"
  "lookup2 (lockedMoveStyleByCanvas (fold (forgetOnUnlock p) ids m)) p' k' =
     (if p' = p \<and> k' \<in> set ids then None else lookup2 (lockedMoveStyleByCanvas m) p' k')"
  "lookup2 (lockedModelByCanvas (fold (forgetOnUnlock p) ids m)) p' k' =
     (if p' = p \<and> k' \<in> set ids then None else lookup2 (lockedModelByCanvas m) p' k')"
  by (induction ids arbitrary: m) (auto simp add: forgetOnUnlock_fields)

lemma addLockedClass_result:
  assumes "addLockedClass v ident mw = Inr mw'"
  shows "(\<exists>f. fst mw' = (fst mw)\<lparr> nodeIdByEl := f \<rparr>) \<and> w_heap (snd mw') = w_heap (snd mw)"
proof (cases "resolveEl (w_heap (snd mw)) v ident")
  case (Inl ex)
  then show ?thesis using assms by (simp add: addLockedClass_def resolveNodeElById_cases)
next
  case (Inr r)
  show ?thesis
  proof (cases r)
    case None
    then have "mw' = (fst mw, snd mw)"
      using assms Inr by (simp add: addLockedClass_def resolveNodeElById_cases)
    then have "fst mw' = (fst mw)\<lparr> nodeIdByEl := nodeIdByEl (fst mw) \<rparr>" "snd mw' = snd mw"
      by simp_all
    then show ?thesis by metis
  next
    case (Some el)
    then have "mw' = ((fst mw)\<lparr> nodeIdByEl := (nodeIdByEl (fst mw))(el \<mapsto> ident) \<rparr>,
                      (snd mw)\<lparr> w_lcLocked := (w_lcLocked (snd mw))(el := True) \<rparr>)"
      using assms Inr by (simp add: addLockedClass_def resolveNodeElById_cases)
    then show ?thesis by auto
  qed
qed

lemma addLockedClass_returns:
  assumes "resolves (w_heap (snd mw)) v ident"
  shows "\<exists>mw'. addLockedClass v ident mw = Inr mw'"
proof -
  from assms obtain r where r: "resolveEl (w_heap (snd mw)) v ident = Inr r"
    by (auto simp add: resolves_iff)
  show ?thesis
    by (cases r) (simp_all add: addLockedClass_def resolveNodeElById_cases r)
qed

lemma foldE_addLockedClass_manager:
  "\<exists>f. fst (stateOf (foldE (addLockedClass v) ids mw)) = (fst mw)\<lparr> nodeIdByEl := f \<rparr>"
proof (rule foldE_invariant [where P = "\<lambda>s :: manager \<times> world. \<exists>f. fst s = (fst mw)\<lparr> nodeIdByEl := f \<rparr>"])
  have "fst mw = (fst mw)\<lparr> nodeIdByEl := nodeIdByEl (fst mw) \<rparr>" by simp
  then show "\<exists>f. fst mw = (fst mw)\<lparr> nodeIdByEl := f \<rparr>" by blast
next
  fix x s s'
  assume "\<exists>f. fst s = (fst mw)\<lparr> nodeIdByEl := f \<rparr>" and "addLockedClass v x s = Inr s'"
  then obtain f g where "fst s = (fst mw)\<lparr> nodeIdByEl := f \<rparr>" "fst s' = (fst s)\<lparr> nodeIdByEl := g \<rparr>"
    using addLockedClass_result by blast
  then have "fst s' = (fst mw)\<lparr> nodeIdByEl := g \<rparr>" by simp
  then show "\<exists>f. fst s' = (fst mw)\<lparr> nodeIdByEl := f \<rparr>" by blast
qed

lemma applyLockedClasses_manager:
  "\<exists>f. fst (stateOf (applyLockedClasses ctx mw)) = (fst mw)\<lparr> nodeIdByEl := f \<rparr>"
  using foldE_addLockedClass_manager
    [of "ctx_view ctx" "lockedIdsOf (fst mw) (ctx_canvasPath ctx)"
        "(fst mw, (snd mw)\<lparr> w_lcLocked := (\<lambda>e. if List.member (canvasNodeEls (view_dom (ctx_view ctx))) e
             then False else w_lcLocked (snd mw) e) \<rparr>)"]
  by (simp add: applyLockedClasses_def Let_def)

lemma applyLockedClasses_fields:
  "lockedByCanvas (fst (stateOf (applyLockedClasses ctx mw))) = lockedByCanvas (fst mw)"
  "lockedStyleByCanvas (fst (stateOf (applyLockedClasses ctx mw))) = lockedStyleByCanvas (fst mw)"
  "lockedMoveStyleByCanvas (fst (stateOf (applyLockedClasses ctx mw))) = lockedMoveStyleByCanvas (fst mw)"
  "lockedModelByCanvas (fst (stateOf (applyLockedClasses ctx mw))) = lockedModelByCanvas (fst mw)"
  using applyLockedClasses_manager [of ctx mw] by auto

lemma applyLockedClasses_returns:
  assumes "\<forall>i \<in> set (lockedIdsOf (fst mw) (ctx_canvasPath ctx)). resolves (w_heap (snd mw)) (ctx_view ctx) i"
  shows "\<exists>mw'. applyLockedClasses ctx mw = Inr mw'"
proof -
  let ?start = "(fst mw, (snd mw)\<lparr> w_lcLocked :=
      (\<lambda>e. if List.member (canvasNodeEls (view_dom (ctx_view ctx))) e then False
            else w_lcLocked (snd mw) e) \<rparr>)"
  have "\<exists>s'. foldE (addLockedClass (ctx_view ctx)) (lockedIdsOf (fst mw) (ctx_canvasPath ctx)) ?start
          = Inr s' \<and> w_heap (snd s') = w_heap (snd mw)"
  proof (rule foldE_returns [where P = "\<lambda>s :: manager \<times> world. w_heap (snd s) = w_heap (snd mw)"])
    show "w_heap (snd ?start) = w_heap (snd mw)" by simp
  next
    fix x and s :: "manager \<times> world"
    assume x: "x \<in> set (lockedIdsOf (fst mw) (ctx_canvasPath ctx))"
      and s: "w_heap (snd s) = w_heap (snd mw)"
    then have "resolves (w_heap (snd s)) (ctx_view ctx) x" using assms by simp
    then obtain s' where s': "addLockedClass (ctx_view ctx) x s = Inr s'"
      using addLockedClass_returns by blast
    then have "w_heap (snd s') = w_heap (snd s)" using addLockedClass_result by blast
    then show "\<exists>s'. addLockedClass (ctx_view ctx) x s = Inr s' \<and> w_heap (snd s') = w_heap (snd mw)"
      using s' s by simp
  qed
  then show ?thesis unfolding applyLockedClasses_def Let_def by blast
qed

lemma applyLockedClasses_none_locked:
  "lockedIdsOf m (ctx_canvasPath ctx) = [] \<Longrightarrow>
   \<exists>w'. applyLockedClasses ctx (m, w) = Inr (m, w')"
  by (simp add: applyLockedClasses_def Let_def)

lemma lockedIdsOf_cong:
  "lockedByCanvas m' = lockedByCanvas m \<Longrightarrow> lockedIdsOf m' p = lockedIdsOf m p"
  by (simp add: lockedIdsOf_def)

text \<open>
  C3. On a canvas whose locked list holds \<open>n \<ge> 1\<close> ids (\<open>n\<close> distinct ids when
  the list has no duplicates), \<open>unlockAllInCanvas\<close> returns \<open>n\<close>, leaves the locked
  list of that canvas empty and deletes the element-style, move-style and geometry
  snapshots of each of those ids; called again at once on the same canvas it returns 0.
  Neither call throws.
\<close>

theorem unlockAllInCanvas_count:
  assumes ids: "lockedIdsOf m (ctx_canvasPath ctx) = ids" and nonempty: "ids \<noteq> []"
  shows "\<exists>m' w'.
           unlockAllInCanvas ctx (m, w) = Inr (length ids, m', w')
         \<and> (distinct ids \<longrightarrow> length ids = card (set ids))
         \<and> lockedIdsOf m' (ctx_canvasPath ctx) = []
         \<and> (\<forall>ident \<in> set ids.
              lookup2 (lockedStyleByCanvas m') (ctx_canvasPath ctx) ident = None \<and>
              lookup2 (lockedMoveStyleByCanvas m') (ctx_canvasPath ctx) ident = None \<and>
              lookup2 (lockedModelByCanvas m') (ctx_canvasPath ctx) ident = None)
         \<and> unlockAllInCanvas ctx (m', w') = Inr (0, m', w')"
proof -
  let ?p = "ctx_canvasPath ctx"
  let ?m1 = "fold (forgetOnUnlock ?p) ids m"
  let ?m2 = "?m1\<lparr> lockedByCanvas := (lockedByCanvas ?m1)(?p \<mapsto> []) \<rparr>"
  have locked: "lockedIdsOf ?m2 ?p = []" by (simp add: lockedIdsOf_def)
  then obtain w' where classes: "applyLockedClasses ctx (?m2, w) = Inr (?m2, w')"
    using applyLockedClasses_none_locked by blast
  have run: "unlockAllInCanvas ctx (m, w) = Inr (length ids, ?m2, w')"
    using ids nonempty classes by (simp add: unlockAllInCanvas_def Let_def)
  have forgotten:
    "lookup2 (lockedStyleByCanvas ?m2) ?p ident = None \<and>
     lookup2 (lockedMoveStyleByCanvas ?m2) ?p ident = None \<and>
     lookup2 (lockedModelByCanvas ?m2) ?p ident = None" if "ident \<in> set ids" for ident
    using that by (simp add: fold_forgetOnUnlock_fields)
  have again: "unlockAllInCanvas ctx (?m2, w') = Inr (0, ?m2, w')"
    using locked by (simp add: unlockAllInCanvas_def Let_def)
  show ?thesis
    using run locked forgotten again by (auto simp add: distinct_card)
qed

theorem unlockAllInCanvas_count_witness:
  "lockedIdsOf exManager ''c.canvas'' = [''n1'', ''b'', ''c''] \<and>
   (\<exists>m' w'. unlockAllInCanvas exCtx (exManager, exWorld) = Inr (3, m', w') \<and>
      lockedIdsOf m' ''c.canvas'' = [] \<and>
      lookup2 (lockedModelByCanvas m') ''c.canvas'' ''n1'' = None \<and>
      unlockAllInCanvas exCtx (m', w') = Inr (0, m', w'))"
proof -
  have p: "ctx_canvasPath exCtx = ''c.canvas''" by (simp add: exCtx_def)
  have ids0: "lockedIdsOf exManager ''c.canvas'' = [''n1'', ''b'', ''c'']"
    by (simp add: lockedIdsOf_def exManager_def)
  then have ids: "lockedIdsOf exManager (ctx_canvasPath exCtx) = [''n1'', ''b'', ''c'']"
    by (simp add: p)
  have ne: "[''n1'', ''b'', ''c''] \<noteq> ([] :: string list)" by simp
  from unlockAllInCanvas_count [OF ids ne, of exWorld] obtain m' w' where
    t: "unlockAllInCanvas exCtx (exManager, exWorld) = Inr (length [''n1'', ''b'', ''c''], m', w')
         \<and> (distinct [''n1'', ''b'', ''c''] \<longrightarrow> length [''n1'', ''b'', ''c''] = card (set [''n1'', ''b'', ''c'']))
         \<and> lockedIdsOf m' (ctx_canvasPath exCtx) = []
         \<and> (\<forall>ident \<in> set [''n1'', ''b'', ''c''].
              lookup2 (lockedStyleByCanvas m') (ctx_canvasPath exCtx) ident = None \<and>
              lookup2 (lockedMoveStyleByCanvas m') (ctx_canvasPath exCtx) ident = None \<and>
              lookup2 (lockedModelByCanvas m') (ctx_canvasPath exCtx) ident = None)
         \<and> unlockAllInCanvas exCtx (m', w') = Inr (0, m', w')"
    by blast
  have c1: "unlockAllInCanvas exCtx (exManager, exWorld) = Inr (3, m', w')"
    using t [THEN conjunct1] by simp
  have c3: "lockedIdsOf m' ''c.canvas'' = []"
    using t [THEN conjunct2, THEN conjunct2, THEN conjunct1] by (simp add: p)
  have c4: "lookup2 (lockedModelByCanvas m') ''c.canvas'' ''n1'' = None"
    using t [THEN conjunct2, THEN conjunct2, THEN conjunct2, THEN conjunct1] by (simp add: p)
  have c5: "unlockAllInCanvas exCtx (m', w') = Inr (0, m', w')"
    using t [THEN conjunct2, THEN conjunct2, THEN conjunct2, THEN conjunct2] .
  show ?thesis using ids0 c1 c3 c4 c5 by blast
qed


lemma snapshotOnLock_cases:
  "resolveEl (w_heap w) (ctx_view ctx) i = Inl ex \<Longrightarrow> snapshotOnLock ctx i w m = Inl ex"
  "resolveEl (w_heap w) (ctx_view ctx) i = Inr None \<Longrightarrow> snapshotOnLock ctx i w m = Inr m"
  "resolveEl (w_heap w) (ctx_view ctx) i = Inr (Some el) \<Longrightarrow>
     snapshotOnLock ctx i w m =
       Inr (snapshotLockedNodeModel ctx i w
              (snapshotLockedMoveStyle (view_dom (ctx_view ctx)) (ctx_canvasPath ctx) i el w
                 (snapshotLockedNodeStyle (ctx_canvasPath ctx) i el w
                    (m\<lparr> nodeIdByEl := (nodeIdByEl m)(el \<mapsto> i) \<rparr>))))"
  by (simp_all add: snapshotOnLock_def resolveNodeElById_cases Let_def)

lemma snapshotOnLock_fields:
  assumes "snapshotOnLock ctx ident w m = Inr m'"
  shows "lockedByCanvas m' = lockedByCanvas m"
    and "lookup2 (lockedStyleByCanvas m') p k =
     (if p = ctx_canvasPath ctx \<and> k = ident
      then overwrite (capturedStyle ctx w ident) (lookup2 (lockedStyleByCanvas m) p k)
      else lookup2 (lockedStyleByCanvas m) p k)"
    and "lookup2 (lockedMoveStyleByCanvas m') p k =
     (if p = ctx_canvasPath ctx \<and> k = ident
      then overwrite (capturedMoveStyle ctx w ident) (lookup2 (lockedMoveStyleByCanvas m) p k)
      else lookup2 (lockedMoveStyleByCanvas m) p k)"
    and "lookup2 (lockedModelByCanvas m') p k =
     (if p = ctx_canvasPath ctx \<and> k = ident
      then overwrite (capturedModel ctx w ident) (lookup2 (lockedModelByCanvas m) p k)
      else lookup2 (lockedModelByCanvas m) p k)"
proof -
  consider ex where "resolveEl (w_heap w) (ctx_view ctx) ident = Inl ex"
    | "resolveEl (w_heap w) (ctx_view ctx) ident = Inr None"
    | el where "resolveEl (w_heap w) (ctx_view ctx) ident = Inr (Some el)"
    by (cases "resolveEl (w_heap w) (ctx_view ctx) ident") auto
  then have "lockedByCanvas m' = lockedByCanvas m \<and>
    lookup2 (lockedStyleByCanvas m') p k =
     (if p = ctx_canvasPath ctx \<and> k = ident
      then overwrite (capturedStyle ctx w ident) (lookup2 (lockedStyleByCanvas m) p k)
      else lookup2 (lockedStyleByCanvas m) p k) \<and>
    lookup2 (lockedMoveStyleByCanvas m') p k =
     (if p = ctx_canvasPath ctx \<and> k = ident
      then overwrite (capturedMoveStyle ctx w ident) (lookup2 (lockedMoveStyleByCanvas m) p k)
      else lookup2 (lockedMoveStyleByCanvas m) p k) \<and>
    lookup2 (lockedModelByCanvas m') p k =
     (if p = ctx_canvasPath ctx \<and> k = ident
      then overwrite (capturedModel ctx w ident) (lookup2 (lockedModelByCanvas m) p k)
      else lookup2 (lockedModelByCanvas m) p k)"
  proof cases
    case 1
    then show ?thesis using assms by (simp add: snapshotOnLock_cases)
  next
    case 2
    then have "m' = m" using assms by (simp add: snapshotOnLock_cases)
    then show ?thesis
      using 2 by (simp add: capturedStyle_def capturedMoveStyle_def capturedModel_def overwrite_def)
  next
    case 3
    then have "m' = snapshotLockedNodeModel ctx ident w
              (snapshotLockedMoveStyle (view_dom (ctx_view ctx)) (ctx_canvasPath ctx) ident el w
                 (snapshotLockedNodeStyle (ctx_canvasPath ctx) ident el w
                    (m\<lparr> nodeIdByEl := (nodeIdByEl m)(el \<mapsto> ident) \<rparr>)))"
      using assms by (simp add: snapshotOnLock_cases)
    then show ?thesis
      using 3
      by (auto simp add: snapshotLockedNodeStyle_def snapshotLockedMoveStyle_def
          snapshotLockedNodeModel_def Let_def lookup2_put2 overwrite_def capturedStyle_def
          capturedMoveStyle_def capturedModel_def split: option.splits)
  qed
  then show "lockedByCanvas m' = lockedByCanvas m"
    and "lookup2 (lockedStyleByCanvas m') p k =
     (if p = ctx_canvasPath ctx \<and> k = ident
      then overwrite (capturedStyle ctx w ident) (lookup2 (lockedStyleByCanvas m) p k)
      else lookup2 (lockedStyleByCanvas m) p k)"
    and "lookup2 (lockedMoveStyleByCanvas m') p k =
     (if p = ctx_canvasPath ctx \<and> k = ident
      then overwrite (capturedMoveStyle ctx w ident) (lookup2 (lockedMoveStyleByCanvas m) p k)
      else lookup2 (lockedMoveStyleByCanvas m) p k)"
    and "lookup2 (lockedModelByCanvas m') p k =
     (if p = ctx_canvasPath ctx \<and> k = ident
      then overwrite (capturedModel ctx w ident) (lookup2 (lockedModelByCanvas m) p k)
      else lookup2 (lockedModelByCanvas m) p k)"
    by simp_all
qed

lemma snapshotOnLock_returns:
  "resolves (w_heap w) (ctx_view ctx) i \<Longrightarrow> \<exists>m'. snapshotOnLock ctx i w m = Inr m'"
proof -
  assume "resolves (w_heap w) (ctx_view ctx) i"
  then obtain r where r: "resolveEl (w_heap w) (ctx_view ctx) i = Inr r"
    by (auto simp add: resolves_iff)
  show ?thesis by (cases r) (simp_all add: snapshotOnLock_cases r)
qed

lemma foldE_snapshotOnLock_fields:
  assumes "\<forall>i \<in> set ids. resolves (w_heap w) (ctx_view ctx) i"
  shows "\<exists>m'. foldE (\<lambda>i. snapshotOnLock ctx i w) ids m = Inr m' \<and>
     lockedByCanvas m' = lockedByCanvas m \<and>
     (\<forall>p k. lookup2 (lockedStyleByCanvas m') p k =
        (if p = ctx_canvasPath ctx \<and> k \<in> set ids
         then overwrite (capturedStyle ctx w k) (lookup2 (lockedStyleByCanvas m) p k)
         else lookup2 (lockedStyleByCanvas m) p k)) \<and>
     (\<forall>p k. lookup2 (lockedMoveStyleByCanvas m') p k =
        (if p = ctx_canvasPath ctx \<and> k \<in> set ids
         then overwrite (capturedMoveStyle ctx w k) (lookup2 (lockedMoveStyleByCanvas m) p k)
         else lookup2 (lockedMoveStyleByCanvas m) p k)) \<and>
     (\<forall>p k. lookup2 (lockedModelByCanvas m') p k =
        (if p = ctx_canvasPath ctx \<and> k \<in> set ids
         then overwrite (capturedModel ctx w k) (lookup2 (lockedModelByCanvas m) p k)
         else lookup2 (lockedModelByCanvas m) p k))"
  using assms
proof (induction ids arbitrary: m)
  case Nil
  then show ?case by simp
next
  case (Cons i ids)
  from Cons.prems have "resolves (w_heap w) (ctx_view ctx) i" by simp
  then obtain m1 where m1: "snapshotOnLock ctx i w m = Inr m1"
    using snapshotOnLock_returns by blast
  note f1 = snapshotOnLock_fields [OF m1]
  from Cons.prems have "\<forall>j \<in> set ids. resolves (w_heap w) (ctx_view ctx) j" by simp
  from Cons.IH [OF this, of m1] obtain m' where
    run: "foldE (\<lambda>i. snapshotOnLock ctx i w) ids m1 = Inr m'"
    and l: "lockedByCanvas m' = lockedByCanvas m1"
    and s: "\<And>p k. lookup2 (lockedStyleByCanvas m') p k =
        (if p = ctx_canvasPath ctx \<and> k \<in> set ids
         then overwrite (capturedStyle ctx w k) (lookup2 (lockedStyleByCanvas m1) p k)
         else lookup2 (lockedStyleByCanvas m1) p k)"
    and ms: "\<And>p k. lookup2 (lockedMoveStyleByCanvas m') p k =
        (if p = ctx_canvasPath ctx \<and> k \<in> set ids
         then overwrite (capturedMoveStyle ctx w k) (lookup2 (lockedMoveStyleByCanvas m1) p k)
         else lookup2 (lockedMoveStyleByCanvas m1) p k)"
    and md: "\<And>p k. lookup2 (lockedModelByCanvas m') p k =
        (if p = ctx_canvasPath ctx \<and> k \<in> set ids
         then overwrite (capturedModel ctx w k) (lookup2 (lockedModelByCanvas m1) p k)
         else lookup2 (lockedModelByCanvas m1) p k)"
    by blast
  have run': "foldE (\<lambda>i. snapshotOnLock ctx i w) (i # ids) m = Inr m'"
    using m1 run by simp
  have l': "lockedByCanvas m' = lockedByCanvas m" using l f1(1) by simp
  have s': "lookup2 (lockedStyleByCanvas m') p k =
        (if p = ctx_canvasPath ctx \<and> k \<in> set (i # ids)
         then overwrite (capturedStyle ctx w k) (lookup2 (lockedStyleByCanvas m) p k)
         else lookup2 (lockedStyleByCanvas m) p k)" for p k
    unfolding s f1(2) by (auto simp add: overwrite_def split: option.splits)
  have ms': "lookup2 (lockedMoveStyleByCanvas m') p k =
        (if p = ctx_canvasPath ctx \<and> k \<in> set (i # ids)
         then overwrite (capturedMoveStyle ctx w k) (lookup2 (lockedMoveStyleByCanvas m) p k)
         else lookup2 (lockedMoveStyleByCanvas m) p k)" for p k
    unfolding ms f1(3) by (auto simp add: overwrite_def split: option.splits)
  have md': "lookup2 (lockedModelByCanvas m') p k =
        (if p = ctx_canvasPath ctx \<and> k \<in> set (i # ids)
         then overwrite (capturedModel ctx w k) (lookup2 (lockedModelByCanvas m) p k)
         else lookup2 (lockedModelByCanvas m) p k)" for p k
    unfolding md f1(4) by (auto simp add: overwrite_def split: option.splits)
  show ?case using run' l' s' ms' md' by blast
qed

lemma set_foldl_setAdd: "set (foldl setAdd acc xs) = set acc \<union> set xs"
  by (induction xs arbitrary: acc) (auto simp add: setAdd_def)

lemma set_newSet: "set (newSet xs) = set xs"
  by (simp add: newSet_def set_foldl_setAdd)

lemma setLocked_fields:
  "set (lockedIdsOf (setLocked p i b m) p) =
     (if b then insert i (set (lockedIdsOf m p)) else set (lockedIdsOf m p) - {i})"
  "lockedStyleByCanvas (setLocked p i b m) = lockedStyleByCanvas m"
  "lockedMoveStyleByCanvas (setLocked p i b m) = lockedMoveStyleByCanvas m"
  "lockedModelByCanvas (setLocked p i b m) = lockedModelByCanvas m"
  by (auto simp add: setLocked_def Let_def lockedIdsOf_def set_newSet setAdd_def)

lemma fold_setLocked_fields:
  "set (lockedIdsOf (fold (\<lambda>i. setLocked p i b) ids m) p) =
     (if b then set (lockedIdsOf m p) \<union> set ids else set (lockedIdsOf m p) - set ids)"
  "lockedStyleByCanvas (fold (\<lambda>i. setLocked p i b) ids m) = lockedStyleByCanvas m"
  "lockedMoveStyleByCanvas (fold (\<lambda>i. setLocked p i b) ids m) = lockedMoveStyleByCanvas m"
  "lockedModelByCanvas (fold (\<lambda>i. setLocked p i b) ids m) = lockedModelByCanvas m"
  by (induction ids arbitrary: m) (auto simp add: setLocked_fields)

lemma ensureGuardAttached_fields:
  "lockedByCanvas (ensureGuardAttached ctx m) = lockedByCanvas m"
  "lockedStyleByCanvas (ensureGuardAttached ctx m) = lockedStyleByCanvas m"
  "lockedMoveStyleByCanvas (ensureGuardAttached ctx m) = lockedMoveStyleByCanvas m"
  "lockedModelByCanvas (ensureGuardAttached ctx m) = lockedModelByCanvas m"
  by (simp_all add: ensureGuardAttached_def attachStyleGuardToCanvas_def)

lemma toggleStep_cases:
  "toggleStep ctx True w = (\<lambda>i. snapshotOnLock ctx i w)"
  "toggleStep ctx False w = (\<lambda>i s. Inr (forgetOnUnlock (ctx_canvasPath ctx) i s))"
  by (simp_all add: toggleStep_def fun_eq_iff)

lemma toggleStep_locked:
  "toggleStep ctx b w i s = Inr s' \<Longrightarrow> lockedByCanvas s' = lockedByCanvas s"
  by (cases b) (auto simp add: toggleStep_cases snapshotOnLock_fields(1) forgetOnUnlock_fields(1))

lemma stateAfter_returning:
  "stateAfter (case r of Inl ex \<Rightarrow> Inl ex | Inr s \<Rightarrow> Inr (x, s)) = stateOf r"
  by (cases r) (auto simp add: stateAfter_def stateOf_def split: prod.splits)

text \<open>
  The command in terms of its two loops: \<open>anyUnlocked\<close> is decided on the manager as it
  was, the selected ids are added to or removed from the locked list, then the snapshots
  are taken or forgotten, then the classes are applied.
\<close>

lemma toggleLockSelected_run:
  assumes "selectedIds \<noteq> []"
  shows "toggleLockSelected ctx selectedIds (m, w) =
     (case foldE (toggleStep ctx (\<exists>i \<in> set selectedIds. \<not> isLocked m (ctx_canvasPath ctx) i) w)
             selectedIds
             (fold (\<lambda>i. setLocked (ctx_canvasPath ctx) i
                      (\<exists>i \<in> set selectedIds. \<not> isLocked m (ctx_canvasPath ctx) i))
                selectedIds (ensureGuardAttached ctx m)) of
        Inl (ex, m2) \<Rightarrow> Inl (ex, m2, w)
      | Inr m2 \<Rightarrow>
          (case applyLockedClasses ctx (m2, w) of
             Inl ex \<Rightarrow> Inl ex
           | Inr mw' \<Rightarrow> Inr (True, mw')))"
proof -
  have "isLocked (ensureGuardAttached ctx m) (ctx_canvasPath ctx) i = isLocked m (ctx_canvasPath ctx) i"
    for i
    by (simp add: isLocked_def lockedIdsOf_def ensureGuardAttached_fields)
  then have "list_ex (\<lambda>i. \<not> isLocked (ensureGuardAttached ctx m) (ctx_canvasPath ctx) i) selectedIds =
             (\<exists>i \<in> set selectedIds. \<not> isLocked m (ctx_canvasPath ctx) i)"
    by (simp add: list_ex_iff)
  then show ?thesis
    using assms by (simp add: toggleLockSelected_def Let_def cong: sum.case_cong prod.case_cong)
qed

lemma toggleLockSelected_manager:
  assumes "selectedIds \<noteq> []"
  shows "\<exists>f. fst (stateAfter (toggleLockSelected ctx selectedIds (m, w))) =
     (stateOf (foldE (toggleStep ctx (\<exists>i \<in> set selectedIds. \<not> isLocked m (ctx_canvasPath ctx) i) w)
             selectedIds
             (fold (\<lambda>i. setLocked (ctx_canvasPath ctx) i
                      (\<exists>i \<in> set selectedIds. \<not> isLocked m (ctx_canvasPath ctx) i))
                selectedIds (ensureGuardAttached ctx m))))\<lparr> nodeIdByEl := f \<rparr>"
proof -
  let ?F = "foldE (toggleStep ctx (\<exists>i \<in> set selectedIds. \<not> isLocked m (ctx_canvasPath ctx) i) w)
             selectedIds
             (fold (\<lambda>i. setLocked (ctx_canvasPath ctx) i
                      (\<exists>i \<in> set selectedIds. \<not> isLocked m (ctx_canvasPath ctx) i))
                selectedIds (ensureGuardAttached ctx m))"
  show ?thesis
  proof (cases ?F)
    case (Inl a)
    obtain ex m2 where a: "a = (ex, m2)" by (cases a)
    have "fst (stateAfter (toggleLockSelected ctx selectedIds (m, w))) = m2"
      unfolding toggleLockSelected_run [OF assms] Inl a by simp
    moreover have "stateOf ?F = m2" unfolding Inl a by simp
    moreover have "m2 = m2\<lparr> nodeIdByEl := nodeIdByEl m2 \<rparr>" by simp
    ultimately show ?thesis by metis
  next
    case (Inr m2)
    have "fst (stateAfter (toggleLockSelected ctx selectedIds (m, w))) =
            fst (stateOf (applyLockedClasses ctx (m2, w)))"
      unfolding toggleLockSelected_run [OF assms] Inr by (simp add: stateAfter_returning)
    moreover have "stateOf ?F = m2" unfolding Inr by simp
    ultimately show ?thesis using applyLockedClasses_manager [of ctx "(m2, w)"] by simp
  qed
qed

lemma toggleLockSelected_locked_set:
  assumes "selectedIds \<noteq> []"
  shows "set (lockedIdsOf (fst (stateAfter (toggleLockSelected ctx selectedIds (m, w)))) (ctx_canvasPath ctx)) =
     (if \<exists>i \<in> set selectedIds. \<not> isLocked m (ctx_canvasPath ctx) i
      then set (lockedIdsOf m (ctx_canvasPath ctx)) \<union> set selectedIds
      else set (lockedIdsOf m (ctx_canvasPath ctx)) - set selectedIds)"
proof -
  let ?p = "ctx_canvasPath ctx"
  let ?b = "\<exists>i \<in> set selectedIds. \<not> isLocked m ?p i"
  let ?m1 = "fold (\<lambda>i. setLocked ?p i ?b) selectedIds (ensureGuardAttached ctx m)"
  let ?F = "foldE (toggleStep ctx ?b w) selectedIds ?m1"
  from toggleLockSelected_manager [OF assms, of ctx m w] obtain f where
    f: "fst (stateAfter (toggleLockSelected ctx selectedIds (m, w))) = (stateOf ?F)\<lparr> nodeIdByEl := f \<rparr>"
    by blast
  have "lockedByCanvas (stateOf ?F) = lockedByCanvas ?m1"
    by (rule foldE_invariant [where P = "\<lambda>s :: manager. lockedByCanvas s = lockedByCanvas ?m1"])
      (simp_all add: toggleStep_locked)
  then have "lockedIdsOf (fst (stateAfter (toggleLockSelected ctx selectedIds (m, w)))) ?p =
             lockedIdsOf ?m1 ?p"
    unfolding f by (simp add: lockedIdsOf_def)
  moreover have "lockedIdsOf (ensureGuardAttached ctx m) ?p = lockedIdsOf m ?p"
    by (simp add: lockedIdsOf_def ensureGuardAttached_fields)
  ultimately show ?thesis by (simp only: fold_setLocked_fields)
qed

lemma toggleLockSelected_unlock_entries:
  assumes "selectedIds \<noteq> []" and "\<forall>i \<in> set selectedIds. isLocked m (ctx_canvasPath ctx) i"
    and "i \<in> set selectedIds"
  shows "lookup2 (lockedStyleByCanvas (fst (stateAfter (toggleLockSelected ctx selectedIds (m, w)))))
           (ctx_canvasPath ctx) i = None"
    and "lookup2 (lockedMoveStyleByCanvas (fst (stateAfter (toggleLockSelected ctx selectedIds (m, w)))))
           (ctx_canvasPath ctx) i = None"
    and "lookup2 (lockedModelByCanvas (fst (stateAfter (toggleLockSelected ctx selectedIds (m, w)))))
           (ctx_canvasPath ctx) i = None"
proof -
  let ?p = "ctx_canvasPath ctx"
  let ?b = "\<exists>i \<in> set selectedIds. \<not> isLocked m ?p i"
  let ?m1 = "fold (\<lambda>i. setLocked ?p i ?b) selectedIds (ensureGuardAttached ctx m)"
  let ?F = "foldE (toggleStep ctx ?b w) selectedIds ?m1"
  from toggleLockSelected_manager [OF assms(1), of ctx m w] obtain f where
    f: "fst (stateAfter (toggleLockSelected ctx selectedIds (m, w))) = (stateOf ?F)\<lparr> nodeIdByEl := f \<rparr>"
    by blast
  from assms(2) have nb: "?b = False" by blast
  have "?F = Inr (fold (forgetOnUnlock ?p) selectedIds ?m1)"
    unfolding nb toggleStep_cases by (rule foldE_Inr)
  then have F: "stateOf ?F = fold (forgetOnUnlock ?p) selectedIds ?m1" by simp
  show "lookup2 (lockedStyleByCanvas (fst (stateAfter (toggleLockSelected ctx selectedIds (m, w))))) ?p i = None"
    and "lookup2 (lockedMoveStyleByCanvas (fst (stateAfter (toggleLockSelected ctx selectedIds (m, w))))) ?p i = None"
    and "lookup2 (lockedModelByCanvas (fst (stateAfter (toggleLockSelected ctx selectedIds (m, w))))) ?p i = None"
    unfolding f F using assms(3) by (simp_all add: fold_forgetOnUnlock_fields)
qed

lemma toggleLockSelected_lock_entries:
  assumes "selectedIds \<noteq> []" and "\<exists>i \<in> set selectedIds. \<not> isLocked m (ctx_canvasPath ctx) i"
    and "\<forall>i \<in> set selectedIds. resolves (w_heap w) (ctx_view ctx) i"
    and "i \<in> set selectedIds"
  shows "lookup2 (lockedStyleByCanvas (fst (stateAfter (toggleLockSelected ctx selectedIds (m, w)))))
           (ctx_canvasPath ctx) i =
         overwrite (capturedStyle ctx w i) (lookup2 (lockedStyleByCanvas m) (ctx_canvasPath ctx) i)"
    and "lookup2 (lockedMoveStyleByCanvas (fst (stateAfter (toggleLockSelected ctx selectedIds (m, w)))))
           (ctx_canvasPath ctx) i =
         overwrite (capturedMoveStyle ctx w i) (lookup2 (lockedMoveStyleByCanvas m) (ctx_canvasPath ctx) i)"
    and "lookup2 (lockedModelByCanvas (fst (stateAfter (toggleLockSelected ctx selectedIds (m, w)))))
           (ctx_canvasPath ctx) i =
         overwrite (capturedModel ctx w i) (lookup2 (lockedModelByCanvas m) (ctx_canvasPath ctx) i)"
proof -
  let ?p = "ctx_canvasPath ctx"
  let ?b = "\<exists>i \<in> set selectedIds. \<not> isLocked m ?p i"
  let ?m1 = "fold (\<lambda>i. setLocked ?p i ?b) selectedIds (ensureGuardAttached ctx m)"
  let ?F = "foldE (toggleStep ctx ?b w) selectedIds ?m1"
  from toggleLockSelected_manager [OF assms(1), of ctx m w] obtain f where
    f: "fst (stateAfter (toggleLockSelected ctx selectedIds (m, w))) = (stateOf ?F)\<lparr> nodeIdByEl := f \<rparr>"
    by blast
  from assms(2) have b: "?b = True" by blast
  have maps1: "lockedStyleByCanvas ?m1 = lockedStyleByCanvas m"
      "lockedMoveStyleByCanvas ?m1 = lockedMoveStyleByCanvas m"
      "lockedModelByCanvas ?m1 = lockedModelByCanvas m"
    by (simp_all only: fold_setLocked_fields ensureGuardAttached_fields)
  from foldE_snapshotOnLock_fields [OF assms(3), of ?m1] obtain m2 where
    run: "foldE (\<lambda>i. snapshotOnLock ctx i w) selectedIds ?m1 = Inr m2"
    and s: "\<And>p k. lookup2 (lockedStyleByCanvas m2) p k =
        (if p = ?p \<and> k \<in> set selectedIds
         then overwrite (capturedStyle ctx w k) (lookup2 (lockedStyleByCanvas ?m1) p k)
         else lookup2 (lockedStyleByCanvas ?m1) p k)"
    and ms: "\<And>p k. lookup2 (lockedMoveStyleByCanvas m2) p k =
        (if p = ?p \<and> k \<in> set selectedIds
         then overwrite (capturedMoveStyle ctx w k) (lookup2 (lockedMoveStyleByCanvas ?m1) p k)
         else lookup2 (lockedMoveStyleByCanvas ?m1) p k)"
    and md: "\<And>p k. lookup2 (lockedModelByCanvas m2) p k =
        (if p = ?p \<and> k \<in> set selectedIds
         then overwrite (capturedModel ctx w k) (lookup2 (lockedModelByCanvas ?m1) p k)
         else lookup2 (lockedModelByCanvas ?m1) p k)"
    by blast
  have F: "stateOf ?F = m2"
    using run unfolding b toggleStep_cases by simp
  show "lookup2 (lockedStyleByCanvas (fst (stateAfter (toggleLockSelected ctx selectedIds (m, w))))) ?p i =
         overwrite (capturedStyle ctx w i) (lookup2 (lockedStyleByCanvas m) ?p i)"
    unfolding f F using assms(4) by (simp add: s maps1)
  show "lookup2 (lockedMoveStyleByCanvas (fst (stateAfter (toggleLockSelected ctx selectedIds (m, w))))) ?p i =
         overwrite (capturedMoveStyle ctx w i) (lookup2 (lockedMoveStyleByCanvas m) ?p i)"
    unfolding f F using assms(4) by (simp add: ms maps1)
  show "lookup2 (lockedModelByCanvas (fst (stateAfter (toggleLockSelected ctx selectedIds (m, w))))) ?p i =
         overwrite (capturedModel ctx w i) (lookup2 (lockedModelByCanvas m) ?p i)"
    unfolding f F using assms(4) by (simp add: md maps1)
qed

lemma toggleStep_returns:
  "resolves (w_heap w) (ctx_view ctx) i \<Longrightarrow> \<exists>s'. toggleStep ctx b w i s = Inr s'"
  by (cases b) (simp_all add: toggleStep_cases snapshotOnLock_returns)

lemma toggleLockSelected_returns:
  assumes "selectedIds \<noteq> []"
    and "\<forall>i \<in> set selectedIds \<union> set (lockedIdsOf m (ctx_canvasPath ctx)).
           resolves (w_heap w) (ctx_view ctx) i"
  shows "\<exists>st. toggleLockSelected ctx selectedIds (m, w) = Inr (True, st)"
proof -
  let ?p = "ctx_canvasPath ctx"
  let ?b = "\<exists>i \<in> set selectedIds. \<not> isLocked m ?p i"
  let ?m1 = "fold (\<lambda>i. setLocked ?p i ?b) selectedIds (ensureGuardAttached ctx m)"
  let ?F = "foldE (toggleStep ctx ?b w) selectedIds ?m1"
  have "\<exists>m2. ?F = Inr m2 \<and> lockedByCanvas m2 = lockedByCanvas ?m1"
  proof (rule foldE_returns [where P = "\<lambda>s :: manager. lockedByCanvas s = lockedByCanvas ?m1"])
    show "lockedByCanvas ?m1 = lockedByCanvas ?m1" by simp
  next
    fix x and s :: manager
    assume x: "x \<in> set selectedIds" and s: "lockedByCanvas s = lockedByCanvas ?m1"
    from x assms(2) have "resolves (w_heap w) (ctx_view ctx) x" by simp
    then obtain s' where s': "toggleStep ctx ?b w x s = Inr s'"
      using toggleStep_returns by blast
    then have "lockedByCanvas s' = lockedByCanvas s" by (rule toggleStep_locked)
    then show "\<exists>s'. toggleStep ctx ?b w x s = Inr s' \<and> lockedByCanvas s' = lockedByCanvas ?m1"
      using s' s by simp
  qed
  then obtain m2 where m2: "?F = Inr m2" "lockedByCanvas m2 = lockedByCanvas ?m1" by blast
  have "lockedIdsOf (ensureGuardAttached ctx m) ?p = lockedIdsOf m ?p"
    by (simp add: lockedIdsOf_def ensureGuardAttached_fields)
  then have "set (lockedIdsOf ?m1 ?p) \<subseteq> set selectedIds \<union> set (lockedIdsOf m ?p)"
    by (simp only: fold_setLocked_fields) auto
  moreover have "lockedIdsOf m2 ?p = lockedIdsOf ?m1 ?p"
    using m2(2) by (simp add: lockedIdsOf_def)
  ultimately have "\<forall>i \<in> set (lockedIdsOf (fst (m2, w)) ?p). resolves (w_heap (snd (m2, w))) (ctx_view ctx) i"
    using assms(2) by auto
  then obtain mw' where "applyLockedClasses ctx (m2, w) = Inr mw'"
    using applyLockedClasses_returns by blast
  then show ?thesis
    unfolding toggleLockSelected_run [OF assms(1)] m2(1) by simp
qed

lemma snapshotOnLock_throws:
  "\<not> resolves (w_heap w) (ctx_view ctx) i \<Longrightarrow> snapshotOnLock ctx i w m = Inl SyntaxError"
  by (simp add: not_resolves_iff snapshotOnLock_cases)

lemma toggleLockSelected_throws:
  assumes "selectedIds \<noteq> []" and "\<exists>i \<in> set selectedIds. \<not> isLocked m (ctx_canvasPath ctx) i"
    and "\<exists>i \<in> set selectedIds. \<not> resolves (w_heap w) (ctx_view ctx) i"
  shows "\<exists>st. toggleLockSelected ctx selectedIds (m, w) = Inl (SyntaxError, st)"
proof -
  let ?p = "ctx_canvasPath ctx"
  let ?b = "\<exists>i \<in> set selectedIds. \<not> isLocked m ?p i"
  let ?m1 = "fold (\<lambda>i. setLocked ?p i ?b) selectedIds (ensureGuardAttached ctx m)"
  let ?F = "foldE (toggleStep ctx ?b w) selectedIds ?m1"
  from assms(2) have b: "?b = True" by blast
  from assms(3) obtain x where x: "x \<in> set selectedIds" "\<not> resolves (w_heap w) (ctx_view ctx) x"
    by blast
  have "\<exists>ex. snapshotOnLock ctx x w s = Inl ex" for s
    using snapshotOnLock_throws [OF x(2)] by blast
  with x(1) have "\<exists>ex s'. foldE (\<lambda>i. snapshotOnLock ctx i w) selectedIds ?m1 = Inl (ex, s')"
    by (rule foldE_throws)
  then obtain ex m2 where "?F = Inl (ex, m2)"
    unfolding b toggleStep_cases by blast
  then have "toggleLockSelected ctx selectedIds (m, w) = Inl (SyntaxError, m2, w)"
    unfolding toggleLockSelected_run [OF assms(1)] by (simp add: error_is_SyntaxError [of ex])
  then show ?thesis by blast
qed


text \<open>
  C2, as amended. The toggle command on a non-empty selection, whether it returns or is
  ended by an exception: if some selected node is unlocked, every selected node is in
  the locked list afterwards; only if every selected node is locked already, every
  selected node is out of the list afterwards and its three snapshot entries are gone;
  nodes outside the selection keep their lock state. Locking snapshots a node only as
  far as the world allows: when resolving no selected id throws, the three entries of a
  selected node are what \<open>snapshotOnLock\<close> captures for it, and previous entries stay
  where it captures nothing (nothing at all for a node whose element does not resolve,
  no geometry for a node whose geometry is unreadable). The command returns true when
  resolving no selected or locked id throws; it is ended by the exception when it locks
  and resolving a selected id throws.
\<close>

theorem toggleLockSelected_policy:
  assumes nonempty: "selectedIds \<noteq> []"
  shows "((\<exists>i \<in> set selectedIds. \<not> isLocked m (ctx_canvasPath ctx) i) \<longrightarrow>
            (\<forall>i \<in> set selectedIds.
               isLocked (fst (stateAfter (toggleLockSelected ctx selectedIds (m, w)))) (ctx_canvasPath ctx) i))
       \<and> ((\<forall>i \<in> set selectedIds. isLocked m (ctx_canvasPath ctx) i) \<longrightarrow>
            (\<forall>i \<in> set selectedIds.
               \<not> isLocked (fst (stateAfter (toggleLockSelected ctx selectedIds (m, w)))) (ctx_canvasPath ctx) i \<and>
               lookup2 (lockedStyleByCanvas (fst (stateAfter (toggleLockSelected ctx selectedIds (m, w)))))
                   (ctx_canvasPath ctx) i = None \<and>
               lookup2 (lockedMoveStyleByCanvas (fst (stateAfter (toggleLockSelected ctx selectedIds (m, w)))))
                   (ctx_canvasPath ctx) i = None \<and>
               lookup2 (lockedModelByCanvas (fst (stateAfter (toggleLockSelected ctx selectedIds (m, w)))))
                   (ctx_canvasPath ctx) i = None))
       \<and> (\<forall>j. j \<notin> set selectedIds \<longrightarrow>
               isLocked (fst (stateAfter (toggleLockSelected ctx selectedIds (m, w)))) (ctx_canvasPath ctx) j =
               isLocked m (ctx_canvasPath ctx) j)
       \<and> ((\<exists>i \<in> set selectedIds. \<not> isLocked m (ctx_canvasPath ctx) i) \<and>
          (\<forall>i \<in> set selectedIds. resolves (w_heap w) (ctx_view ctx) i) \<longrightarrow>
            (\<forall>i \<in> set selectedIds.
               lookup2 (lockedStyleByCanvas (fst (stateAfter (toggleLockSelected ctx selectedIds (m, w)))))
                   (ctx_canvasPath ctx) i =
                 overwrite (capturedStyle ctx w i) (lookup2 (lockedStyleByCanvas m) (ctx_canvasPath ctx) i) \<and>
               lookup2 (lockedMoveStyleByCanvas (fst (stateAfter (toggleLockSelected ctx selectedIds (m, w)))))
                   (ctx_canvasPath ctx) i =
                 overwrite (capturedMoveStyle ctx w i)
                   (lookup2 (lockedMoveStyleByCanvas m) (ctx_canvasPath ctx) i) \<and>
               lookup2 (lockedModelByCanvas (fst (stateAfter (toggleLockSelected ctx selectedIds (m, w)))))
                   (ctx_canvasPath ctx) i =
                 overwrite (capturedModel ctx w i) (lookup2 (lockedModelByCanvas m) (ctx_canvasPath ctx) i)))
       \<and> ((\<forall>i \<in> set selectedIds \<union> set (lockedIdsOf m (ctx_canvasPath ctx)).
              resolves (w_heap w) (ctx_view ctx) i) \<longrightarrow>
            (\<exists>st. toggleLockSelected ctx selectedIds (m, w) = Inr (True, st)))
       \<and> ((\<exists>i \<in> set selectedIds. \<not> isLocked m (ctx_canvasPath ctx) i) \<and>
          (\<exists>i \<in> set selectedIds. \<not> resolves (w_heap w) (ctx_view ctx) i) \<longrightarrow>
            (\<exists>st. toggleLockSelected ctx selectedIds (m, w) = Inl (SyntaxError, st)))"
proof -
  let ?p = "ctx_canvasPath ctx"
  let ?m' = "fst (stateAfter (toggleLockSelected ctx selectedIds (m, w)))"
  note ids' = toggleLockSelected_locked_set [OF nonempty, of ctx m w]
  have lock: "\<forall>i \<in> set selectedIds. isLocked ?m' ?p i"
    if "\<exists>i \<in> set selectedIds. \<not> isLocked m ?p i"
    using ids' that by (simp add: isLocked_def)
  have unlock: "\<forall>i \<in> set selectedIds.
       \<not> isLocked ?m' ?p i \<and>
       lookup2 (lockedStyleByCanvas ?m') ?p i = None \<and>
       lookup2 (lockedMoveStyleByCanvas ?m') ?p i = None \<and>
       lookup2 (lockedModelByCanvas ?m') ?p i = None" if all: "\<forall>i \<in> set selectedIds. isLocked m ?p i"
  proof -
    from all have nb: "\<not> (\<exists>i \<in> set selectedIds. \<not> isLocked m ?p i)" by blast
    have "\<not> isLocked ?m' ?p i" if "i \<in> set selectedIds" for i
      using ids' nb that by (simp add: isLocked_def)
    then show ?thesis
      using toggleLockSelected_unlock_entries [OF nonempty all, of _ w] by blast
  qed
  have others: "isLocked ?m' ?p j = isLocked m ?p j" if "j \<notin> set selectedIds" for j
    using ids' that by (simp add: isLocked_def)
  have entries: "\<forall>i \<in> set selectedIds.
       lookup2 (lockedStyleByCanvas ?m') ?p i =
         overwrite (capturedStyle ctx w i) (lookup2 (lockedStyleByCanvas m) ?p i) \<and>
       lookup2 (lockedMoveStyleByCanvas ?m') ?p i =
         overwrite (capturedMoveStyle ctx w i) (lookup2 (lockedMoveStyleByCanvas m) ?p i) \<and>
       lookup2 (lockedModelByCanvas ?m') ?p i =
         overwrite (capturedModel ctx w i) (lookup2 (lockedModelByCanvas m) ?p i)"
    if "\<exists>i \<in> set selectedIds. \<not> isLocked m ?p i"
      and "\<forall>i \<in> set selectedIds. resolves (w_heap w) (ctx_view ctx) i"
    using toggleLockSelected_lock_entries [OF nonempty that] by blast
  have returns: "\<exists>st. toggleLockSelected ctx selectedIds (m, w) = Inr (True, st)"
    if "\<forall>i \<in> set selectedIds \<union> set (lockedIdsOf m ?p). resolves (w_heap w) (ctx_view ctx) i"
    using nonempty that by (rule toggleLockSelected_returns)
  have throws: "\<exists>st. toggleLockSelected ctx selectedIds (m, w) = Inl (SyntaxError, st)"
    if "\<exists>i \<in> set selectedIds. \<not> isLocked m ?p i"
      and "\<exists>i \<in> set selectedIds. \<not> resolves (w_heap w) (ctx_view ctx) i"
    using nonempty that by (rule toggleLockSelected_throws)
  show ?thesis
    using lock unlock others entries returns throws by blast
qed

lemma ex_resolveEl:
  "resolveEl exHeap exView ''n1'' = Inr (Some 10)" "resolveEl exHeap exView ''ghost'' = Inr None"
  "resolveEl exHeap exView ''b'' = Inr None" "resolveEl exHeap exView ''c'' = Inr None"
  "resolveEl exHeap exView [] = Inl SyntaxError"
  by (simp_all add: resolveEl_def nodeObject_def getCanvasFromView_def exView_def exHeap_def
      exDom_def toCanvasNode_def selectors_def Let_def)

lemma ex_resolves:
  "resolves exHeap exView ''n1''" "resolves exHeap exView ''ghost''"
  "resolves exHeap exView ''b''" "resolves exHeap exView ''c''"
  "\<not> resolves exHeap exView []"
  by (simp_all add: resolves_def ex_resolveEl)

lemma ex_read:
  "readModelSnapshot exHeap exView ''n1'' =
     Some \<lparr> snap_mode = Pos, snap_x = Finite 10, snap_y = Finite 20,
            snap_w = Some (Finite 30), snap_h = None \<rparr>"
  by (simp add: readModelSnapshot_def readFromNode_def nodeObject_def getCanvasFromView_def
      exView_def orElse_def fromObj_def pickDim_def exHeap_def)

lemma ex_ctx_facts:
  "ctx_canvasPath exCtx = ''c.canvas''" "ctx_view exCtx = exView" "w_heap exWorld = exHeap"
  "isLocked exManager ''c.canvas'' ''n1''" "isLocked exManager ''c.canvas'' ''b''"
  "\<not> isLocked exManager ''c.canvas'' ''ghost''" "isLocked exManager ''c.canvas'' ''c''"
  "\<not> isLocked exManager ''c.canvas'' []"
  "lockedIdsOf exManager ''c.canvas'' = [''n1'', ''b'', ''c'']"
  by (simp_all add: exCtx_def exWorld_def isLocked_def lockedIdsOf_def exManager_def)

lemma ex_captured:
  "capturedModel exCtx exWorld ''n1'' =
     Some \<lparr> snap_mode = Pos, snap_x = Finite 10, snap_y = Finite 20,
            snap_w = Some (Finite 30), snap_h = None \<rparr>"
  "capturedStyle exCtx exWorld ''ghost'' = None"
  "capturedMoveStyle exCtx exWorld ''ghost'' = None"
  "capturedModel exCtx exWorld ''ghost'' = None"
  "lookup2 (lockedStyleByCanvas exManager) ''c.canvas'' ''ghost'' = None"
  "lookup2 (lockedMoveStyleByCanvas exManager) ''c.canvas'' ''ghost'' = None"
  "lookup2 (lockedModelByCanvas exManager) ''c.canvas'' ''ghost'' = None"
  unfolding capturedModel_def capturedStyle_def capturedMoveStyle_def ex_ctx_facts
  by (simp_all add: ex_resolveEl ex_read lookup2_def exManager_def)

theorem toggleLockSelected_policy_witness:
  "isLocked exManager ''c.canvas'' ''n1'' \<and> \<not> isLocked exManager ''c.canvas'' ''ghost'' \<and>
   isLocked (fst (stateAfter (toggleLockSelected exCtx [''n1'', ''ghost''] (exManager, exWorld))))
     ''c.canvas'' ''n1'' \<and>
   isLocked (fst (stateAfter (toggleLockSelected exCtx [''n1'', ''ghost''] (exManager, exWorld))))
     ''c.canvas'' ''ghost'' \<and>
   lookup2 (lockedModelByCanvas (fst (stateAfter (toggleLockSelected exCtx [''n1'', ''ghost''] (exManager, exWorld)))))
     ''c.canvas'' ''n1'' =
     Some \<lparr> snap_mode = Pos, snap_x = Finite 10, snap_y = Finite 20,
            snap_w = Some (Finite 30), snap_h = None \<rparr> \<and>
   (\<exists>st. toggleLockSelected exCtx [''n1'', ''ghost''] (exManager, exWorld) = Inr (True, st)) \<and>
   isLocked exManager ''c.canvas'' ''b'' \<and>
   \<not> isLocked (fst (stateAfter (toggleLockSelected exCtx [''n1'', ''b''] (exManager, exWorld))))
     ''c.canvas'' ''n1'' \<and>
   lookup2 (lockedModelByCanvas (fst (stateAfter (toggleLockSelected exCtx [''n1'', ''b''] (exManager, exWorld)))))
     ''c.canvas'' ''n1'' = None \<and>
   isLocked (fst (stateAfter (toggleLockSelected exCtx [''n1'', ''b''] (exManager, exWorld))))
     ''c.canvas'' ''c'' \<and>
   (\<exists>st. toggleLockSelected exCtx [''n1'', []] (exManager, exWorld) = Inl (SyntaxError, st)) \<and>
   isLocked (fst (stateAfter (toggleLockSelected exCtx [''n1'', []] (exManager, exWorld))))
     ''c.canvas'' []"
proof -
  note p = ex_ctx_facts(1)
  note l = ex_ctx_facts(4-8)
  have ne: "[''n1'', ''ghost''] \<noteq> ([] :: string list)" "[''n1'', ''b''] \<noteq> ([] :: string list)"
      "[''n1'', []] \<noteq> ([] :: string list)"
    by simp_all
  note t1 = toggleLockSelected_policy [OF ne(1), of exManager exCtx exWorld, unfolded p]
  note t2 = toggleLockSelected_policy [OF ne(2), of exManager exCtx exWorld, unfolded p]
  note t3 = toggleLockSelected_policy [OF ne(3), of exManager exCtx exWorld, unfolded p]
  have some: "\<exists>i \<in> set [''n1'', ''ghost'']. \<not> isLocked exManager ''c.canvas'' i"
    using l by simp
  have res: "\<forall>i \<in> set [''n1'', ''ghost'']. resolves (w_heap exWorld) (ctx_view exCtx) i"
    unfolding ex_ctx_facts using ex_resolves by simp
  have resAll: "\<forall>i \<in> set [''n1'', ''ghost''] \<union> set (lockedIdsOf exManager ''c.canvas'').
                  resolves (w_heap exWorld) (ctx_view exCtx) i"
    unfolding ex_ctx_facts using ex_resolves by simp
  have all: "\<forall>i \<in> set [''n1'', ''b'']. isLocked exManager ''c.canvas'' i"
    using l by simp
  have some3: "\<exists>i \<in> set [''n1'', []]. \<not> isLocked exManager ''c.canvas'' i"
    using l by simp
  have bad: "\<exists>i \<in> set [''n1'', []]. \<not> resolves (w_heap exWorld) (ctx_view exCtx) i"
    unfolding ex_ctx_facts using ex_resolves by simp
  have a1: "isLocked (fst (stateAfter (toggleLockSelected exCtx [''n1'', ''ghost''] (exManager, exWorld))))
     ''c.canvas'' ''n1''"
    and a2: "isLocked (fst (stateAfter (toggleLockSelected exCtx [''n1'', ''ghost''] (exManager, exWorld))))
     ''c.canvas'' ''ghost''"
    using t1 [THEN conjunct1, THEN mp, OF some] by simp_all
  have a3: "lookup2 (lockedModelByCanvas (fst (stateAfter (toggleLockSelected exCtx [''n1'', ''ghost''] (exManager, exWorld)))))
     ''c.canvas'' ''n1'' =
     Some \<lparr> snap_mode = Pos, snap_x = Finite 10, snap_y = Finite 20,
            snap_w = Some (Finite 30), snap_h = None \<rparr>"
    using t1 [THEN conjunct2, THEN conjunct2, THEN conjunct2, THEN conjunct1, THEN mp,
        OF conjI [OF some res]]
    by (simp add: ex_captured overwrite_def)
  have a4: "\<exists>st. toggleLockSelected exCtx [''n1'', ''ghost''] (exManager, exWorld) = Inr (True, st)"
    using t1 [THEN conjunct2, THEN conjunct2, THEN conjunct2, THEN conjunct2, THEN conjunct1,
        THEN mp, OF resAll] .
  have b1: "\<not> isLocked (fst (stateAfter (toggleLockSelected exCtx [''n1'', ''b''] (exManager, exWorld))))
     ''c.canvas'' ''n1''"
    and b2: "lookup2 (lockedModelByCanvas (fst (stateAfter (toggleLockSelected exCtx [''n1'', ''b''] (exManager, exWorld)))))
     ''c.canvas'' ''n1'' = None"
    using t2 [THEN conjunct2, THEN conjunct1, THEN mp, OF all] by simp_all
  have c1: "isLocked (fst (stateAfter (toggleLockSelected exCtx [''n1'', ''b''] (exManager, exWorld))))
     ''c.canvas'' ''c''"
    using t2 [THEN conjunct2, THEN conjunct2, THEN conjunct1, THEN spec, of "''c''"] l by simp
  have d1: "\<exists>st. toggleLockSelected exCtx [''n1'', []] (exManager, exWorld) = Inl (SyntaxError, st)"
    using t3 [THEN conjunct2, THEN conjunct2, THEN conjunct2, THEN conjunct2, THEN conjunct2,
        THEN mp, OF conjI [OF some3 bad]] .
  have d2: "isLocked (fst (stateAfter (toggleLockSelected exCtx [''n1'', []] (exManager, exWorld))))
     ''c.canvas'' []"
    using t3 [THEN conjunct1, THEN mp, OF some3] by simp
  show ?thesis using l a1 a2 a3 a4 b1 b2 c1 d1 d2 by simp
qed

text \<open>
  Locking does not snapshot every selected node: \<open>ghost\<close>, whose element does not
  resolve, is locked by the toggle (which returns true) and has no snapshot of any kind.
\<close>

theorem toggle_locks_without_snapshot_counterexample:
  "\<not> isLocked exManager ''c.canvas'' ''ghost'' \<and>
   (\<exists>st. toggleLockSelected exCtx [''n1'', ''ghost''] (exManager, exWorld) = Inr (True, st)) \<and>
   isLocked (fst (stateAfter (toggleLockSelected exCtx [''n1'', ''ghost''] (exManager, exWorld))))
     ''c.canvas'' ''ghost'' \<and>
   lookup2 (lockedStyleByCanvas (fst (stateAfter (toggleLockSelected exCtx [''n1'', ''ghost''] (exManager, exWorld)))))
     ''c.canvas'' ''ghost'' = None \<and>
   lookup2 (lockedMoveStyleByCanvas (fst (stateAfter (toggleLockSelected exCtx [''n1'', ''ghost''] (exManager, exWorld)))))
     ''c.canvas'' ''ghost'' = None \<and>
   lookup2 (lockedModelByCanvas (fst (stateAfter (toggleLockSelected exCtx [''n1'', ''ghost''] (exManager, exWorld)))))
     ''c.canvas'' ''ghost'' = None"
proof -
  note p = ex_ctx_facts(1)
  have ne: "[''n1'', ''ghost''] \<noteq> ([] :: string list)" by simp
  have some: "\<exists>i \<in> set [''n1'', ''ghost'']. \<not> isLocked exManager (ctx_canvasPath exCtx) i"
    using ex_ctx_facts by simp
  have res: "\<forall>i \<in> set [''n1'', ''ghost'']. resolves (w_heap exWorld) (ctx_view exCtx) i"
    unfolding ex_ctx_facts using ex_resolves by simp
  have resAll: "\<forall>i \<in> set [''n1'', ''ghost''] \<union> set (lockedIdsOf exManager (ctx_canvasPath exCtx)).
                  resolves (w_heap exWorld) (ctx_view exCtx) i"
    unfolding ex_ctx_facts using ex_resolves by simp
  have r: "\<exists>st. toggleLockSelected exCtx [''n1'', ''ghost''] (exManager, exWorld) = Inr (True, st)"
    using ne resAll by (rule toggleLockSelected_returns)
  have g: "''ghost'' \<in> set [''n1'', ''ghost'']" by simp
  have locked: "isLocked (fst (stateAfter (toggleLockSelected exCtx [''n1'', ''ghost''] (exManager, exWorld))))
     ''c.canvas'' ''ghost''"
    using toggleLockSelected_locked_set [OF ne, of exCtx exManager exWorld] some
    by (simp add: isLocked_def p)
  note e = toggleLockSelected_lock_entries [OF ne some res g, unfolded p]
  show ?thesis
    using ex_ctx_facts(6) r locked e by (simp add: ex_captured overwrite_def)
qed


subsection \<open>One enforcement pass\<close>

lemma sameTypes_refl: "sameTypes hp hp"
  by (simp add: sameTypes_def)

lemma sameTypes_trans: "sameTypes hp hp' \<Longrightarrow> sameTypes hp' hp'' \<Longrightarrow> sameTypes hp hp''"
  by (simp add: sameTypes_def)

lemma sameTypes_restoreNode: "sameTypes hp (restoreNode s hp ob)"
  by (simp add: sameTypes_def restoreNode_def applyBases_isNumber applyBases_key)

lemma sameTypes_shapes: "sameTypes hp hp' \<Longrightarrow> shapes hp' ob = shapes hp ob"
  by (simp add: sameTypes_def shapes_def geometryKeys_def)

lemma sameTypes_candidates: "sameTypes hp hp' \<Longrightarrow> candidates hp' ob = candidates hp ob"
  by (simp add: sameTypes_def candidates_def geometryKeys_def)

lemma sameTypes_exposesXY: "sameTypes hp hp' \<Longrightarrow> exposesXY hp' c = exposesXY hp c"
  by (cases c) (simp_all add: sameTypes_def exposesXY_def)

lemma shapeSnapshot_fields:
  assumes "shapeSnapshot hp base mode = Some cur"
  shows "\<exists>b. base = Ref b \<and> exposesXY hp base \<and> snap_mode cur = mode \<and>
             snap_w cur = dimOf hp b ''width'' ''w'' \<and> snap_h cur = dimOf hp b ''height'' ''h''"
  using assms
  by (auto simp add: shapeSnapshot_def exposesXY_def numberOf_def split: jsval.splits)

lemma dimOf_None: "(dimOf hp b long short = None) = (\<not> isNumber (hp b long) \<and> \<not> isNumber (hp b short))"
  by (cases "hp b long"; cases "hp b short") (simp_all add: dimOf_def numberOf_def)

lemma sameTypes_dimOf:
  "sameTypes hp hp' \<Longrightarrow> (dimOf hp' b long short = None) = (dimOf hp b long short = None)"
  by (simp add: dimOf_None sameTypes_def)

lemma exposes_shapeSnapshot:
  "exposesXY hp base \<Longrightarrow> \<exists>cur. shapeSnapshot hp base mode = Some cur"
  using shapeSnapshot_None [of hp base mode] by auto

lemma sameTypes_stillShaped:
  assumes st: "sameTypes hp hp'" and sh: "stillShaped hp ob s"
  shows "stillShaped hp' ob s"
proof -
  from sh obtain cur where cur: "readFromNode hp ob = Some cur" "snap_mode cur = snap_mode s"
      "(snap_w cur = None) = (snap_w s = None)" "(snap_h cur = None) = (snap_h s = None)"
    by (auto simp add: stillShaped_def)
  let ?f = "find (\<lambda>c. exposesXY hp (snd c)) (candidates hp ob)"
  have same_find: "find (\<lambda>c. exposesXY hp' (snd c)) (candidates hp' ob) = ?f"
    using st by (simp add: sameTypes_candidates sameTypes_exposesXY)
  from cur(1) obtain c where c: "?f = Some c" "shapeSnapshot hp (snd c) (fst c) = Some cur"
    by (auto simp add: readFromNode_find split: option.splits)
  from shapeSnapshot_fields [OF c(2)] obtain b where b: "snd c = Ref b" "exposesXY hp (snd c)"
      "snap_mode cur = fst c" "snap_w cur = dimOf hp b ''width'' ''w''"
      "snap_h cur = dimOf hp b ''height'' ''h''"
    by blast
  have "exposesXY hp' (snd c)" using b(2) st by (simp add: sameTypes_exposesXY)
  then obtain cur' where cur': "shapeSnapshot hp' (snd c) (fst c) = Some cur'"
    using exposes_shapeSnapshot by blast
  from shapeSnapshot_fields [OF cur'] b(1) have f': "snap_mode cur' = fst c"
      "snap_w cur' = dimOf hp' b ''width'' ''w''" "snap_h cur' = dimOf hp' b ''height'' ''h''"
    by auto
  have read': "readFromNode hp' ob = Some cur'"
    by (simp add: readFromNode_find same_find c(1) cur')
  have "(snap_w cur' = None) = (snap_w s = None)" "(snap_h cur' = None) = (snap_h s = None)"
    using f' b cur sameTypes_dimOf [OF st] by simp_all
  moreover have "snap_mode cur' = snap_mode s" using f' b cur by simp
  ultimately show ?thesis using read' by (auto simp add: stillShaped_def)
qed

lemma writtenDim_same: "(present = None) = (saved = None) \<Longrightarrow> writtenDim saved present = saved"
  by (cases saved; cases present) (simp_all add: writtenDim_def)

lemma candidates_recorded:
  "c \<in> set (candidates hp ob) \<Longrightarrow> recordedShape (fst c) hp ob = Some (snd c)"
  by (auto simp add: candidates_def recordedShape_def)

lemma restoreNode_readback:
  assumes sh: "stillShaped hp ob s"
  shows "readFromNode (restoreNode s hp ob) ob = Some s"
proof -
  from sh obtain cur where cur: "readFromNode hp ob = Some cur" "snap_mode cur = snap_mode s"
      "(snap_w cur = None) = (snap_w s = None)" "(snap_h cur = None) = (snap_h s = None)"
    by (auto simp add: stillShaped_def)
  let ?hp' = "restoreNode s hp ob"
  let ?f = "find (\<lambda>c. exposesXY hp (snd c)) (candidates hp ob)"
  have st: "sameTypes hp ?hp'" by (rule sameTypes_restoreNode)
  have same_find: "find (\<lambda>c. exposesXY ?hp' (snd c)) (candidates ?hp' ob) = ?f"
    using st by (simp add: sameTypes_candidates sameTypes_exposesXY)
  from cur(1) obtain c where c: "?f = Some c" "shapeSnapshot hp (snd c) (fst c) = Some cur"
    by (auto simp add: readFromNode_find split: option.splits)
  from shapeSnapshot_fields [OF c(2)] obtain b where b: "snd c = Ref b" "exposesXY hp (snd c)"
      "snap_mode cur = fst c" "snap_w cur = dimOf hp b ''width'' ''w''"
      "snap_h cur = dimOf hp b ''height'' ''h''"
    by blast
  from c(1) have "c \<in> set (candidates hp ob)"
    by (auto simp add: find_Some_iff in_set_conv_nth)
  then have "recordedShape (fst c) hp ob = Some (snd c)" by (rule candidates_recorded)
  then have rec: "recordedShape (snap_mode s) hp ob = Some (Ref b)"
    using b cur by simp
  have heap: "?hp' = snd (applyTo s hp (Ref b))"
    using rec b(1,2) by (simp add: restoreNode_primary)
  have "shapeSnapshot ?hp' (Ref b) (snap_mode s) =
          Some \<lparr> snap_mode = snap_mode s, snap_x = snap_x s, snap_y = snap_y s,
                 snap_w = writtenDim (snap_w s) (dimOf hp b ''width'' ''w''),
                 snap_h = writtenDim (snap_h s) (dimOf hp b ''height'' ''h'') \<rparr>"
    unfolding heap using b(1,2) by (simp add: applyTo_readback)
  also have "\<dots> = Some s"
    using b cur by (simp add: writtenDim_same)
  finally have "shapeSnapshot ?hp' (snd c) (fst c) = Some s"
    using b cur by simp
  then show ?thesis
    by (simp add: readFromNode_find same_find c(1))
qed


lemma withinCheck_refl: "isFiniteNum u \<Longrightarrow> withinCheck u u"
  by (cases u) (simp_all add: isFiniteNum_def withinCheck_def closeBound_def)

lemma isSameSnapshot_refl: "finiteSnapshot s \<Longrightarrow> isSameSnapshot s s"
  by (cases "snap_w s"; cases "snap_h s")
    (simp_all add: isSameSnapshot_spec finiteSnapshot_def dimEqualSpec_def withinCheck_refl)

lemma restorePositionStyleOnly_heap: "w_heap (restorePositionStyleOnly d e st w) = w_heap w"
  by (simp add: restorePositionStyleOnly_def)

lemma restoreModelSnapshot_heap_cases:
  "w_heap (restoreModelSnapshot v j sj w) =
     (case nodeObject v j of None \<Rightarrow> w_heap w | Some ob' \<Rightarrow> restoreNode sj (w_heap w) ob')"
proof (cases "nodeObject v j")
  case None
  then show ?thesis by (simp add: restoreModelSnapshot_def)
next
  case (Some ob')
  then show ?thesis by (simp add: restoreModelSnapshot_heap)
qed

lemma enforceResolved_model:
  "lockedModelByCanvas (fst (enforceResolved v p j el mw)) = lockedModelByCanvas (fst mw)"
  by (simp add: enforceResolved_def Let_def split: option.splits)

lemma enforceResolved_heap:
  "w_heap (snd (enforceResolved v p j el mw)) = w_heap (snd mw) \<or>
   (\<exists>sj ob'. nodeObject v j = Some ob' \<and>
       w_heap (snd (enforceResolved v p j el mw)) = restoreNode sj (w_heap (snd mw)) ob')"
  by (auto simp add: enforceResolved_def Let_def restorePositionStyleOnly_heap
      restoreModelSnapshot_heap_cases split: option.splits)

lemma enforceResolved_self:
  assumes "lookup2 (lockedModelByCanvas m) p i = Some s"
    and "nodeObject v i = Some ob"
  shows "w_heap (snd (enforceResolved v p i el (m, w))) =
           (if (case readFromNode (w_heap w) ob of
                  None \<Rightarrow> True
                | Some cur \<Rightarrow> \<not> isSameSnapshot_enforce cur s)
            then restoreNode s (w_heap w) ob else w_heap w)"
  using assms
  by (simp add: enforceResolved_def Let_def readModelSnapshot_def restoreModelSnapshot_heap_cases)

lemma enforceNode_cases:
  "resolveEl (w_heap (snd mw)) v j = Inl ex \<Longrightarrow> enforceNode v p j mw = Inl ex"
  "resolveEl (w_heap (snd mw)) v j = Inr None \<Longrightarrow> enforceNode v p j mw = Inr mw"
  "resolveEl (w_heap (snd mw)) v j = Inr (Some el) \<Longrightarrow>
     enforceNode v p j mw =
       Inr (enforceResolved v p j el ((fst mw)\<lparr> nodeIdByEl := (nodeIdByEl (fst mw))(el \<mapsto> j) \<rparr>, snd mw))"
  by (simp_all add: enforceNode_def resolveNodeElById_cases)

lemma enforceNode_returns:
  "resolves (w_heap (snd mw)) v j \<Longrightarrow> \<exists>mw'. enforceNode v p j mw = Inr mw'"
proof -
  assume "resolves (w_heap (snd mw)) v j"
  then obtain r where r: "resolveEl (w_heap (snd mw)) v j = Inr r"
    by (auto simp add: resolves_iff)
  show ?thesis by (cases r) (simp_all add: enforceNode_cases r)
qed

lemma enforceNode_result:
  assumes "enforceNode v p j mw = Inr mw'"
  shows "mw' = mw \<or>
         (\<exists>el. resolveEl (w_heap (snd mw)) v j = Inr (Some el) \<and>
            mw' = enforceResolved v p j el
                    ((fst mw)\<lparr> nodeIdByEl := (nodeIdByEl (fst mw))(el \<mapsto> j) \<rparr>, snd mw))"
proof (cases "resolveEl (w_heap (snd mw)) v j")
  case (Inl ex)
  then show ?thesis using assms by (simp add: enforceNode_cases)
next
  case (Inr r)
  then show ?thesis using assms by (cases r) (auto simp add: enforceNode_cases)
qed

lemma enforceNode_model:
  assumes "enforceNode v p j mw = Inr mw'"
  shows "lockedModelByCanvas (fst mw') = lockedModelByCanvas (fst mw)"
  using enforceNode_result [OF assms] by (auto simp add: enforceResolved_model)

lemma enforceNode_heap:
  assumes "enforceNode v p j mw = Inr mw'"
  shows "w_heap (snd mw') = w_heap (snd mw) \<or>
   (\<exists>sj ob'. nodeObject v j = Some ob' \<and> w_heap (snd mw') = restoreNode sj (w_heap (snd mw)) ob')"
proof -
  from enforceNode_result [OF assms] show ?thesis
  proof
    assume "mw' = mw"
    then show ?thesis by simp
  next
    assume "\<exists>el. resolveEl (w_heap (snd mw)) v j = Inr (Some el) \<and>
            mw' = enforceResolved v p j el
                    ((fst mw)\<lparr> nodeIdByEl := (nodeIdByEl (fst mw))(el \<mapsto> j) \<rparr>, snd mw)"
    then obtain el where
      "mw' = enforceResolved v p j el ((fst mw)\<lparr> nodeIdByEl := (nodeIdByEl (fst mw))(el \<mapsto> j) \<rparr>, snd mw)"
      by blast
    then show ?thesis
      using enforceResolved_heap
        [of v p j el "((fst mw)\<lparr> nodeIdByEl := (nodeIdByEl (fst mw))(el \<mapsto> j) \<rparr>, snd mw)"]
      by simp
  qed
qed

lemma enforceNode_self:
  assumes "resolveEl (w_heap w) v i = Inr (Some el)"
    and "lookup2 (lockedModelByCanvas m) p i = Some s"
    and "nodeObject v i = Some ob"
  shows "\<exists>m'. enforceNode v p i (m, w) =
           Inr (m', snd (enforceResolved v p i el (m\<lparr> nodeIdByEl := (nodeIdByEl m)(el \<mapsto> i) \<rparr>, w)))"
    and "w_heap (snd (enforceResolved v p i el (m\<lparr> nodeIdByEl := (nodeIdByEl m)(el \<mapsto> i) \<rparr>, w))) =
           (if (case readFromNode (w_heap w) ob of
                  None \<Rightarrow> True
                | Some cur \<Rightarrow> \<not> isSameSnapshot_enforce cur s)
            then restoreNode s (w_heap w) ob else w_heap w)"
proof -
  have "enforceNode v p i (m, w) =
          Inr (enforceResolved v p i el (m\<lparr> nodeIdByEl := (nodeIdByEl m)(el \<mapsto> i) \<rparr>, w))"
    using assms(1) enforceNode_cases(3) [of "(m, w)" v i el p] by simp
  then show "\<exists>m'. enforceNode v p i (m, w) =
           Inr (m', snd (enforceResolved v p i el (m\<lparr> nodeIdByEl := (nodeIdByEl m)(el \<mapsto> i) \<rparr>, w)))"
    by (metis prod.collapse)
  show "w_heap (snd (enforceResolved v p i el (m\<lparr> nodeIdByEl := (nodeIdByEl m)(el \<mapsto> i) \<rparr>, w))) =
           (if (case readFromNode (w_heap w) ob of
                  None \<Rightarrow> True
                | Some cur \<Rightarrow> \<not> isSameSnapshot_enforce cur s)
            then restoreNode s (w_heap w) ob else w_heap w)"
    using assms(2,3) by (intro enforceResolved_self) simp_all
qed

lemma enforceNode_sameTypes:
  "enforceNode v p j mw = Inr mw' \<Longrightarrow> sameTypes (w_heap (snd mw)) (w_heap (snd mw'))"
  using enforceNode_heap [of v p j mw mw'] sameTypes_restoreNode sameTypes_refl by auto

lemma sameTypes_resolveEl:
  assumes "sameTypes hp hp'"
  shows "resolveEl hp' v i = resolveEl hp v i"
proof -
  have "hp' ob ''nodeEl'' = hp ob ''nodeEl''" "hp' ob ''el'' = hp ob ''el''"
      "hp' ob ''containerEl'' = hp ob ''containerEl''" "hp' ob ''contentEl'' = hp ob ''contentEl''"
    for ob
    using assms by (simp_all add: sameTypes_def geometryKeys_def)
  then show ?thesis
    by (cases "nodeObject v i") (simp_all add: resolveEl_def)
qed

lemma sameTypes_resolves: "sameTypes hp hp' \<Longrightarrow> resolves hp' v i = resolves hp v i"
  by (simp add: resolves_def sameTypes_resolveEl)
lemma restoreNode_other:
  "Ref a \<notin> set (shapes hp ob') \<Longrightarrow> restoreNode sj hp ob' a = hp a"
proof -
  have "set (bases (snap_mode sj) hp ob') = set (shapes hp ob')"
    by (auto simp add: bases_def shapes_def)
  then show "Ref a \<notin> set (shapes hp ob') \<Longrightarrow> restoreNode sj hp ob' a = hp a"
    by (simp add: restoreNode_def applyBases_other)
qed

lemma readFromNode_agree:
  assumes "\<forall>a. Ref a \<in> set (shapes hp ob) \<longrightarrow> hp' a = hp a"
  shows "readFromNode hp' ob = readFromNode hp ob"
proof -
  have top: "hp' ob = hp ob" using assms by (simp add: shapes_def)
  have nested: "fromObj hp' (hp ob k) mode = fromObj hp (hp ob k) mode"
    if "k = ''pos'' \<or> k = ''rect'' \<or> k = ''data''" for k mode
  proof (cases "hp ob k")
    case (Ref b)
    then have "Ref b \<in> set (shapes hp ob)" using that by (auto simp add: shapes_def)
    then have "hp' b = hp b" using assms by blast
    then show ?thesis unfolding Ref fromObj_def by (simp cong: jsval.case_cong)
  qed (simp_all add: fromObj_def)
  have self: "fromObj hp' (Ref ob) mode = fromObj hp (Ref ob) mode" for mode
    using top by (simp add: fromObj_def cong: jsval.case_cong)
  show ?thesis
    by (simp add: readFromNode_def top nested self)
qed


lemma enforceNode_other:
  assumes step: "enforceNode v p j mw = Inr mw'"
    and sep: "\<forall>ob'. nodeObject v j = Some ob' \<longrightarrow> separate (w_heap (snd mw)) ob ob'"
  shows "readFromNode (w_heap (snd mw')) ob = readFromNode (w_heap (snd mw)) ob"
proof -
  let ?hp = "w_heap (snd mw)"
  from enforceNode_heap [OF step] show ?thesis
  proof
    assume "w_heap (snd mw') = ?hp"
    then show ?thesis by simp
  next
    assume "\<exists>sj ob'. nodeObject v j = Some ob' \<and> w_heap (snd mw') = restoreNode sj ?hp ob'"
    then obtain sj ob' where o: "nodeObject v j = Some ob'"
      and h: "w_heap (snd mw') = restoreNode sj ?hp ob'"
      by blast
    from sep o have "separate ?hp ob ob'" by blast
    then have "\<forall>a. Ref a \<in> set (shapes ?hp ob) \<longrightarrow> restoreNode sj ?hp ob' a = ?hp a"
      by (auto simp add: separate_def restoreNode_other)
    then show ?thesis unfolding h by (rule readFromNode_agree)
  qed
qed

lemma sameTypes_separate: "sameTypes hp hp' \<Longrightarrow> separate hp' ob ob' = separate hp ob ob'"
  by (simp add: separate_def sameTypes_shapes)

lemma enforceNode_establishes:
  assumes el: "resolveEl (w_heap (snd mw)) v i = Inr (Some el)"
    and model: "lookup2 (lockedModelByCanvas (fst mw)) p i = Some s"
    and node: "nodeObject v i = Some ob"
    and shaped: "stillShaped (w_heap (snd mw)) ob s"
    and fin: "finiteSnapshot s"
  shows "\<exists>mw'. enforceNode v p i mw = Inr mw' \<and> geometryHolds (w_heap (snd mw')) ob s"
proof -
  obtain m w where mw: "mw = (m, w)" by (cases mw)
  let ?hp = "w_heap w"
  let ?w' = "snd (enforceResolved v p i el (m\<lparr> nodeIdByEl := (nodeIdByEl m)(el \<mapsto> i) \<rparr>, w))"
  have el': "resolveEl ?hp v i = Inr (Some el)" and model': "lookup2 (lockedModelByCanvas m) p i = Some s"
    using el model by (simp_all add: mw)
  note self = enforceNode_self [OF el' model' node]
  from self(1) obtain m' where run: "enforceNode v p i mw = Inr (m', ?w')"
    unfolding mw by blast
  have "geometryHolds (w_heap ?w') ob s"
  proof (cases "case readFromNode ?hp ob of None \<Rightarrow> True
                | Some cur \<Rightarrow> \<not> isSameSnapshot_enforce cur s")
    case True
    then have "w_heap ?w' = restoreNode s ?hp ob"
      using self(2) by simp
    moreover have "readFromNode (restoreNode s ?hp ob) ob = Some s"
      using shaped by (intro restoreNode_readback) (simp add: mw)
    ultimately show ?thesis
      using fin by (simp add: geometryHolds_def isSameSnapshot_refl)
  next
    case False
    then have "w_heap ?w' = ?hp" using self(2) by simp
    moreover from False obtain cur where "readFromNode ?hp ob = Some cur" "isSameSnapshot cur s"
      by (auto simp add: isSameSnapshot_enforce_eq split: option.splits)
    ultimately show ?thesis by (auto simp add: geometryHolds_def)
  qed
  then show ?thesis using run by simp
qed

lemma foldE_enforceNode_holds:
  assumes "lookup2 (lockedModelByCanvas (fst mw)) p i = Some s"
    and "nodeObject v i = Some ob"
    and "resolveEl (w_heap (snd mw)) v i = Inr (Some el)"
    and "stillShaped (w_heap (snd mw)) ob s"
    and "\<forall>j \<in> set ids. \<forall>ob'. j \<noteq> i \<and> nodeObject v j = Some ob' \<longrightarrow>
           separate (w_heap (snd mw)) ob ob'"
    and "i \<in> set ids \<or> geometryHolds (w_heap (snd mw)) ob s"
    and "\<forall>j \<in> set ids. resolves (w_heap (snd mw)) v j"
    and "finiteSnapshot s"
  shows "\<exists>mw'. foldE (enforceNode v p) ids mw = Inr mw' \<and> geometryHolds (w_heap (snd mw')) ob s"
  using assms(1-7)
proof (induction ids arbitrary: mw)
  case Nil
  then show ?case by simp
next
  case (Cons j ids)
  have "resolves (w_heap (snd mw)) v j" using Cons.prems(7) by simp
  then obtain mw1 where step: "enforceNode v p j mw = Inr mw1"
    using enforceNode_returns by blast
  have st: "sameTypes (w_heap (snd mw)) (w_heap (snd mw1))"
    using step by (rule enforceNode_sameTypes)
  have model': "lookup2 (lockedModelByCanvas (fst mw1)) p i = Some s"
    using Cons.prems(1) enforceNode_model [OF step] by simp
  have el': "resolveEl (w_heap (snd mw1)) v i = Inr (Some el)"
    using Cons.prems(3) by (simp add: sameTypes_resolveEl [OF st])
  have shaped': "stillShaped (w_heap (snd mw1)) ob s"
    using st Cons.prems(4) by (rule sameTypes_stillShaped)
  have sep': "\<forall>k \<in> set ids. \<forall>ob'. k \<noteq> i \<and> nodeObject v k = Some ob' \<longrightarrow>
           separate (w_heap (snd mw1)) ob ob'"
    using Cons.prems(5) by (simp add: sameTypes_separate [OF st])
  have res': "\<forall>k \<in> set ids. resolves (w_heap (snd mw1)) v k"
    using Cons.prems(7) by (simp add: sameTypes_resolves [OF st])
  have start': "i \<in> set ids \<or> geometryHolds (w_heap (snd mw1)) ob s"
  proof (cases "j = i")
    case True
    from enforceNode_establishes [OF Cons.prems(3) Cons.prems(1) Cons.prems(2) Cons.prems(4) assms(8)]
    obtain mw' where "enforceNode v p i mw = Inr mw'" "geometryHolds (w_heap (snd mw')) ob s"
      by blast
    then show ?thesis using True step by simp
  next
    case False
    show ?thesis
    proof (cases "i \<in> set ids")
      case True
      then show ?thesis by simp
    next
      case notin: False
      then have held: "geometryHolds (w_heap (snd mw)) ob s"
        using Cons.prems(6) False by auto
      have "\<forall>ob'. nodeObject v j = Some ob' \<longrightarrow> separate (w_heap (snd mw)) ob ob'"
        using Cons.prems(5) False by simp
      with step have "readFromNode (w_heap (snd mw1)) ob = readFromNode (w_heap (snd mw)) ob"
        by (rule enforceNode_other)
      then show ?thesis using held by (simp add: geometryHolds_def)
    qed
  qed
  have "\<exists>mw'. foldE (enforceNode v p) ids mw1 = Inr mw' \<and> geometryHolds (w_heap (snd mw')) ob s"
    using model' Cons.prems(2) el' shaped' sep' start' res' by (rule Cons.IH)
  then show ?case using step by simp
qed

lemma enforce_pass_holds:
  assumes view: "observedView m = Some v"
    and path: "observedCanvasPath m = Some p" "p \<noteq> []"
    and locked: "nodeId \<in> set (lockedIdsOf m p)"
    and saved: "lookup2 (lockedModelByCanvas m) p nodeId = Some s"
    and node: "nodeObject v nodeId = Some ob"
    and el: "resolveEl (w_heap w) v nodeId = Inr (Some el)"
    and noThrow: "\<forall>j \<in> set (lockedIdsOf m p). resolves (w_heap w) v j"
    and fin: "finiteSnapshot s"
    and shaped: "stillShaped (w_heap w) ob s"
    and sep: "\<forall>j \<in> set (lockedIdsOf m p). \<forall>ob'. j \<noteq> nodeId \<and> nodeObject v j = Some ob' \<longrightarrow>
               separate (w_heap w) ob ob'"
  shows "\<exists>mw'. enforceLockedNodesOnce (m, w) = Inr mw' \<and> geometryHolds (w_heap (snd mw')) ob s"
proof -
  from locked have "lockedIdsOf m p \<noteq> []" by auto
  then have run: "enforceLockedNodesOnce (m, w) = foldE (enforceNode v p) (lockedIdsOf m p) (m, w)"
    using view path by (simp add: enforceLockedNodesOnce_def Let_def)
  show ?thesis
    unfolding run using saved node el shaped sep locked noThrow fin
    by (intro foldE_enforceNode_holds [where i = nodeId and el = el]) simp_all
qed

text \<open>
  C1, as amended. On the observed canvas, for a locked node with a finite geometry
  snapshot whose element resolves, whose geometry is still read from the shape the
  snapshot records with the same optional dimensions present, and whose shapes share no
  object with the shapes of another locked node, and when resolving no locked id
  throws: one call of \<open>enforceLockedNodesOnce\<close> returns, and after it the node's
  geometry is readable and passes the divergence check against the snapshot (each
  number is finite and differs from the snapshot's by less than \<open>closeBound\<close>),
  whatever values the mutations gave to its coordinates.
\<close>

theorem enforceLockedNodesOnce_restores:
  assumes view: "observedView m = Some v"
    and path: "observedCanvasPath m = Some p" "p \<noteq> []"
    and locked: "nodeId \<in> set (lockedIdsOf m p)"
    and saved: "lookup2 (lockedModelByCanvas m) p nodeId = Some s"
    and node: "nodeObject v nodeId = Some ob"
    and el: "resolveEl (w_heap w) v nodeId = Inr (Some el)"
    and noThrow: "\<forall>j \<in> set (lockedIdsOf m p). resolves (w_heap w) v j"
    and fin: "finiteSnapshot s"
    and shaped: "stillShaped (w_heap w) ob s"
    and sep: "\<forall>j \<in> set (lockedIdsOf m p). \<forall>ob'. j \<noteq> nodeId \<and> nodeObject v j = Some ob' \<longrightarrow>
               separate (w_heap w) ob ob'"
  shows "\<exists>m' w' cur.
           enforceLockedNodesOnce (m, w) = Inr (m', w') \<and>
           readModelSnapshot (w_heap w') v nodeId = Some cur \<and>
           isSameSnapshot cur s \<and>
           withinCheck (snap_x cur) (snap_x s) \<and> withinCheck (snap_y cur) (snap_y s) \<and>
           dimEqualSpec (snap_w cur) (snap_w s) \<and> dimEqualSpec (snap_h cur) (snap_h s)"
proof -
  from enforce_pass_holds [OF view path locked saved node el noThrow fin shaped sep]
  obtain mw' where run: "enforceLockedNodesOnce (m, w) = Inr mw'"
    and holds: "geometryHolds (w_heap (snd mw')) ob s"
    by blast
  from holds obtain cur where cur: "readFromNode (w_heap (snd mw')) ob = Some cur" "isSameSnapshot cur s"
    unfolding geometryHolds_def by blast
  have "enforceLockedNodesOnce (m, w) = Inr (fst mw', snd mw')" using run by simp
  moreover have "readModelSnapshot (w_heap (snd mw')) v nodeId = Some cur"
    using cur(1) node by (simp add: readModelSnapshot_def)
  ultimately show ?thesis
    using cur(2) isSameSnapshot_spec [of cur s] by blast
qed

lemma ex1_facts:
  "observedView exManager1 = Some exView"
  "observedCanvasPath exManager1 = Some ''c.canvas''"
  "lockedIdsOf exManager1 ''c.canvas'' = [''n1'']"
  "lookup2 (lockedModelByCanvas exManager1) ''c.canvas'' ''n1'' = Some exSaved"
  "nodeObject exView ''n1'' = Some 1"
  by (simp_all add: exManager1_def exManager_def lockedIdsOf_def lookup2_def nodeObject_def
      getCanvasFromView_def exView_def)

lemma ex_resolveEl_moved:
  "resolveEl (w_heap exWorldMoved) exView ''n1'' = Inr (Some 10)"
  "resolveEl (w_heap exWorldReshaped) exView ''n1'' = Inr (Some 10)"
  "resolveEl (w_heap exWorldMoved) exView [] = Inl SyntaxError"
  by (simp_all add: resolveEl_def nodeObject_def getCanvasFromView_def exView_def exHeap_def
      exDom_def toCanvasNode_def Let_def exWorldMoved_def exWorldReshaped_def setProp_def
      selectors_def)

lemma ex_read_moved:
  "readFromNode (w_heap exWorldMoved) 1 =
     Some \<lparr> snap_mode = Pos, snap_x = Finite 55, snap_y = Finite 20,
            snap_w = Some (Finite 99), snap_h = None \<rparr>"
  by (simp add: readFromNode_def orElse_def fromObj_def pickDim_def exHeap_def exWorldMoved_def
      setProp_def)

lemma exSaved_finite: "finiteSnapshot exSaved"
  by (simp add: finiteSnapshot_def isFiniteNum_def exSaved_def)

theorem enforceLockedNodesOnce_restores_witness:
  "observedView exManager1 = Some exView \<and>
   observedCanvasPath exManager1 = Some ''c.canvas'' \<and>
   lockedIdsOf exManager1 ''c.canvas'' = [''n1''] \<and>
   lookup2 (lockedModelByCanvas exManager1) ''c.canvas'' ''n1'' = Some exSaved \<and>
   readModelSnapshot (w_heap exWorldMoved) exView ''n1'' =
     Some \<lparr> snap_mode = Pos, snap_x = Finite 55, snap_y = Finite 20,
            snap_w = Some (Finite 99), snap_h = None \<rparr> \<and>
   (\<exists>m' w' cur. enforceLockedNodesOnce (exManager1, exWorldMoved) = Inr (m', w') \<and>
          readModelSnapshot (w_heap w') exView ''n1'' = Some cur \<and>
          withinCheck (snap_x cur) (Finite 10) \<and> withinCheck (snap_y cur) (Finite 20) \<and>
          dimEqualSpec (snap_w cur) (Some (Finite 30)) \<and> dimEqualSpec (snap_h cur) None)"
proof -
  have ne: "''c.canvas'' \<noteq> ([] :: string)" by simp
  have locked: "''n1'' \<in> set (lockedIdsOf exManager1 ''c.canvas'')"
    by (simp add: ex1_facts)
  have shaped: "stillShaped (w_heap exWorldMoved) 1 exSaved"
    unfolding stillShaped_def using ex_read_moved by (simp add: exSaved_def)
  have sep: "\<forall>j \<in> set (lockedIdsOf exManager1 ''c.canvas''). \<forall>ob'.
               j \<noteq> ''n1'' \<and> nodeObject exView j = Some ob' \<longrightarrow>
               separate (w_heap exWorldMoved) 1 ob'"
    by (simp add: ex1_facts)
  have res: "\<forall>j \<in> set (lockedIdsOf exManager1 ''c.canvas''). resolves (w_heap exWorldMoved) exView j"
    by (simp add: ex1_facts resolves_def ex_resolveEl_moved)
  have rd: "readModelSnapshot (w_heap exWorldMoved) exView ''n1'' =
     Some \<lparr> snap_mode = Pos, snap_x = Finite 55, snap_y = Finite 20,
            snap_w = Some (Finite 99), snap_h = None \<rparr>"
    using ex_read_moved by (simp add: readModelSnapshot_def ex1_facts)
  have "\<exists>m' w' cur. enforceLockedNodesOnce (exManager1, exWorldMoved) = Inr (m', w') \<and>
          readModelSnapshot (w_heap w') exView ''n1'' = Some cur \<and>
          isSameSnapshot cur exSaved \<and>
          withinCheck (snap_x cur) (snap_x exSaved) \<and> withinCheck (snap_y cur) (snap_y exSaved) \<and>
          dimEqualSpec (snap_w cur) (snap_w exSaved) \<and> dimEqualSpec (snap_h cur) (snap_h exSaved)"
    using ex1_facts(1) ex1_facts(2) ne locked ex1_facts(4) ex1_facts(5) ex_resolveEl_moved(1)
      res exSaved_finite shaped sep
    by (rule enforceLockedNodesOnce_restores)
  then have "\<exists>m' w' cur. enforceLockedNodesOnce (exManager1, exWorldMoved) = Inr (m', w') \<and>
          readModelSnapshot (w_heap w') exView ''n1'' = Some cur \<and>
          withinCheck (snap_x cur) (Finite 10) \<and> withinCheck (snap_y cur) (Finite 20) \<and>
          dimEqualSpec (snap_w cur) (Some (Finite 30)) \<and> dimEqualSpec (snap_h cur) None"
    by (simp add: exSaved_def) blast
  then show ?thesis
    using ex1_facts(1-4) rd by simp
qed


lemma enforce_single:
  assumes "observedView m = Some v" and "observedCanvasPath m = Some p" and "p \<noteq> []"
    and "lockedIdsOf m p = [i]"
  shows "enforceLockedNodesOnce (m, w) =
           (case enforceNode v p i (m, w) of Inl ex \<Rightarrow> Inl (ex, m, w) | Inr mw' \<Rightarrow> Inr mw')"
  using assms by (simp add: enforceLockedNodesOnce_def Let_def split: sum.splits)

lemma enforce_single_restores:
  assumes "observedView m = Some v" and "observedCanvasPath m = Some p" and "p \<noteq> []"
    and "lockedIdsOf m p = [i]"
    and "resolveEl (w_heap w) v i = Inr (Some el)"
    and "lookup2 (lockedModelByCanvas m) p i = Some s"
    and "nodeObject v i = Some ob"
  shows "\<exists>st. enforceLockedNodesOnce (m, w) = Inr st"
    and "w_heap (snd (stateOf (enforceLockedNodesOnce (m, w)))) =
           (if (case readFromNode (w_heap w) ob of
                  None \<Rightarrow> True
                | Some cur \<Rightarrow> \<not> isSameSnapshot cur s)
            then restoreNode s (w_heap w) ob else w_heap w)"
proof -
  note self = enforceNode_self [OF assms(5,6,7)]
  from self(1) obtain m' where
    step: "enforceNode v p i (m, w) =
             Inr (m', snd (enforceResolved v p i el (m\<lparr> nodeIdByEl := (nodeIdByEl m)(el \<mapsto> i) \<rparr>, w)))"
    by blast
  have run: "enforceLockedNodesOnce (m, w) =
               Inr (m', snd (enforceResolved v p i el (m\<lparr> nodeIdByEl := (nodeIdByEl m)(el \<mapsto> i) \<rparr>, w)))"
    unfolding enforce_single [OF assms(1-4)] step by simp
  then show "\<exists>st. enforceLockedNodesOnce (m, w) = Inr st" by blast
  show "w_heap (snd (stateOf (enforceLockedNodesOnce (m, w)))) =
           (if (case readFromNode (w_heap w) ob of
                  None \<Rightarrow> True
                | Some cur \<Rightarrow> \<not> isSameSnapshot cur s)
            then restoreNode s (w_heap w) ob else w_heap w)"
    unfolding run using self(2) by (simp add: isSameSnapshot_enforce_eq cong: option.case_cong)
qed

text \<open>A locked node whose element does not resolve is skipped by the pass.\<close>

lemma enforce_skips_unresolved_node:
  "resolveEl (w_heap exWorldDetached) exView ''n1'' = Inr None \<and>
   enforceLockedNodesOnce (exManager1, exWorldDetached) = Inr (exManager1, exWorldDetached) \<and>
   readModelSnapshot (w_heap exWorldDetached) exView ''n1'' =
     Some \<lparr> snap_mode = Pos, snap_x = Finite 55, snap_y = Finite 20,
            snap_w = Some (Finite 99), snap_h = None \<rparr>"
proof -
  have r: "resolveEl (w_heap exWorldDetached) exView ''n1'' = Inr None"
    by (simp add: resolveEl_def nodeObject_def getCanvasFromView_def exView_def exHeap_def
      exDom_def toCanvasNode_def Let_def exWorldMoved_def exWorldDetached_def setProp_def
      selectors_def)
  have ne: "''c.canvas'' \<noteq> ([] :: string)" by simp
  have h: "enforceLockedNodesOnce (exManager1, exWorldDetached) = Inr (exManager1, exWorldDetached)"
    unfolding enforce_single [OF ex1_facts(1) ex1_facts(2) ne ex1_facts(3)]
    using enforceNode_cases(2) [of "(exManager1, exWorldDetached)" exView "''n1''" "''c.canvas''"] r
    by simp
  have rd: "readFromNode (w_heap exWorldDetached) 1 =
     Some \<lparr> snap_mode = Pos, snap_x = Finite 55, snap_y = Finite 20,
            snap_w = Some (Finite 99), snap_h = None \<rparr>"
    by (simp add: readFromNode_def orElse_def fromObj_def pickDim_def exHeap_def exWorldMoved_def
      exWorldDetached_def setProp_def)
  show ?thesis using r h rd by (simp add: readModelSnapshot_def ex1_facts)
qed

text \<open>
  When two locked ids share a node object, the later one in the list wins: the pass
  moves an unmoved \<open>n1\<close> to the snapshot of \<open>n2\<close>.
\<close>

lemma enforce_shared_object:
  "readModelSnapshot (w_heap exWorld) exViewShared ''n1'' = Some exSaved \<and>
   \<not> separate (w_heap exWorld) 1 1 \<and>
   readModelSnapshot (w_heap (snd (stateOf (enforceLockedNodesOnce (exManagerShared, exWorld)))))
       exViewShared ''n1''
     = Some (exSaved\<lparr> snap_x := Finite 500 \<rparr>)"
proof -
  have facts: "observedView exManagerShared = Some exViewShared"
      "observedCanvasPath exManagerShared = Some ''c.canvas''"
      "lockedIdsOf exManagerShared ''c.canvas'' = [''n1'', ''n2'']"
      "lookup2 (lockedModelByCanvas exManagerShared) ''c.canvas'' ''n1'' = Some exSaved"
      "lookup2 (lockedModelByCanvas exManagerShared) ''c.canvas'' ''n2'' = Some (exSaved\<lparr> snap_x := Finite 500 \<rparr>)"
      "nodeObject exViewShared ''n1'' = Some 1" "nodeObject exViewShared ''n2'' = Some 1"
    by (simp_all add: exManagerShared_def exManager_def lockedIdsOf_def lookup2_def nodeObject_def
        getCanvasFromView_def exViewShared_def exView_def)
  have hw: "w_heap exWorld = exHeap" by (simp add: exWorld_def)
  have el: "resolveEl (w_heap exWorld) exViewShared ''n1'' = Inr (Some 10)"
      "resolveEl exHeap exViewShared ''n2'' = Inr (Some 10)"
    by (simp_all add: resolveEl_def nodeObject_def getCanvasFromView_def exViewShared_def exView_def
        exHeap_def exDom_def toCanvasNode_def Let_def hw)
  have rd: "readFromNode exHeap 1 = Some exSaved"
    by (simp add: readFromNode_def orElse_def fromObj_def pickDim_def exHeap_def exSaved_def)
  note s1 = enforceNode_self [OF el(1) facts(4) facts(6)]
  from s1(1) obtain m1 where step1:
    "enforceNode exViewShared ''c.canvas'' ''n1'' (exManagerShared, exWorld) =
       Inr (m1, snd (enforceResolved exViewShared ''c.canvas'' ''n1'' 10
                      (exManagerShared\<lparr> nodeIdByEl := (nodeIdByEl exManagerShared)(10 \<mapsto> ''n1'') \<rparr>, exWorld)))"
    by blast
  define w1 where "w1 = snd (enforceResolved exViewShared ''c.canvas'' ''n1'' 10
                      (exManagerShared\<lparr> nodeIdByEl := (nodeIdByEl exManagerShared)(10 \<mapsto> ''n1'') \<rparr>, exWorld))"
  have h1: "w_heap w1 = exHeap"
    unfolding w1_def s1(2) using rd
    by (simp add: hw isSameSnapshot_enforce_eq isSameSnapshot_refl exSaved_finite)
  have m1: "lookup2 (lockedModelByCanvas m1) ''c.canvas'' ''n2'' = Some (exSaved\<lparr> snap_x := Finite 500 \<rparr>)"
    using enforceNode_model [OF step1] facts(5) by simp
  have el2: "resolveEl (w_heap w1) exViewShared ''n2'' = Inr (Some 10)"
    using el(2) by (simp add: h1)
  note s2 = enforceNode_self [OF el2 m1 facts(7)]
  from s2(1) obtain m2 where step2:
    "enforceNode exViewShared ''c.canvas'' ''n2'' (m1, w1) =
       Inr (m2, snd (enforceResolved exViewShared ''c.canvas'' ''n2'' 10
                      (m1\<lparr> nodeIdByEl := (nodeIdByEl m1)(10 \<mapsto> ''n2'') \<rparr>, w1)))"
    by blast
  have differs: "\<not> isSameSnapshot_enforce exSaved (exSaved\<lparr> snap_x := Finite 500 \<rparr>)"
    by (simp add: isSameSnapshot_enforce_eq isSameSnapshot_spec exSaved_def withinCheck_def
        closeBound_def)
  have h2: "w_heap (snd (enforceResolved exViewShared ''c.canvas'' ''n2'' 10
                      (m1\<lparr> nodeIdByEl := (nodeIdByEl m1)(10 \<mapsto> ''n2'') \<rparr>, w1))) =
              restoreNode (exSaved\<lparr> snap_x := Finite 500 \<rparr>) exHeap 1"
    unfolding s2(2) using rd differs by (simp add: h1)
  have run: "enforceLockedNodesOnce (exManagerShared, exWorld) =
      Inr (m2, snd (enforceResolved exViewShared ''c.canvas'' ''n2'' 10
                      (m1\<lparr> nodeIdByEl := (nodeIdByEl m1)(10 \<mapsto> ''n2'') \<rparr>, w1)))"
    using step1 step2 by (simp add: enforceLockedNodesOnce_def facts Let_def w1_def)
  have after: "readFromNode (restoreNode (exSaved\<lparr> snap_x := Finite 500 \<rparr>) exHeap 1) 1 =
                 Some (exSaved\<lparr> snap_x := Finite 500 \<rparr>)"
    by (simp add: restoreNode_def bases_def applyTo_def writeDim_def Let_def setProp_def
        readFromNode_def orElse_def fromObj_def pickDim_def exHeap_def exSaved_def)
  have final: "readModelSnapshot (w_heap (snd (stateOf (enforceLockedNodesOnce (exManagerShared, exWorld)))))
       exViewShared ''n1'' = Some (exSaved\<lparr> snap_x := Finite 500 \<rparr>)"
    unfolding run using after by (simp add: readModelSnapshot_def facts h2)
  have before: "readModelSnapshot (w_heap exWorld) exViewShared ''n1'' = Some exSaved"
    using rd by (simp add: readModelSnapshot_def facts hw)
  have shared: "\<not> separate (w_heap exWorld) 1 1"
    by (auto simp add: separate_def shapes_def)
  show ?thesis using before shared final by simp
qed

lemma ex_enforce_reshaped:
  "\<exists>st. enforceLockedNodesOnce (exManager1, exWorldReshaped) = Inr st"
  "w_heap (snd (stateOf (enforceLockedNodesOnce (exManager1, exWorldReshaped)))) =
     restoreNode exSaved (w_heap exWorldReshaped) 1"
proof -
  have ne: "''c.canvas'' \<noteq> ([] :: string)" by simp
  have rd: "readFromNode (w_heap exWorldReshaped) 1 =
     Some \<lparr> snap_mode = Top, snap_x = Finite 100, snap_y = Finite 200, snap_w = None, snap_h = None \<rparr>"
    by (simp add: readFromNode_def orElse_def fromObj_def pickDim_def exHeap_def
        exWorldReshaped_def setProp_def)
  have diff: "\<not> isSameSnapshot
      \<lparr> snap_mode = Top, snap_x = Finite 100, snap_y = Finite 200, snap_w = None, snap_h = None \<rparr> exSaved"
    by (simp add: isSameSnapshot_spec exSaved_def withinCheck_def closeBound_def)
  note t = enforce_single_restores [OF ex1_facts(1) ex1_facts(2) ne ex1_facts(3)
      ex_resolveEl_moved(2) ex1_facts(4) ex1_facts(5)]
  show "\<exists>st. enforceLockedNodesOnce (exManager1, exWorldReshaped) = Inr st" by (rule t(1))
  show "w_heap (snd (stateOf (enforceLockedNodesOnce (exManager1, exWorldReshaped)))) =
     restoreNode exSaved (w_heap exWorldReshaped) 1"
    unfolding t(2) using rd diff by simp
qed

text \<open>
  For arbitrary mutations the property of C1 fails, in two ways. When the host gives the
  node object numeric \<open>x\<close> and \<open>y\<close> of its own, the geometry is read from the
  object itself while the restore writes into the recorded \<open>pos\<close> shape and stops
  there. And when the node's element no longer resolves, the pass skips the node, so
  that a plain move of it (\<open>x\<close> from 10 to 55) stays. Both passes return.
\<close>

theorem enforce_any_mutation_counterexample:
  "lockedIdsOf exManager1 ''c.canvas'' = [''n1''] \<and>
   lookup2 (lockedModelByCanvas exManager1) ''c.canvas'' ''n1'' = Some exSaved \<and>
   readModelSnapshot exHeap exView ''n1'' = Some exSaved \<and>
   (\<exists>st. enforceLockedNodesOnce (exManager1, exWorldReshaped) = Inr st) \<and>
   readModelSnapshot (w_heap (snd (stateOf (enforceLockedNodesOnce (exManager1, exWorldReshaped)))))
       exView ''n1''
     = Some \<lparr> snap_mode = Top, snap_x = Finite 100, snap_y = Finite 200, snap_w = None, snap_h = None \<rparr> \<and>
   \<not> isSameSnapshot
       \<lparr> snap_mode = Top, snap_x = Finite 100, snap_y = Finite 200, snap_w = None, snap_h = None \<rparr>
       exSaved \<and>
   \<not> withinTolerance (Finite 100) (snap_x exSaved) \<and>
   (\<exists>st. enforceLockedNodesOnce (exManager1, exWorldDetached) = Inr st) \<and>
   readModelSnapshot (w_heap (snd (stateOf (enforceLockedNodesOnce (exManager1, exWorldDetached)))))
       exView ''n1''
     = Some \<lparr> snap_mode = Pos, snap_x = Finite 55, snap_y = Finite 20,
              snap_w = Some (Finite 99), snap_h = None \<rparr> \<and>
   \<not> isSameSnapshot
       \<lparr> snap_mode = Pos, snap_x = Finite 55, snap_y = Finite 20,
         snap_w = Some (Finite 99), snap_h = None \<rparr>
       exSaved \<and>
   \<not> withinTolerance (Finite 55) (snap_x exSaved)"
proof -
  have rd0: "readModelSnapshot exHeap exView ''n1'' = Some exSaved"
    by (simp add: ex_read exSaved_def)
  have after: "readFromNode (restoreNode exSaved (w_heap exWorldReshaped) 1) 1 =
      Some \<lparr> snap_mode = Top, snap_x = Finite 100, snap_y = Finite 200, snap_w = None, snap_h = None \<rparr>"
    by (simp add: restoreNode_def bases_def applyTo_def writeDim_def Let_def setProp_def
        readFromNode_def orElse_def fromObj_def pickDim_def exHeap_def exWorldReshaped_def
        exSaved_def)
  have rd: "readModelSnapshot (w_heap (snd (stateOf (enforceLockedNodesOnce (exManager1, exWorldReshaped)))))
       exView ''n1''
     = Some \<lparr> snap_mode = Top, snap_x = Finite 100, snap_y = Finite 200, snap_w = None, snap_h = None \<rparr>"
    using after by (simp add: readModelSnapshot_def ex1_facts ex_enforce_reshaped(2))
  have diff: "\<not> isSameSnapshot
      \<lparr> snap_mode = Top, snap_x = Finite 100, snap_y = Finite 200, snap_w = None, snap_h = None \<rparr> exSaved"
    by (simp add: isSameSnapshot_spec exSaved_def withinCheck_def closeBound_def)
  have far: "\<not> withinTolerance (Finite 100) (snap_x exSaved)"
    by (simp add: exSaved_def withinTolerance_def)
  have ret2: "\<exists>st. enforceLockedNodesOnce (exManager1, exWorldDetached) = Inr st"
    using enforce_skips_unresolved_node by blast
  have skipped: "readModelSnapshot (w_heap (snd (stateOf (enforceLockedNodesOnce (exManager1, exWorldDetached)))))
       exView ''n1''
     = Some \<lparr> snap_mode = Pos, snap_x = Finite 55, snap_y = Finite 20,
              snap_w = Some (Finite 99), snap_h = None \<rparr>"
    using enforce_skips_unresolved_node by simp
  have diff2: "\<not> isSameSnapshot
      \<lparr> snap_mode = Pos, snap_x = Finite 55, snap_y = Finite 20,
        snap_w = Some (Finite 99), snap_h = None \<rparr> exSaved"
    by (simp add: isSameSnapshot_spec exSaved_def withinCheck_def closeBound_def)
  have far2: "\<not> withinTolerance (Finite 55) (snap_x exSaved)"
    by (simp add: exSaved_def withinTolerance_def)
  show ?thesis
    using ex1_facts(3,4) rd0 ex_enforce_reshaped(1) rd diff far ret2 skipped diff2 far2 by simp
qed

text \<open>
  Two more ways in which a pass leaves a locked node away from its snapshot. A locked id
  that makes a selector invalid (here the empty id) ends the pass with the exception
  before the ids after it are looked at: \<open>n1\<close>, moved to \<open>x = 55\<close>, stays there. And
  a snapshot that holds a \<open>NaN\<close> is written back on every pass and never passes the
  divergence check, not even against itself.
\<close>

lemma enforce_aborts_on_invalid_selector:
  "lockedIdsOf exManagerEmptyId ''c.canvas'' = [[], ''n1''] \<and>
   lookup2 (lockedModelByCanvas exManagerEmptyId) ''c.canvas'' ''n1'' = Some exSaved \<and>
   resolveEl (w_heap exWorldMoved) exView ''n1'' = Inr (Some 10) \<and>
   enforceLockedNodesOnce (exManagerEmptyId, exWorldMoved) =
     Inl (SyntaxError, exManagerEmptyId, exWorldMoved) \<and>
   readModelSnapshot (w_heap exWorldMoved) exView ''n1'' =
     Some \<lparr> snap_mode = Pos, snap_x = Finite 55, snap_y = Finite 20,
            snap_w = Some (Finite 99), snap_h = None \<rparr>"
proof -
  have facts: "observedView exManagerEmptyId = Some exView"
      "observedCanvasPath exManagerEmptyId = Some ''c.canvas''"
      "lockedIdsOf exManagerEmptyId ''c.canvas'' = [[], ''n1'']"
      "lookup2 (lockedModelByCanvas exManagerEmptyId) ''c.canvas'' ''n1'' = Some exSaved"
    by (simp_all add: exManagerEmptyId_def exManager1_def exManager_def lockedIdsOf_def lookup2_def)
  have "enforceNode exView ''c.canvas'' [] (exManagerEmptyId, exWorldMoved) = Inl SyntaxError"
    using enforceNode_cases(1) [of "(exManagerEmptyId, exWorldMoved)" exView "[]" SyntaxError "''c.canvas''"]
      ex_resolveEl_moved(3) by simp
  then have run: "enforceLockedNodesOnce (exManagerEmptyId, exWorldMoved) =
     Inl (SyntaxError, exManagerEmptyId, exWorldMoved)"
    by (simp add: enforceLockedNodesOnce_def facts Let_def)
  have rd: "readModelSnapshot (w_heap exWorldMoved) exView ''n1'' =
     Some \<lparr> snap_mode = Pos, snap_x = Finite 55, snap_y = Finite 20,
            snap_w = Some (Finite 99), snap_h = None \<rparr>"
    using ex_read_moved by (simp add: readModelSnapshot_def ex1_facts)
  show ?thesis using facts(3,4) ex_resolveEl_moved(1) run rd by simp
qed

lemma enforce_nan_snapshot:
  "lookup2 (lockedModelByCanvas exManagerNaN) ''c.canvas'' ''n1'' = Some exSavedNaN \<and>
   \<not> finiteSnapshot exSavedNaN \<and>
   readModelSnapshot (w_heap (snd (stateOf (enforceLockedNodesOnce (exManagerNaN, exWorld)))))
       exView ''n1'' = Some exSavedNaN \<and>
   \<not> isSameSnapshot exSavedNaN exSavedNaN"
proof -
  have facts: "observedView exManagerNaN = Some exView"
      "observedCanvasPath exManagerNaN = Some ''c.canvas''"
      "lockedIdsOf exManagerNaN ''c.canvas'' = [''n1'']"
      "lookup2 (lockedModelByCanvas exManagerNaN) ''c.canvas'' ''n1'' = Some exSavedNaN"
    by (simp_all add: exManagerNaN_def exManager1_def exManager_def lockedIdsOf_def lookup2_def)
  have ne: "''c.canvas'' \<noteq> ([] :: string)" by simp
  have hw: "w_heap exWorld = exHeap" by (simp add: exWorld_def)
  have el: "resolveEl (w_heap exWorld) exView ''n1'' = Inr (Some 10)"
    by (simp add: hw ex_resolveEl)
  have rd: "readFromNode (w_heap exWorld) 1 = Some exSaved"
    by (simp add: hw readFromNode_def orElse_def fromObj_def pickDim_def exHeap_def exSaved_def)
  have nan: "\<not> isSameSnapshot s exSavedNaN" for s
    by (simp add: isSameSnapshot_spec exSavedNaN_def withinCheck_def split: jsnum.splits)
  have nf: "\<not> finiteSnapshot exSavedNaN"
    by (simp add: finiteSnapshot_def exSavedNaN_def isFiniteNum_def)
  have shaped: "stillShaped (w_heap exWorld) 1 exSavedNaN"
    unfolding stillShaped_def using rd by (simp add: exSaved_def exSavedNaN_def)
  note t = enforce_single_restores [OF facts(1) facts(2) ne facts(3) el facts(4) ex1_facts(5)]
  have "w_heap (snd (stateOf (enforceLockedNodesOnce (exManagerNaN, exWorld)))) =
          restoreNode exSavedNaN (w_heap exWorld) 1"
    unfolding t(2) using rd nan by simp
  then have "readModelSnapshot (w_heap (snd (stateOf (enforceLockedNodesOnce (exManagerNaN, exWorld)))))
       exView ''n1'' = Some exSavedNaN"
    using restoreNode_readback [OF shaped] by (simp add: readModelSnapshot_def ex1_facts)
  then show ?thesis using facts(4) nf nan by simp
qed


subsection \<open>The restore throttle\<close>

lemma lookup2_empty_canvas:
  "mm p = None \<Longrightarrow> lookup2 (mm(p \<mapsto> Map.empty)) p' k = lookup2 mm p' k"
  by (simp add: lookup2_def)

lemma shouldThrottleRestore_result:
  "fst (shouldThrottleRestore p nodeId now m) = (now - lastRestoreOf m p nodeId < 50)"
  "lookup2 (lastRestoreAtByCanvas (snd (shouldThrottleRestore p nodeId now m))) p nodeId =
     (if now - lastRestoreOf m p nodeId < 50 then lookup2 (lastRestoreAtByCanvas m) p nodeId
      else Some now)"
  "\<exists>L. snd (shouldThrottleRestore p nodeId now m) = m\<lparr> lastRestoreAtByCanvas := L \<rparr>"
proof -
  let ?m0 = "if lastRestoreAtByCanvas m p = None
             then m\<lparr> lastRestoreAtByCanvas := (lastRestoreAtByCanvas m)(p \<mapsto> Map.empty) \<rparr>
             else m"
  have l0: "lookup2 (lastRestoreAtByCanvas ?m0) p nodeId = lookup2 (lastRestoreAtByCanvas m) p nodeId"
    by (simp add: lookup2_empty_canvas)
  have m0: "\<exists>L. ?m0 = m\<lparr> lastRestoreAtByCanvas := L \<rparr>"
  proof (cases "lastRestoreAtByCanvas m p = None")
    case True
    then show ?thesis by auto
  next
    case False
    then have "?m0 = m\<lparr> lastRestoreAtByCanvas := lastRestoreAtByCanvas m \<rparr>" by auto
    then show ?thesis by blast
  qed
  have run: "shouldThrottleRestore p nodeId now m =
      (if now - lastRestoreOf m p nodeId < 50 then (True, ?m0)
       else (False, ?m0\<lparr> lastRestoreAtByCanvas := put2 (lastRestoreAtByCanvas ?m0) p nodeId now \<rparr>))"
    unfolding shouldThrottleRestore_def Let_def lastRestoreOf_def l0 by simp
  show "fst (shouldThrottleRestore p nodeId now m) = (now - lastRestoreOf m p nodeId < 50)"
    unfolding run by simp
  show "lookup2 (lastRestoreAtByCanvas (snd (shouldThrottleRestore p nodeId now m))) p nodeId =
     (if now - lastRestoreOf m p nodeId < 50 then lookup2 (lastRestoreAtByCanvas m) p nodeId
      else Some now)"
    unfolding run using l0 by (simp add: lookup2_put2)
  from m0 obtain L where L: "?m0 = m\<lparr> lastRestoreAtByCanvas := L \<rparr>" by blast
  show "\<exists>L. snd (shouldThrottleRestore p nodeId now m) = m\<lparr> lastRestoreAtByCanvas := L \<rparr>"
  proof (cases "now - lastRestoreOf m p nodeId < 50")
    case True
    then show ?thesis unfolding run using L by auto
  next
    case False
    then have "snd (shouldThrottleRestore p nodeId now m) =
        m\<lparr> lastRestoreAtByCanvas := put2 (lastRestoreAtByCanvas ?m0) p nodeId now \<rparr>"
      unfolding run using L by simp
    then show ?thesis by blast
  qed
qed

lemma observerRestore_model:
  assumes saved: "lookup2 (lockedModelByCanvas m) p nodeId = Some saved"
    and view: "observedView m = Some v"
  shows "observerRestore p now el nodeId (m, w) =
           (if diverged w v nodeId saved
            then (snd (shouldThrottleRestore p nodeId now m),
                  if fst (shouldThrottleRestore p nodeId now m) then w
                  else restoreModelSnapshot v nodeId saved w)
            else (m, w))"
  using saved view
  by (cases "shouldThrottleRestore p nodeId now m"; cases "readModelSnapshot (w_heap w) v nodeId")
    (auto simp add: observerRestore_def Let_def diverged_def)


lemma withTimes_simps [simp]:
  "fst (withTimes L mw) = (fst mw)\<lparr> lastRestoreAtByCanvas := L \<rparr>" "snd (withTimes L mw) = snd mw"
  by (simp_all add: withTimes_def)

lemma enforceResolved_ignores_times:
  "enforceResolved v p j el (m\<lparr> lastRestoreAtByCanvas := L \<rparr>, w) =
     withTimes L (enforceResolved v p j el (m, w))"
  by (simp add: enforceResolved_def withTimes_def Let_def split: option.splits)

lemma enforceNode_ignores_times:
  "enforceNode v p j (withTimes L mw) = map_sum id (withTimes L) (enforceNode v p j mw)"
proof (cases "resolveEl (w_heap (snd mw)) v j")
  case (Inl ex)
  then show ?thesis by (simp add: enforceNode_cases)
next
  case (Inr r)
  show ?thesis
  proof (cases r)
    case None
    then show ?thesis using Inr by (simp add: enforceNode_cases)
  next
    case (Some el)
    have a: "enforceNode v p j (withTimes L mw) =
               Inr (enforceResolved v p j el
                     ((fst (withTimes L mw))\<lparr> nodeIdByEl := (nodeIdByEl (fst (withTimes L mw)))(el \<mapsto> j) \<rparr>,
                      snd (withTimes L mw)))"
      by (rule enforceNode_cases(3)) (simp add: Inr Some)
    have b: "((fst (withTimes L mw))\<lparr> nodeIdByEl := (nodeIdByEl (fst (withTimes L mw)))(el \<mapsto> j) \<rparr>,
              snd (withTimes L mw)) =
             (((fst mw)\<lparr> nodeIdByEl := (nodeIdByEl (fst mw))(el \<mapsto> j) \<rparr>)\<lparr> lastRestoreAtByCanvas := L \<rparr>,
              snd mw)"
      by simp
    have c: "enforceNode v p j mw =
               Inr (enforceResolved v p j el
                     ((fst mw)\<lparr> nodeIdByEl := (nodeIdByEl (fst mw))(el \<mapsto> j) \<rparr>, snd mw))"
      by (rule enforceNode_cases(3)) (simp add: Inr Some)
    show ?thesis unfolding a b c enforceResolved_ignores_times by simp
  qed
qed

lemma foldE_enforceNode_ignores_times:
  "foldE (enforceNode v p) ids (withTimes L mw) =
     map_sum (map_prod id (withTimes L)) (withTimes L) (foldE (enforceNode v p) ids mw)"
proof (induction ids arbitrary: mw)
  case Nil
  then show ?case by simp
next
  case (Cons j ids)
  show ?case
  proof (cases "enforceNode v p j mw")
    case (Inl ex)
    then show ?thesis by (simp add: enforceNode_ignores_times)
  next
    case (Inr mw1)
    then show ?thesis using Cons.IH [of mw1] by (simp add: enforceNode_ignores_times)
  qed
qed

lemma withTimes_keeps:
  "observedView (fst (withTimes L mw)) = observedView (fst mw)"
  "observedCanvasPath (fst (withTimes L mw)) = observedCanvasPath (fst mw)"
  "lockedIdsOf (fst (withTimes L mw)) p = lockedIdsOf (fst mw) p"
  by (simp_all add: lockedIdsOf_def)

lemma enforceLockedNodesOnce_ignores_times:
  "enforceLockedNodesOnce (withTimes L mw) =
     map_sum (map_prod id (withTimes L)) (withTimes L) (enforceLockedNodesOnce mw)"
  unfolding enforceLockedNodesOnce_def Let_def withTimes_keeps
  by (simp add: foldE_enforceNode_ignores_times split: option.splits)

lemma stateOf_map_sum:
  "stateOf (map_sum (map_prod id f) f r) = f (stateOf r)"
  by (cases r) (auto simp add: stateOf_def split: prod.splits)

lemma enforceLockedNodesOnce_world_ignores_times:
  "snd (stateOf (enforceLockedNodesOnce (m\<lparr> lastRestoreAtByCanvas := L \<rparr>, w))) =
     snd (stateOf (enforceLockedNodesOnce (m, w)))"
proof -
  have "(m\<lparr> lastRestoreAtByCanvas := L \<rparr>, w) = withTimes L (m, w)" by (simp add: withTimes_def)
  then show ?thesis
    by (simp only: enforceLockedNodesOnce_ignores_times stateOf_map_sum withTimes_simps)
qed

lemma enforceResolved_times:
  "lastRestoreAtByCanvas (fst (enforceResolved v p j el mw)) = lastRestoreAtByCanvas (fst mw)"
  by (simp add: enforceResolved_def Let_def split: option.splits)

lemma enforceNode_times:
  "enforceNode v p j mw = Inr mw' \<Longrightarrow>
   lastRestoreAtByCanvas (fst mw') = lastRestoreAtByCanvas (fst mw)"
  using enforceNode_result [of v p j mw mw'] by (auto simp add: enforceResolved_times)

lemma foldE_enforceNode_times:
  "lastRestoreAtByCanvas (fst (stateOf (foldE (enforceNode v p) ids mw))) = lastRestoreAtByCanvas (fst mw)"
  by (rule foldE_invariant
      [where P = "\<lambda>s :: manager \<times> world. lastRestoreAtByCanvas (fst s) = lastRestoreAtByCanvas (fst mw)"])
    (simp_all add: enforceNode_times)

lemma enforceLockedNodesOnce_times:
  "lastRestoreAtByCanvas (fst (stateOf (enforceLockedNodesOnce mw))) = lastRestoreAtByCanvas (fst mw)"
  by (simp add: enforceLockedNodesOnce_def Let_def foldE_enforceNode_times split: option.splits)

lemma withTimes_fun:
  "withTimes L = (\<lambda>mw. ((fst mw)\<lparr> lastRestoreAtByCanvas := L \<rparr>, snd mw))"
  by (simp add: fun_eq_iff withTimes_def)

lemma tick_ignores_times:
  "tick now raf (withTimes L mw) =
     map_sum (map_prod id (withTimes L)) (withTimes L) (tick now raf mw)"
proof -
  note pass = enforceLockedNodesOnce_ignores_times [of L mw, unfolded withTimes_fun]
  show ?thesis
  proof (cases "enforceLockedNodesOnce mw")
    case (Inl a)
    then show ?thesis unfolding withTimes_fun by (simp add: tick_def Let_def pass)
  next
    case (Inr mw1)
    then show ?thesis unfolding withTimes_fun by (simp add: tick_def Let_def pass)
  qed
qed

lemma tick_world_ignores_times:
  "snd (stateOf (tick now raf (m\<lparr> lastRestoreAtByCanvas := L \<rparr>, w))) =
     snd (stateOf (tick now raf (m, w)))"
proof -
  have "(m\<lparr> lastRestoreAtByCanvas := L \<rparr>, w) = withTimes L (m, w)" by (simp add: withTimes_def)
  then show ?thesis
    by (simp only: tick_ignores_times stateOf_map_sum withTimes_simps)
qed

lemma tick_times:
  "lastRestoreAtByCanvas (fst (stateOf (tick now raf mw))) = lastRestoreAtByCanvas (fst mw)"
proof (cases "enforceLockedNodesOnce mw")
  case (Inl a)
  then show ?thesis
    using enforceLockedNodesOnce_times [of mw] by (simp add: tick_def Let_def)
next
  case (Inr mw1)
  then show ?thesis
    using enforceLockedNodesOnce_times [of mw] by (simp add: tick_def Let_def)
qed

lemma tick_after_pass:
  assumes "enforcing m" and "\<not> (disableLockWhileAltDown (settings m) \<and> altDown m)"
    and "enforceLockedNodesOnce (m, w) = Inr (m1, w1)"
  shows "\<exists>m'. tick now raf (m, w) = Inr (m', w1)"
  using assms by (simp add: tick_def Let_def)

lemma enforceNode_restores_diverged:
  assumes el: "resolveEl (w_heap w) v nodeId = Inr (Some el)"
    and saved: "lookup2 (lockedModelByCanvas m) p nodeId = Some saved"
    and div: "diverged w v nodeId saved"
  shows "\<exists>m'. enforceNode v p nodeId (m, w) = Inr (m', restoreModelSnapshot v nodeId saved w)"
proof -
  have "enforceNode v p nodeId (m, w) =
          Inr (enforceResolved v p nodeId el (m\<lparr> nodeIdByEl := (nodeIdByEl m)(el \<mapsto> nodeId) \<rparr>, w))"
    using el enforceNode_cases(3) [of "(m, w)" v nodeId el p] by simp
  moreover have "snd (enforceResolved v p nodeId el (m\<lparr> nodeIdByEl := (nodeIdByEl m)(el \<mapsto> nodeId) \<rparr>, w)) =
                   restoreModelSnapshot v nodeId saved w"
    using saved div
    by (simp add: enforceResolved_def Let_def diverged_def isSameSnapshot_enforce_eq
        cong: option.case_cong)
  ultimately show ?thesis by (metis prod.collapse)
qed
lemma observerRestore_throttled:
  assumes saved: "lookup2 (lockedModelByCanvas m) p nodeId = Some saved"
    and view: "observedView m = Some v"
    and soon: "now - lastRestoreOf m p nodeId < 50"
  shows "snd (observerRestore p now el nodeId (m, w)) = w"
    and "lastRestoreOf (fst (observerRestore p now el nodeId (m, w))) p nodeId = lastRestoreOf m p nodeId"
  using soon shouldThrottleRestore_result(1,2) [of p nodeId now m]
  by (simp_all add: observerRestore_model [OF saved view] lastRestoreOf_def)

lemma observerRestore_performed:
  assumes saved: "lookup2 (lockedModelByCanvas m) p nodeId = Some saved"
    and view: "observedView m = Some v"
    and div: "diverged w v nodeId saved"
    and late: "50 \<le> now - lastRestoreOf m p nodeId"
  shows "snd (observerRestore p now el nodeId (m, w)) = restoreModelSnapshot v nodeId saved w"
    and "lastRestoreOf (fst (observerRestore p now el nodeId (m, w))) p nodeId = now"
    and "\<exists>L. fst (observerRestore p now el nodeId (m, w)) = m\<lparr> lastRestoreAtByCanvas := L \<rparr>"
  using div late shouldThrottleRestore_result [of p nodeId now m]
  by (simp_all add: observerRestore_model [OF saved view] lastRestoreOf_def)


text \<open>
  C8, as amended. On the mutation-observer path a model restore of a node attempted
  less than 50 ms after the last recorded restore of that (canvas, node) pair is
  suppressed: nothing is written and the recorded time stays. A restore that is
  performed records its time, so that a second attempt within 50 ms of it writes
  nothing. The enforcement loop has no throttle: what a pass or a tick does to the
  world does not depend on the recorded restore times, neither records one, the
  iteration of the pass for a node whose element resolves and whose geometry is
  unreadable or fails the divergence check calls \<open>restoreModelSnapshot\<close> whatever
  restore times are recorded, and under the conditions of the enforcement pass a tick
  of the running loop leaves the node at its snapshot however recently a restore of it
  was recorded.
\<close>

theorem throttle_on_observer_only:
  assumes saved: "lookup2 (lockedModelByCanvas m) p nodeId = Some saved"
    and view: "observedView m = Some v"
  shows "(now - lastRestoreOf m p nodeId < 50 \<longrightarrow>
            snd (observerRestore p now el nodeId (m, w)) = w \<and>
            lastRestoreOf (fst (observerRestore p now el nodeId (m, w))) p nodeId =
              lastRestoreOf m p nodeId)
       \<and> (diverged w v nodeId saved \<and> 50 \<le> now - lastRestoreOf m p nodeId \<longrightarrow>
            snd (observerRestore p now el nodeId (m, w)) = restoreModelSnapshot v nodeId saved w \<and>
            lastRestoreOf (fst (observerRestore p now el nodeId (m, w))) p nodeId = now \<and>
            (\<forall>t2 el2 w2. t2 - now < 50 \<longrightarrow>
               snd (observerRestore p t2 el2 nodeId (fst (observerRestore p now el nodeId (m, w)), w2))
                 = w2))
       \<and> (\<forall>L. snd (stateOf (enforceLockedNodesOnce (m\<lparr> lastRestoreAtByCanvas := L \<rparr>, w))) =
                snd (stateOf (enforceLockedNodesOnce (m, w))))
       \<and> lastRestoreAtByCanvas (fst (stateOf (enforceLockedNodesOnce (m, w)))) = lastRestoreAtByCanvas m
       \<and> (\<forall>L t raf. snd (stateOf (tick t raf (m\<lparr> lastRestoreAtByCanvas := L \<rparr>, w))) =
                snd (stateOf (tick t raf (m, w))))
       \<and> (\<forall>t raf. lastRestoreAtByCanvas (fst (stateOf (tick t raf (m, w)))) = lastRestoreAtByCanvas m)
       \<and> (resolveEl (w_heap w) v nodeId = Inr (Some el) \<and> diverged w v nodeId saved \<longrightarrow>
            (\<forall>L. \<exists>m'. enforceNode v p nodeId (m\<lparr> lastRestoreAtByCanvas := L \<rparr>, w) =
                        Inr (m', restoreModelSnapshot v nodeId saved w)))
       \<and> (enforcing m \<and> \<not> shouldBypass m \<and> observedCanvasPath m = Some p \<and> p \<noteq> [] \<and>
          nodeId \<in> set (lockedIdsOf m p) \<and> nodeObject v nodeId = Some ob \<and>
          resolveEl (w_heap w) v nodeId = Inr (Some el) \<and>
          (\<forall>j \<in> set (lockedIdsOf m p). resolves (w_heap w) v j) \<and> finiteSnapshot saved \<and>
          stillShaped (w_heap w) ob saved \<and>
          (\<forall>j \<in> set (lockedIdsOf m p). \<forall>ob'. j \<noteq> nodeId \<and> nodeObject v j = Some ob' \<longrightarrow>
               separate (w_heap w) ob ob') \<longrightarrow>
            (\<forall>L t raf. \<exists>m' w'. tick t raf (m\<lparr> lastRestoreAtByCanvas := L \<rparr>, w) = Inr (m', w') \<and>
                                  geometryHolds (w_heap w') ob saved))"
proof -
  have suppressed: "snd (observerRestore p now el nodeId (m, w)) = w \<and>
            lastRestoreOf (fst (observerRestore p now el nodeId (m, w))) p nodeId =
              lastRestoreOf m p nodeId" if "now - lastRestoreOf m p nodeId < 50"
    using observerRestore_throttled [OF saved view that] by simp
  have performed: "snd (observerRestore p now el nodeId (m, w)) = restoreModelSnapshot v nodeId saved w \<and>
            lastRestoreOf (fst (observerRestore p now el nodeId (m, w))) p nodeId = now \<and>
            (\<forall>t2 el2 w2. t2 - now < 50 \<longrightarrow>
               snd (observerRestore p t2 el2 nodeId (fst (observerRestore p now el nodeId (m, w)), w2))
                 = w2)"
    if div: "diverged w v nodeId saved" and late: "50 \<le> now - lastRestoreOf m p nodeId"
  proof -
    let ?m1 = "fst (observerRestore p now el nodeId (m, w))"
    note first = observerRestore_performed [OF saved view div late, of el]
    from first(3) obtain L where L: "?m1 = m\<lparr> lastRestoreAtByCanvas := L \<rparr>" by blast
    have saved1: "lookup2 (lockedModelByCanvas ?m1) p nodeId = Some saved"
      and view1: "observedView ?m1 = Some v"
      using saved view by (simp_all add: L)
    have "snd (observerRestore p t2 el2 nodeId (?m1, w2)) = w2" if "t2 - now < 50" for t2 el2 w2
      using saved1 view1 that first(2) by (intro observerRestore_throttled(1)) simp_all
    then show ?thesis using first(1,2) by blast
  qed
  have loop: "\<exists>m'. enforceNode v p nodeId (m\<lparr> lastRestoreAtByCanvas := L \<rparr>, w) =
                        Inr (m', restoreModelSnapshot v nodeId saved w)"
    if "resolveEl (w_heap w) v nodeId = Inr (Some el)" and "diverged w v nodeId saved" for L
    using that saved by (intro enforceNode_restores_diverged) simp_all
  have ticked: "\<exists>m' w'. tick t raf (m\<lparr> lastRestoreAtByCanvas := L \<rparr>, w) = Inr (m', w') \<and>
                        geometryHolds (w_heap w') ob saved"
    if e: "enforcing m" and nb: "\<not> shouldBypass m"
      and path: "observedCanvasPath m = Some p" "p \<noteq> []"
      and locked: "nodeId \<in> set (lockedIdsOf m p)"
      and node: "nodeObject v nodeId = Some ob"
      and el: "resolveEl (w_heap w) v nodeId = Inr (Some el)"
      and noThrow: "\<forall>j \<in> set (lockedIdsOf m p). resolves (w_heap w) v j"
      and fin: "finiteSnapshot saved"
      and shaped: "stillShaped (w_heap w) ob saved"
      and sep: "\<forall>j \<in> set (lockedIdsOf m p). \<forall>ob'. j \<noteq> nodeId \<and> nodeObject v j = Some ob' \<longrightarrow>
               separate (w_heap w) ob ob'"
    for L t raf
  proof -
    let ?mL = "m\<lparr> lastRestoreAtByCanvas := L \<rparr>"
    have ids: "lockedIdsOf ?mL p = lockedIdsOf m p" by (simp add: lockedIdsOf_def)
    have "\<exists>mw'. enforceLockedNodesOnce (?mL, w) = Inr mw' \<and> geometryHolds (w_heap (snd mw')) ob saved"
      using view path locked saved node el noThrow fin shaped sep
      by (intro enforce_pass_holds [where v = v and p = p and nodeId = nodeId and el = el])
        (simp_all add: ids)
    then obtain m1 w1 where pass: "enforceLockedNodesOnce (?mL, w) = Inr (m1, w1)"
      and holds: "geometryHolds (w_heap w1) ob saved"
      by auto
    have eL: "enforcing ?mL" using e by simp
    have nbL: "\<not> (disableLockWhileAltDown (settings ?mL) \<and> altDown ?mL)"
      using nb by (simp add: shouldBypass_def)
    from tick_after_pass [OF eL nbL pass, of t raf] holds show ?thesis by blast
  qed
  show ?thesis
    using suppressed performed enforceLockedNodesOnce_world_ignores_times
      enforceLockedNodesOnce_times [of "(m, w)"] tick_world_ignores_times tick_times [of _ _ "(m, w)"]
      loop ticked
    by simp
qed
lemma observeMutation_hit:
  assumes "observedView m = Some v"
    and "mut_type mu = ''attributes''" and "mut_target mu = Ref t"
    and "isHTMLElement (view_dom v) t"
    and "mutationNodeEl (view_dom v) w t = Some nodeEl"
    and "w_lcLocked w nodeEl"
    and "nodeIdByEl m nodeEl = Some nodeId" and "nodeId \<noteq> []"
    and "lookup2 (lockedModelByCanvas m) p nodeId = Some saved"
    and "\<not> restoring m nodeEl"
  shows "observeMutation p (mu, now) (m, w) =
     ((fst (observerRestore p now nodeEl nodeId (m\<lparr> restoring := (restoring m)(nodeEl := True) \<rparr>, w)))
        \<lparr> pendingMicrotasks :=
            pendingMicrotasks
              (fst (observerRestore p now nodeEl nodeId (m\<lparr> restoring := (restoring m)(nodeEl := True) \<rparr>, w)))
            @ [nodeEl] \<rparr>,
      snd (observerRestore p now nodeEl nodeId (m\<lparr> restoring := (restoring m)(nodeEl := True) \<rparr>, w)))"
  using assms by (simp add: observeMutation_def Let_def)


lemma tick_world:
  "enforcing m \<Longrightarrow> \<not> (disableLockWhileAltDown (settings m) \<and> altDown m) \<Longrightarrow>
   snd (stateOf (tick now raf (m, w))) = snd (stateOf (enforceLockedNodesOnce (m, w)))"
  by (cases "enforceLockedNodesOnce (m, w)") (auto simp add: tick_def Let_def stateOf_def)

lemma exR_facts:
  "observedView exManagerR = Some exView"
  "observedCanvasPath exManagerR = Some ''c.canvas''"
  "lockedIdsOf exManagerR ''c.canvas'' = [''n1'']"
  "lookup2 (lockedModelByCanvas exManagerR) ''c.canvas'' ''n1'' = Some exSaved"
  "lastRestoreOf exManagerR ''c.canvas'' ''n1'' = 1000"
  "enforcing exManagerR" "\<not> altDown exManagerR"
  "nodeIdByEl exManagerR 10 = Some ''n1''" "\<not> restoring exManagerR 10"
  "lastRestoreOf exManager1 ''c.canvas'' ''n1'' = 0"
  by (simp_all add: exManagerR_def exManager1_def exManager_def lockedIdsOf_def lookup2_def
      lastRestoreOf_def)

lemma ex_diverged: "diverged exWorldMoved exView ''n1'' exSaved"
  using ex_read_moved
  by (simp add: diverged_def readModelSnapshot_def ex1_facts isSameSnapshot_spec exSaved_def
      withinCheck_def closeBound_def)

lemma ex_restored_x:
  "w_heap exWorldMoved 2 ''x'' = Num (Finite 55)"
  "restoreNode exSaved (w_heap exWorldMoved) 1 2 ''x'' = Num (Finite 10)"
  by (simp_all add: restoreNode_def bases_def applyTo_def writeDim_def Let_def setProp_def
      exHeap_def exWorldMoved_def exSaved_def)

theorem throttle_on_observer_only_witness:
  "lookup2 (lockedModelByCanvas exManager1) ''c.canvas'' ''n1'' = Some exSaved \<and>
   observedView exManager1 = Some exView \<and>
   lastRestoreOf exManager1 ''c.canvas'' ''n1'' = 0 \<and>
   diverged exWorldMoved exView ''n1'' exSaved \<and>
   snd (observerRestore ''c.canvas'' 1000 10 ''n1'' (exManager1, exWorldMoved)) =
     restoreModelSnapshot exView ''n1'' exSaved exWorldMoved \<and>
   lastRestoreOf (fst (observerRestore ''c.canvas'' 1000 10 ''n1'' (exManager1, exWorldMoved)))
     ''c.canvas'' ''n1'' = 1000 \<and>
   snd (observerRestore ''c.canvas'' 1010 10 ''n1''
          (fst (observerRestore ''c.canvas'' 1000 10 ''n1'' (exManager1, exWorldMoved)), exWorldMoved))
     = exWorldMoved \<and>
   resolveEl (w_heap exWorldMoved) exView ''n1'' = Inr (Some 10) \<and>
   (\<exists>m'. enforceNode exView ''c.canvas'' ''n1'' (exManagerR, exWorldMoved) =
            Inr (m', restoreModelSnapshot exView ''n1'' exSaved exWorldMoved)) \<and>
   lastRestoreOf exManagerR ''c.canvas'' ''n1'' = 1000 \<and>
   (\<exists>m' w'. tick 1010 1 (exManagerR, exWorldMoved) = Inr (m', w') \<and>
             geometryHolds (w_heap w') 1 exSaved)"
proof -
  note t = throttle_on_observer_only [OF ex1_facts(4) ex1_facts(1),
      where now = 1000 and el = 10 and w = exWorldMoved,
      THEN conjunct2, THEN conjunct1, THEN mp]
  have pre: "diverged exWorldMoved exView ''n1'' exSaved \<and>
             50 \<le> 1000 - lastRestoreOf exManager1 ''c.canvas'' ''n1''"
    using ex_diverged by (simp add: exR_facts)
  note r = t [OF pre]
  have second: "snd (observerRestore ''c.canvas'' 1010 10 ''n1''
          (fst (observerRestore ''c.canvas'' 1000 10 ''n1'' (exManager1, exWorldMoved)), exWorldMoved))
     = exWorldMoved"
    using r [THEN conjunct2, THEN conjunct2, THEN spec, of 1010, THEN spec, of 10, THEN spec,
        of exWorldMoved] by simp
  have pre2: "resolveEl (w_heap exWorldMoved) exView ''n1'' = Inr (Some 10) \<and>
              diverged exWorldMoved exView ''n1'' exSaved"
    using ex_resolveEl_moved(1) ex_diverged by simp
  have loop: "\<exists>m'. enforceNode exView ''c.canvas'' ''n1'' (exManagerR, exWorldMoved) =
            Inr (m', restoreModelSnapshot exView ''n1'' exSaved exWorldMoved)"
    using throttle_on_observer_only [OF exR_facts(4) exR_facts(1),
        where now = 1000 and w = exWorldMoved and el = 10,
        THEN conjunct2, THEN conjunct2, THEN conjunct2, THEN conjunct2, THEN conjunct2,
        THEN conjunct2, THEN conjunct1, THEN mp, OF pre2, THEN spec,
        of "lastRestoreAtByCanvas exManagerR"]
    by simp
  have shaped: "stillShaped (w_heap exWorldMoved) 1 exSaved"
    unfolding stillShaped_def using ex_read_moved by (simp add: exSaved_def)
  have pre3: "enforcing exManagerR \<and> \<not> shouldBypass exManagerR \<and>
          observedCanvasPath exManagerR = Some ''c.canvas'' \<and> ''c.canvas'' \<noteq> [] \<and>
          ''n1'' \<in> set (lockedIdsOf exManagerR ''c.canvas'') \<and> nodeObject exView ''n1'' = Some 1 \<and>
          resolveEl (w_heap exWorldMoved) exView ''n1'' = Inr (Some 10) \<and>
          (\<forall>j \<in> set (lockedIdsOf exManagerR ''c.canvas''). resolves (w_heap exWorldMoved) exView j) \<and>
          finiteSnapshot exSaved \<and>
          stillShaped (w_heap exWorldMoved) 1 exSaved \<and>
          (\<forall>j \<in> set (lockedIdsOf exManagerR ''c.canvas''). \<forall>ob'.
              j \<noteq> ''n1'' \<and> nodeObject exView j = Some ob' \<longrightarrow>
              separate (w_heap exWorldMoved) 1 ob')"
    using exR_facts ex1_facts(5) ex_resolveEl_moved(1) shaped exSaved_finite
    by (simp add: resolves_def shouldBypass_def)
  have ticked: "\<exists>m' w'. tick 1010 1 (exManagerR, exWorldMoved) = Inr (m', w') \<and>
             geometryHolds (w_heap w') 1 exSaved"
    using throttle_on_observer_only [OF exR_facts(4) exR_facts(1),
        where now = 1000 and w = exWorldMoved and el = 10 and ob = 1,
        THEN conjunct2, THEN conjunct2, THEN conjunct2, THEN conjunct2, THEN conjunct2,
        THEN conjunct2, THEN conjunct2, THEN mp, OF pre3, THEN spec,
        of "lastRestoreAtByCanvas exManagerR", THEN spec, of 1010, THEN spec, of 1]
    by simp
  show ?thesis
    using ex1_facts(4) ex1_facts(1) exR_facts(10) ex_diverged r [THEN conjunct1]
      r [THEN conjunct2, THEN conjunct1] second ex_resolveEl_moved(1) loop exR_facts(5) ticked
    by simp
qed

text \<open>
  The throttle does not apply to the enforcement tick: 10 ms after a recorded restore
  the observer leaves a diverged \<open>x\<close> alone, while a tick at the same clock reading
  writes the snapshot's \<open>x\<close> back.
\<close>

lemma ex_observer_throttled:
  assumes "observedView m = Some exView" and "nodeIdByEl m 10 = Some ''n1''"
    and "lookup2 (lockedModelByCanvas m) ''c.canvas'' ''n1'' = Some exSaved"
    and "\<not> restoring m 10" and "lastRestoreOf m ''c.canvas'' ''n1'' = 1000" and "\<not> altDown m"
  shows "snd (observerCallback ''c.canvas'' [(exMutation, 1010)] (m, exWorldMoved)) = exWorldMoved"
proof -
  have target: "mutationNodeEl (view_dom exView) exWorldMoved 10 = Some 10"
    by (simp add: mutationNodeEl_def exView_def exDom_def)
  have hit: "observeMutation ''c.canvas'' (exMutation, 1010) (m, exWorldMoved) =
     ((fst (observerRestore ''c.canvas'' 1010 10 ''n1''
              (m\<lparr> restoring := (restoring m)(10 := True) \<rparr>, exWorldMoved)))
        \<lparr> pendingMicrotasks :=
            pendingMicrotasks
              (fst (observerRestore ''c.canvas'' 1010 10 ''n1''
                 (m\<lparr> restoring := (restoring m)(10 := True) \<rparr>, exWorldMoved)))
            @ [10] \<rparr>,
      snd (observerRestore ''c.canvas'' 1010 10 ''n1''
              (m\<lparr> restoring := (restoring m)(10 := True) \<rparr>, exWorldMoved)))"
    using assms(1) _ _ _ target _ assms(2) _ assms(3) assms(4)
    by (rule observeMutation_hit)
      (simp_all add: exMutation_def exView_def exDom_def exWorldMoved_def exWorld_def)
  let ?mr = "m\<lparr> restoring := (restoring m)(10 := True) \<rparr>"
  have "lookup2 (lockedModelByCanvas ?mr) ''c.canvas'' ''n1'' = Some exSaved"
    and "observedView ?mr = Some exView"
    and "1010 - lastRestoreOf ?mr ''c.canvas'' ''n1'' < 50"
    using assms by (simp_all add: lastRestoreOf_def)
  then have "snd (observerRestore ''c.canvas'' 1010 10 ''n1'' (?mr, exWorldMoved)) = exWorldMoved"
    by (rule observerRestore_throttled(1))
  then show ?thesis
    using assms(1,6) by (simp add: observerCallback_def hit)
qed

theorem throttle_both_paths_counterexample:
  "lastRestoreOf exManagerR ''c.canvas'' ''n1'' = 1000 \<and>
   diverged exWorldMoved exView ''n1'' exSaved \<and>
   w_heap exWorldMoved 2 ''x'' = Num (Finite 55) \<and>
   w_heap (snd (observerCallback ''c.canvas'' [(exMutation, 1010)] (exManagerR, exWorldMoved))) 2 ''x''
     = Num (Finite 55) \<and>
   (\<exists>st. tick 1010 1 (exManagerR, exWorldMoved) = Inr st) \<and>
   w_heap (snd (stateOf (tick 1010 1 (exManagerR, exWorldMoved)))) 2 ''x'' = Num (Finite 10)"
proof -
  have bypass: "\<not> (disableLockWhileAltDown (settings exManagerR) \<and> altDown exManagerR)"
    by (simp add: exR_facts)
  have obs: "snd (observerCallback ''c.canvas'' [(exMutation, 1010)] (exManagerR, exWorldMoved))
      = exWorldMoved"
    using exR_facts(1) exR_facts(8) exR_facts(4) exR_facts(9) exR_facts(5) exR_facts(7)
    by (rule ex_observer_throttled)
  have ne: "''c.canvas'' \<noteq> ([] :: string)" by simp
  note pass = enforce_single_restores [OF exR_facts(1) exR_facts(2) ne exR_facts(3)
      ex_resolveEl_moved(1) exR_facts(4) ex1_facts(5)]
  have differs: "\<not> isSameSnapshot
      \<lparr> snap_mode = Pos, snap_x = Finite 55, snap_y = Finite 20,
        snap_w = Some (Finite 99), snap_h = None \<rparr> exSaved"
    by (simp add: isSameSnapshot_spec exSaved_def withinCheck_def closeBound_def)
  have "w_heap (snd (stateOf (enforceLockedNodesOnce (exManagerR, exWorldMoved)))) =
          restoreNode exSaved (w_heap exWorldMoved) 1"
    unfolding pass(2) using ex_read_moved differs by simp
  then have tk: "w_heap (snd (stateOf (tick 1010 1 (exManagerR, exWorldMoved)))) 2 ''x'' = Num (Finite 10)"
    using tick_world [OF exR_facts(6) bypass, of 1010 1 exWorldMoved] ex_restored_x(2) by simp
  from pass(1) obtain st where "enforceLockedNodesOnce (exManagerR, exWorldMoved) = Inr st" by blast
  then have ret: "\<exists>st. tick 1010 1 (exManagerR, exWorldMoved) = Inr st"
    using exR_facts(6) by (simp add: tick_def Let_def)
  show ?thesis
    using exR_facts(5) ex_diverged ex_restored_x(1) obs ret tk by simp
qed


subsection \<open>The bypass modifier\<close>

lemma observerCallback_bypass: "shouldBypass (fst mw) \<Longrightarrow> observerCallback p mutations mw = mw"
  by (simp add: observerCallback_def shouldBypass_def)

lemma tick_bypass:
  assumes "shouldBypass (fst mw)"
  shows "\<exists>m'. tick now raf mw = Inr (m', snd mw) \<and> shouldBypass m'"
proof (cases "enforcing (fst mw)")
  case True
  then show ?thesis using assms by (simp add: tick_def shouldBypass_def Let_def)
next
  case False
  then have "tick now raf mw = Inr (fst mw, snd mw)" by (simp add: tick_def)
  then show ?thesis using assms by blast
qed

lemma runMicrotasks_bypass: "shouldBypass (runMicrotasks m) = shouldBypass m"
  by (simp add: runMicrotasks_def shouldBypass_def)

lemma keyDownEvent_bypass: "shouldBypass m \<Longrightarrow> shouldBypass (keyDownEvent key now raf m)"
  by (simp add: keyDownEvent_def onKeyDown_def guardKeyDown_def shouldBypass_def Let_def)

lemma onKeyUp_other: "key \<noteq> ''Alt'' \<Longrightarrow> onKeyUp key m = m"
  by (simp add: onKeyUp_def)

lemma onKeyDown_other: "key \<noteq> ''Alt'' \<Longrightarrow> onKeyDown key m = m"
  by (simp add: onKeyDown_def)

lemma hostStep_bypass:
  assumes "shouldBypass (fst mw)" and "\<not> releasesAlt ev"
  shows "snd (hostStep p ev mw) = hostOnly [ev] (snd mw) \<and> shouldBypass (fst (hostStep p ev mw))"
proof (cases ev)
  case (HostMutation f)
  then show ?thesis using assms by (simp add: hostStep_def)
next
  case (ObserverBatch mutations)
  then show ?thesis
    using assms by (simp add: hostStep_def observerCallback_bypass runMicrotasks_bypass)
next
  case (FrameTick now raf)
  from tick_bypass [OF assms(1), of now raf] obtain m' where
    "tick now raf mw = Inr (m', snd mw)" "shouldBypass m'" by blast
  then show ?thesis using FrameTick by (simp add: hostStep_def)
next
  case (KeyDown key now raf)
  then show ?thesis using assms by (simp add: hostStep_def keyDownEvent_bypass)
next
  case (KeyUp key)
  then show ?thesis using assms by (simp add: hostStep_def onKeyUp_other)
qed

lemma hostOnly_Cons: "hostOnly (ev # evs) w = hostOnly evs (hostOnly [ev] w)"
  by (cases ev) simp_all

lemma hostRun_bypass:
  "shouldBypass (fst mw) \<Longrightarrow> \<forall>ev \<in> set evs. \<not> releasesAlt ev \<Longrightarrow>
   snd (hostRun p evs mw) = hostOnly evs (snd mw) \<and> shouldBypass (fst (hostRun p evs mw))"
proof (induction evs arbitrary: mw)
  case Nil
  then show ?case by (simp add: hostRun_def)
next
  case (Cons ev evs)
  from Cons.prems(2) have ev: "\<not> releasesAlt ev" and rest: "\<forall>e \<in> set evs. \<not> releasesAlt e"
    by simp_all
  from hostStep_bypass [OF Cons.prems(1) ev, of p]
  have step: "snd (hostStep p ev mw) = hostOnly [ev] (snd mw)"
    and still: "shouldBypass (fst (hostStep p ev mw))" by simp_all
  from Cons.IH [OF still rest] step show ?case
    using hostOnly_Cons [of ev evs "snd mw"] by (simp add: hostRun_def)
qed

lemma hostRun_append: "hostRun p (xs @ ys) mw = hostRun p ys (hostRun p xs mw)"
  by (simp add: hostRun_def)

lemma restoreProp_fun:
  "restoreProp d savedStyle =
     (\<lambda>prop current.
        if cssGetPropertyValue d savedStyle prop \<noteq> []
        then cssSetProperty d current prop (cssGetPropertyValue d savedStyle prop)
        else cssRemoveProperty d current prop)"
  by (simp add: fun_eq_iff restoreProp_def Let_def)

lemma onKeyUp_Alt: "onKeyUp ''Alt'' m = m\<lparr> altDown := False \<rparr>"
  by (simp add: onKeyUp_def)

lemma onKeyDown_Alt: "onKeyDown ''Alt'' m = m\<lparr> altDown := True \<rparr>"
  by (simp add: onKeyDown_def)

text \<open>
  C9, as amended. With the option enabled, pressing Alt turns the bypass on, releasing
  it turns it off, and no other key changes it. While Alt is down neither detector
  restores anything: the observer callback and the tick leave the world as it is, and
  after any sequence of host changes, observer batches, ticks and key events other than
  the release of Alt the world is what the host's changes alone made it. After the
  release the detectors work as they do without the modifier, which does not mean that
  the next pass restores every divergence: the tick of a running enforcement loop runs
  \<open>enforceLockedNodesOnce\<close> again, so that a locked node is back at its snapshot
  after that tick under the conditions of the enforcement pass (finite snapshot,
  element resolves, no locked id throws, shape unchanged, no shared shape), and a
  single locked node with a move-style snapshot and no geometry snapshot has the five
  position properties of its move element set from the saved style or removed; the
  observer restores a diverged node on a style mutation of its element when the node is
  not being restored and the throttle does not suppress it.
\<close>

theorem bypass_suspends_enforcement:
  assumes option: "disableLockWhileAltDown (settings m)"
  shows "shouldBypass (onKeyDown ''Alt'' m) \<and> \<not> shouldBypass (onKeyUp ''Alt'' m)
       \<and> (\<forall>key. key \<noteq> ''Alt'' \<longrightarrow>
             shouldBypass (onKeyDown key m) = shouldBypass m \<and>
             shouldBypass (onKeyUp key m) = shouldBypass m)
       \<and> (altDown m \<longrightarrow>
            observerCallback p mutations (m, w) = (m, w) \<and>
            (\<exists>m'. tick now raf (m, w) = Inr (m', w)))
       \<and> (altDown m \<and> (\<forall>ev \<in> set evs. \<not> releasesAlt ev) \<longrightarrow>
            snd (hostRun p evs (m, w)) = hostOnly evs w \<and>
            altDown (fst (hostRun p evs (m, w))))
       \<and> (enforcing m \<longrightarrow>
            snd (stateOf (tick now raf (onKeyUp ''Alt'' m, w))) =
              snd (stateOf (enforceLockedNodesOnce (onKeyUp ''Alt'' m, w))))
       \<and> (enforcing m \<and> observedView m = Some v \<and> observedCanvasPath m = Some p \<and> p \<noteq> [] \<and>
          nodeId \<in> set (lockedIdsOf m p) \<and> lookup2 (lockedModelByCanvas m) p nodeId = Some s \<and>
          nodeObject v nodeId = Some ob \<and> resolveEl (w_heap w) v nodeId = Inr (Some el) \<and>
          (\<forall>j \<in> set (lockedIdsOf m p). resolves (w_heap w) v j) \<and> finiteSnapshot s \<and>
          stillShaped (w_heap w) ob s \<and>
          (\<forall>j \<in> set (lockedIdsOf m p). \<forall>ob'. j \<noteq> nodeId \<and> nodeObject v j = Some ob' \<longrightarrow>
               separate (w_heap w) ob ob') \<longrightarrow>
            (\<exists>m' w'. tick now raf (onKeyUp ''Alt'' m, w) = Inr (m', w') \<and>
                      geometryHolds (w_heap w') ob s))
       \<and> (enforcing m \<and> observedView m = Some v \<and> observedCanvasPath m = Some p \<and> p \<noteq> [] \<and>
          lockedIdsOf m p = [nodeId] \<and> resolveEl (w_heap w) v nodeId = Inr (Some el) \<and>
          lookup2 (lockedModelByCanvas m) p nodeId = None \<and>
          lookup2 (lockedMoveStyleByCanvas m) p nodeId = Some savedMoveStyle \<longrightarrow>
            (\<exists>m'. tick now raf (onKeyUp ''Alt'' m, w) =
               Inr (m', w\<lparr> w_styleAttr :=
                     (w_styleAttr w)
                       ((case moveElByNodeEl m el of
                           Some e \<Rightarrow> e
                         | None \<Rightarrow> findMoveElement (view_dom v) w el) :=
                          fold (\<lambda>prop current.
                                  if cssGetPropertyValue (view_dom v) savedMoveStyle prop \<noteq> []
                                  then cssSetProperty (view_dom v) current prop
                                         (cssGetPropertyValue (view_dom v) savedMoveStyle prop)
                                  else cssRemoveProperty (view_dom v) current prop)
                            [''left'', ''top'', ''width'', ''height'', ''transform'']
                            (w_styleAttr w
                               (case moveElByNodeEl m el of
                                  Some e \<Rightarrow> e
                                | None \<Rightarrow> findMoveElement (view_dom v) w el))) \<rparr>)))
       \<and> (observedView m = Some v \<and> mut_type mu = ''attributes'' \<and> mut_target mu = Ref t \<and>
          isHTMLElement (view_dom v) t \<and> mutationNodeEl (view_dom v) w t = Some el \<and>
          w_lcLocked w el \<and> nodeIdByEl m el = Some nodeId \<and> nodeId \<noteq> [] \<and>
          lookup2 (lockedModelByCanvas m) p nodeId = Some s \<and> \<not> restoring m el \<and>
          diverged w v nodeId s \<and> 50 \<le> now - lastRestoreOf m p nodeId \<longrightarrow>
            snd (observerCallback p [(mu, now)] (onKeyUp ''Alt'' m, w)) =
              restoreModelSnapshot v nodeId s w)"
proof -
  let ?up = "onKeyUp ''Alt'' m"
  have keys: "shouldBypass (onKeyDown ''Alt'' m) \<and> \<not> shouldBypass ?up"
    using option by (simp add: shouldBypass_def onKeyDown_Alt onKeyUp_Alt)
  have other: "shouldBypass (onKeyDown key m) = shouldBypass m \<and>
               shouldBypass (onKeyUp key m) = shouldBypass m" if "key \<noteq> ''Alt''" for key
    using that by (simp add: onKeyDown_other onKeyUp_other)
  have nb: "\<not> (disableLockWhileAltDown (settings ?up) \<and> altDown ?up)"
    by (simp add: onKeyUp_Alt)
  have eu: "enforcing ?up" if "enforcing m" using that by (simp add: onKeyUp_Alt)
  have held: "observerCallback p mutations (m, w) = (m, w) \<and>
            (\<exists>m'. tick now raf (m, w) = Inr (m', w))" if "altDown m"
  proof -
    have b: "shouldBypass (fst (m, w))" using option that by (simp add: shouldBypass_def)
    show ?thesis
      using observerCallback_bypass [OF b, of p mutations] tick_bypass [OF b, of now raf]
      by auto
  qed
  have run: "snd (hostRun p evs (m, w)) = hostOnly evs w \<and> altDown (fst (hostRun p evs (m, w)))"
    if "altDown m" and "\<forall>ev \<in> set evs. \<not> releasesAlt ev"
  proof -
    have b: "shouldBypass (fst (m, w))" using option that(1) by (simp add: shouldBypass_def)
    show ?thesis
      using hostRun_bypass [OF b that(2), of p] by (simp add: shouldBypass_def)
  qed
  have resumed: "snd (stateOf (tick now raf (?up, w))) = snd (stateOf (enforceLockedNodesOnce (?up, w)))"
    if "enforcing m"
    using eu [OF that] nb by (rule tick_world)
  have restored: "\<exists>m' w'. tick now raf (?up, w) = Inr (m', w') \<and> geometryHolds (w_heap w') ob s"
    if e: "enforcing m" and view: "observedView m = Some v"
      and path: "observedCanvasPath m = Some p" "p \<noteq> []"
      and locked: "nodeId \<in> set (lockedIdsOf m p)"
      and saved: "lookup2 (lockedModelByCanvas m) p nodeId = Some s"
      and node: "nodeObject v nodeId = Some ob"
      and el: "resolveEl (w_heap w) v nodeId = Inr (Some el)"
      and noThrow: "\<forall>j \<in> set (lockedIdsOf m p). resolves (w_heap w) v j"
      and fin: "finiteSnapshot s"
      and shaped: "stillShaped (w_heap w) ob s"
      and sep: "\<forall>j \<in> set (lockedIdsOf m p). \<forall>ob'. j \<noteq> nodeId \<and> nodeObject v j = Some ob' \<longrightarrow>
               separate (w_heap w) ob ob'"
  proof -
    have ids: "lockedIdsOf ?up p = lockedIdsOf m p"
      by (simp add: lockedIdsOf_def onKeyUp_Alt)
    have "\<exists>mw'. enforceLockedNodesOnce (?up, w) = Inr mw' \<and> geometryHolds (w_heap (snd mw')) ob s"
      using view path locked saved node el noThrow fin shaped sep
      by (intro enforce_pass_holds [where v = v and p = p and nodeId = nodeId and el = el])
        (simp_all add: onKeyUp_Alt ids [unfolded onKeyUp_Alt])
    then obtain m1 w1 where pass: "enforceLockedNodesOnce (?up, w) = Inr (m1, w1)"
      and holds: "geometryHolds (w_heap w1) ob s"
      by auto
    from tick_after_pass [OF eu [OF e] nb pass, of now raf] holds show ?thesis by blast
  qed
  have styled: "\<exists>m'. tick now raf (?up, w) =
               Inr (m', w\<lparr> w_styleAttr :=
                     (w_styleAttr w)
                       ((case moveElByNodeEl m el of
                           Some e \<Rightarrow> e
                         | None \<Rightarrow> findMoveElement (view_dom v) w el) :=
                          fold (\<lambda>prop current.
                                  if cssGetPropertyValue (view_dom v) savedMoveStyle prop \<noteq> []
                                  then cssSetProperty (view_dom v) current prop
                                         (cssGetPropertyValue (view_dom v) savedMoveStyle prop)
                                  else cssRemoveProperty (view_dom v) current prop)
                            [''left'', ''top'', ''width'', ''height'', ''transform'']
                            (w_styleAttr w
                               (case moveElByNodeEl m el of
                                  Some e \<Rightarrow> e
                                | None \<Rightarrow> findMoveElement (view_dom v) w el))) \<rparr>)"
    if e: "enforcing m" and view: "observedView m = Some v"
      and path: "observedCanvasPath m = Some p" "p \<noteq> []"
      and ids: "lockedIdsOf m p = [nodeId]"
      and el: "resolveEl (w_heap w) v nodeId = Inr (Some el)"
      and nomodel: "lookup2 (lockedModelByCanvas m) p nodeId = None"
      and style: "lookup2 (lockedMoveStyleByCanvas m) p nodeId = Some savedMoveStyle"
  proof -
    have ids': "lockedIdsOf ?up p = [nodeId]"
      using ids by (simp add: lockedIdsOf_def onKeyUp_Alt)
    have view': "observedView ?up = Some v" and path': "observedCanvasPath ?up = Some p"
      using view path by (simp_all add: onKeyUp_Alt)
    have step: "enforceNode v p nodeId (?up, w) =
       Inr (enforceResolved v p nodeId el (?up\<lparr> nodeIdByEl := (nodeIdByEl ?up)(el \<mapsto> nodeId) \<rparr>, w))"
      using el enforceNode_cases(3) [of "(?up, w)" v nodeId el p] by simp
    have body: "snd (enforceResolved v p nodeId el (?up\<lparr> nodeIdByEl := (nodeIdByEl ?up)(el \<mapsto> nodeId) \<rparr>, w)) =
       w\<lparr> w_styleAttr :=
                     (w_styleAttr w)
                       ((case moveElByNodeEl m el of
                           Some e \<Rightarrow> e
                         | None \<Rightarrow> findMoveElement (view_dom v) w el) :=
                          fold (\<lambda>prop current.
                                  if cssGetPropertyValue (view_dom v) savedMoveStyle prop \<noteq> []
                                  then cssSetProperty (view_dom v) current prop
                                         (cssGetPropertyValue (view_dom v) savedMoveStyle prop)
                                  else cssRemoveProperty (view_dom v) current prop)
                            [''left'', ''top'', ''width'', ''height'', ''transform'']
                            (w_styleAttr w
                               (case moveElByNodeEl m el of
                                  Some e \<Rightarrow> e
                                | None \<Rightarrow> findMoveElement (view_dom v) w el))) \<rparr>"
      using nomodel style
      by (simp add: enforceResolved_def Let_def onKeyUp_Alt restorePositionStyleOnly_def
          positionProps_def restoreProp_fun)
    have "enforceLockedNodesOnce (?up, w) =
            Inr (enforceResolved v p nodeId el (?up\<lparr> nodeIdByEl := (nodeIdByEl ?up)(el \<mapsto> nodeId) \<rparr>, w))"
      unfolding enforce_single [OF view' path' path(2) ids'] step by simp
    then obtain m1 where pass: "enforceLockedNodesOnce (?up, w) =
        Inr (m1, snd (enforceResolved v p nodeId el (?up\<lparr> nodeIdByEl := (nodeIdByEl ?up)(el \<mapsto> nodeId) \<rparr>, w)))"
      by (metis prod.collapse)
    from tick_after_pass [OF eu [OF e] nb pass, of now raf] show ?thesis
      unfolding body .
  qed
  have observed: "snd (observerCallback p [(mu, now)] (?up, w)) = restoreModelSnapshot v nodeId s w"
    if view: "observedView m = Some v"
      and mu: "mut_type mu = ''attributes''" "mut_target mu = Ref t"
      and t: "isHTMLElement (view_dom v) t" "mutationNodeEl (view_dom v) w t = Some el"
      and cls: "w_lcLocked w el"
      and ident: "nodeIdByEl m el = Some nodeId" "nodeId \<noteq> []"
      and saved: "lookup2 (lockedModelByCanvas m) p nodeId = Some s"
      and free: "\<not> restoring m el"
      and div: "diverged w v nodeId s"
      and late: "50 \<le> now - lastRestoreOf m p nodeId"
  proof -
    let ?u = "m\<lparr> altDown := False \<rparr>"
    let ?mr = "?u\<lparr> restoring := (restoring ?u)(el := True) \<rparr>"
    have hit: "observeMutation p (mu, now) (?u, w) =
       ((fst (observerRestore p now el nodeId (?mr, w)))
          \<lparr> pendingMicrotasks := pendingMicrotasks (fst (observerRestore p now el nodeId (?mr, w))) @ [el] \<rparr>,
        snd (observerRestore p now el nodeId (?mr, w)))"
      using view mu t cls ident saved free
      by (intro observeMutation_hit) simp_all
    have "snd (observerRestore p now el nodeId (?mr, w)) = restoreModelSnapshot v nodeId s w"
      using view saved div late
      by (intro observerRestore_performed(1)) (simp_all add: lastRestoreOf_def)
    then have "snd (observeMutation p (mu, now) (?u, w)) = restoreModelSnapshot v nodeId s w"
      unfolding hit by simp
    then show ?thesis
      using view by (simp add: observerCallback_def onKeyUp_Alt)
  qed
  show ?thesis
    using keys other held run resumed restored styled observed by blast
qed


lemma exP_facts:
  "disableLockWhileAltDown (settings exManagerP)" "\<not> altDown exManagerP"
  "observedView exManagerP = Some exView"
  by (simp_all add: exManagerP_def exManagerR_def exManager1_def exManager_def)

lemma exMove_exWorld: "exMove exWorld = exWorldMoved"
  by (simp add: exMove_def exWorldMoved_def exWorld_def)

lemma ex_held_manager:
  "disableLockWhileAltDown
     (settings (fst (hostRun ''c.canvas''
        [HostMutation exMove, ObserverBatch [(exMutation, 2000)], FrameTick 2016 1]
        (keyDownEvent ''Alt'' 1990 7 exManagerP, exWorld))))"
  "enforcing (fst (hostRun ''c.canvas''
        [HostMutation exMove, ObserverBatch [(exMutation, 2000)], FrameTick 2016 1]
        (keyDownEvent ''Alt'' 1990 7 exManagerP, exWorld)))"
  "observedView (fst (hostRun ''c.canvas''
        [HostMutation exMove, ObserverBatch [(exMutation, 2000)], FrameTick 2016 1]
        (keyDownEvent ''Alt'' 1990 7 exManagerP, exWorld))) = Some exView"
  "observedCanvasPath (fst (hostRun ''c.canvas''
        [HostMutation exMove, ObserverBatch [(exMutation, 2000)], FrameTick 2016 1]
        (keyDownEvent ''Alt'' 1990 7 exManagerP, exWorld))) = Some ''c.canvas''"
  "lockedIdsOf (fst (hostRun ''c.canvas''
        [HostMutation exMove, ObserverBatch [(exMutation, 2000)], FrameTick 2016 1]
        (keyDownEvent ''Alt'' 1990 7 exManagerP, exWorld))) ''c.canvas'' = [''n1'']"
  "lookup2 (lockedModelByCanvas (fst (hostRun ''c.canvas''
        [HostMutation exMove, ObserverBatch [(exMutation, 2000)], FrameTick 2016 1]
        (keyDownEvent ''Alt'' 1990 7 exManagerP, exWorld)))) ''c.canvas'' ''n1'' = Some exSaved"
proof -
  let ?mD = "keyDownEvent ''Alt'' 1990 7 exManagerP"
  have mD: "?mD = exManagerP\<lparr> altDown := True \<rparr>"
    by (simp add: keyDownEvent_def onKeyDown_Alt guardKeyDown_def exP_facts Let_def)
  have b: "disableLockWhileAltDown (settings (exManagerP\<lparr> altDown := True \<rparr>)) \<and>
           altDown (exManagerP\<lparr> altDown := True \<rparr>)"
    by (simp add: exP_facts)
  have e: "enforcing (exManagerP\<lparr> altDown := True \<rparr>)" "pointerIsDown (exManagerP\<lparr> altDown := True \<rparr>)"
    by (simp_all add: exManagerP_def exManagerR_def)
  have run: "fst (hostRun ''c.canvas''
        [HostMutation exMove, ObserverBatch [(exMutation, 2000)], FrameTick 2016 1] (?mD, exWorld)) =
      (runMicrotasks (exManagerP\<lparr> altDown := True \<rparr>))\<lparr> enforcementRaf := Some 1 \<rparr>"
    unfolding mD
    using b e
    by (simp add: hostRun_def hostStep_def observerCallback_def tick_def Let_def runMicrotasks_def)
  show "disableLockWhileAltDown
     (settings (fst (hostRun ''c.canvas''
        [HostMutation exMove, ObserverBatch [(exMutation, 2000)], FrameTick 2016 1] (?mD, exWorld))))"
    and "enforcing (fst (hostRun ''c.canvas''
        [HostMutation exMove, ObserverBatch [(exMutation, 2000)], FrameTick 2016 1] (?mD, exWorld)))"
    and "observedView (fst (hostRun ''c.canvas''
        [HostMutation exMove, ObserverBatch [(exMutation, 2000)], FrameTick 2016 1] (?mD, exWorld)))
          = Some exView"
    and "observedCanvasPath (fst (hostRun ''c.canvas''
        [HostMutation exMove, ObserverBatch [(exMutation, 2000)], FrameTick 2016 1] (?mD, exWorld)))
          = Some ''c.canvas''"
    and "lockedIdsOf (fst (hostRun ''c.canvas''
        [HostMutation exMove, ObserverBatch [(exMutation, 2000)], FrameTick 2016 1] (?mD, exWorld)))
          ''c.canvas'' = [''n1'']"
    and "lookup2 (lockedModelByCanvas (fst (hostRun ''c.canvas''
        [HostMutation exMove, ObserverBatch [(exMutation, 2000)], FrameTick 2016 1] (?mD, exWorld))))
          ''c.canvas'' ''n1'' = Some exSaved"
    unfolding run
    by (simp_all add: runMicrotasks_def exManagerP_def exManagerR_def exManager1_def exManager_def
        lockedIdsOf_def lookup2_def)
qed

theorem bypass_suspends_enforcement_witness:
  "disableLockWhileAltDown (settings exManagerP) \<and> \<not> altDown exManagerP \<and>
   snd (hostRun ''c.canvas''
          [KeyDown ''Alt'' 1990 7, HostMutation exMove, ObserverBatch [(exMutation, 2000)],
           FrameTick 2016 1]
          (exManagerP, exWorld)) = exWorldMoved \<and>
   w_heap exWorldMoved 2 ''x'' = Num (Finite 55) \<and>
   geometryHolds
     (w_heap (snd (hostRun ''c.canvas''
          [KeyDown ''Alt'' 1990 7, HostMutation exMove, ObserverBatch [(exMutation, 2000)],
           FrameTick 2016 1, KeyUp ''Alt'', FrameTick 2032 2]
          (exManagerP, exWorld))))
     1 exSaved"
proof -
  let ?held = "[HostMutation exMove, ObserverBatch [(exMutation, 2000)], FrameTick 2016 1]"
  let ?mD = "keyDownEvent ''Alt'' 1990 7 exManagerP"
  define m2 where "m2 = fst (hostRun ''c.canvas'' ?held (?mD, exWorld))"
  have mD: "?mD = exManagerP\<lparr> altDown := True \<rparr>"
    by (simp add: keyDownEvent_def onKeyDown_Alt guardKeyDown_def exP_facts Let_def)
  have optD: "disableLockWhileAltDown (settings ?mD)" and downD: "altDown ?mD"
    unfolding mD by (simp_all add: exP_facts)
  have quiet: "\<forall>ev \<in> set ?held. \<not> releasesAlt ev" by simp
  have first: "hostRun ''c.canvas'' (KeyDown ''Alt'' 1990 7 # ?held) (exManagerP, exWorld) =
               hostRun ''c.canvas'' ?held (?mD, exWorld)"
    by (simp add: hostRun_def hostStep_def)
  have heldW: "snd (hostRun ''c.canvas'' ?held (?mD, exWorld)) = exWorldMoved"
    using bypass_suspends_enforcement [OF optD, where w = exWorld and p = "''c.canvas''"
        and evs = ?held,
        THEN conjunct2, THEN conjunct2, THEN conjunct2, THEN conjunct2, THEN conjunct1, THEN mp,
        OF conjI [OF downD quiet]]
    by (simp add: exMove_exWorld)
  have held: "snd (hostRun ''c.canvas'' (KeyDown ''Alt'' 1990 7 # ?held) (exManagerP, exWorld)) =
              exWorldMoved"
    unfolding first by (rule heldW)
  have state2: "hostRun ''c.canvas'' ?held (?mD, exWorld) = (m2, exWorldMoved)"
    unfolding m2_def using heldW by (metis prod.collapse)
  note hm = ex_held_manager [folded m2_def]
  have shaped: "stillShaped (w_heap exWorldMoved) 1 exSaved"
    unfolding stillShaped_def using ex_read_moved by (simp add: exSaved_def)
  have pre: "enforcing m2 \<and> observedView m2 = Some exView \<and>
          observedCanvasPath m2 = Some ''c.canvas'' \<and> ''c.canvas'' \<noteq> [] \<and>
          ''n1'' \<in> set (lockedIdsOf m2 ''c.canvas'') \<and>
          lookup2 (lockedModelByCanvas m2) ''c.canvas'' ''n1'' = Some exSaved \<and>
          nodeObject exView ''n1'' = Some 1 \<and>
          resolveEl (w_heap exWorldMoved) exView ''n1'' = Inr (Some 10) \<and>
          (\<forall>j \<in> set (lockedIdsOf m2 ''c.canvas''). resolves (w_heap exWorldMoved) exView j) \<and>
          finiteSnapshot exSaved \<and>
          stillShaped (w_heap exWorldMoved) 1 exSaved \<and>
          (\<forall>j \<in> set (lockedIdsOf m2 ''c.canvas''). \<forall>ob'.
              j \<noteq> ''n1'' \<and> nodeObject exView j = Some ob' \<longrightarrow>
              separate (w_heap exWorldMoved) 1 ob')"
    using hm(2-6) ex1_facts(5) ex_resolveEl_moved(1) shaped exSaved_finite
    by (simp add: resolves_def)
  from bypass_suspends_enforcement [OF hm(1), where w = exWorldMoved
        and p = "''c.canvas''" and v = exView and nodeId = "''n1''" and s = exSaved and ob = 1
        and el = 10 and now = 2032 and raf = 2,
        THEN conjunct2, THEN conjunct2, THEN conjunct2, THEN conjunct2, THEN conjunct2,
        THEN conjunct2, THEN conjunct1, THEN mp, OF pre]
  obtain m' w' where tk: "tick 2032 2 (onKeyUp ''Alt'' m2, exWorldMoved) = Inr (m', w')"
    and holds: "geometryHolds (w_heap w') 1 exSaved"
    by blast
  have split: "[KeyDown ''Alt'' 1990 7, HostMutation exMove, ObserverBatch [(exMutation, 2000)],
           FrameTick 2016 1, KeyUp ''Alt'', FrameTick 2032 2] =
        (KeyDown ''Alt'' 1990 7 # ?held) @ [KeyUp ''Alt'', FrameTick 2032 2]"
    by simp
  have full: "hostRun ''c.canvas''
          [KeyDown ''Alt'' 1990 7, HostMutation exMove, ObserverBatch [(exMutation, 2000)],
           FrameTick 2016 1, KeyUp ''Alt'', FrameTick 2032 2]
          (exManagerP, exWorld) = (m', w')"
    unfolding split hostRun_append first state2
    using tk by (simp add: hostRun_def hostStep_def)
  show ?thesis
    using exP_facts(1,2) held ex_restored_x(1) holds unfolding full by simp
qed

lemma exIdle_facts:
  "observedView exManagerIdle = Some exView"
  "nodeIdByEl exManagerIdle 10 = Some ''n1''"
  "lookup2 (lockedModelByCanvas exManagerIdle) ''c.canvas'' ''n1'' = Some exSaved"
  "\<not> restoring exManagerIdle 10"
  "lastRestoreOf exManagerIdle ''c.canvas'' ''n1'' = 1000"
  "\<not> altDown exManagerIdle"
  "disableLockWhileAltDown (settings exManagerIdle)"
  "isLocked exManagerIdle ''c.canvas'' ''n1''"
  by (simp_all add: exManagerIdle_def exManagerR_def exManager1_def exManager_def lookup2_def
      lastRestoreOf_def isLocked_def lockedIdsOf_def)

text \<open>
  After the release a divergence is not always restored on the next detector pass. Alt
  is pressed and released, the host then moves the locked node \<open>n1\<close> (\<open>x\<close> from 10
  to 55), and the observer is called with the mutation 10 ms after the last recorded
  restore of \<open>n1\<close>: the bypass is off, the geometry has diverged, and the observer
  leaves it as it is.
\<close>

theorem bypass_release_counterexample:
  "disableLockWhileAltDown (settings exManagerIdle) \<and>
   isLocked exManagerIdle ''c.canvas'' ''n1'' \<and>
   lookup2 (lockedModelByCanvas exManagerIdle) ''c.canvas'' ''n1'' = Some exSaved \<and>
   lastRestoreOf exManagerIdle ''c.canvas'' ''n1'' = 1000 \<and>
   shouldBypass (fst (hostRun ''c.canvas'' [KeyDown ''Alt'' 1001 7] (exManagerIdle, exWorld))) \<and>
   \<not> shouldBypass
       (fst (hostRun ''c.canvas'' [KeyDown ''Alt'' 1001 7, KeyUp ''Alt''] (exManagerIdle, exWorld))) \<and>
   snd (hostRun ''c.canvas''
          [KeyDown ''Alt'' 1001 7, KeyUp ''Alt'', HostMutation exMove,
           ObserverBatch [(exMutation, 1010)]]
          (exManagerIdle, exWorld)) = exWorldMoved \<and>
   diverged exWorldMoved exView ''n1'' exSaved \<and>
   w_heap exWorldMoved 2 ''x'' = Num (Finite 55) \<and>
   snap_x exSaved = Finite 10"
proof -
  have down: "keyDownEvent ''Alt'' 1001 7 exManagerIdle = exManagerIdle\<lparr> altDown := True \<rparr>"
    by (simp add: keyDownEvent_def onKeyDown_Alt guardKeyDown_def exIdle_facts Let_def)
  have up: "onKeyUp ''Alt'' (exManagerIdle\<lparr> altDown := True \<rparr>) = exManagerIdle"
    by (simp add: onKeyUp_Alt exManagerIdle_def exManagerR_def exManager1_def exManager_def)
  have b1: "shouldBypass (fst (hostRun ''c.canvas'' [KeyDown ''Alt'' 1001 7] (exManagerIdle, exWorld)))"
    by (simp add: hostRun_def hostStep_def down shouldBypass_def exIdle_facts)
  have keys: "hostRun ''c.canvas'' [KeyDown ''Alt'' 1001 7, KeyUp ''Alt''] (exManagerIdle, exWorld) =
              (exManagerIdle, exWorld)"
    by (simp add: hostRun_def hostStep_def down up)
  have b2: "\<not> shouldBypass
       (fst (hostRun ''c.canvas'' [KeyDown ''Alt'' 1001 7, KeyUp ''Alt''] (exManagerIdle, exWorld)))"
    unfolding keys by (simp add: shouldBypass_def exIdle_facts)
  have obs: "snd (observerCallback ''c.canvas'' [(exMutation, 1010)] (exManagerIdle, exWorldMoved))
      = exWorldMoved"
    using exIdle_facts(1-6) by (rule ex_observer_throttled)
  have split: "[KeyDown ''Alt'' 1001 7, KeyUp ''Alt'', HostMutation exMove,
           ObserverBatch [(exMutation, 1010)]] =
        [KeyDown ''Alt'' 1001 7, KeyUp ''Alt''] @ [HostMutation exMove, ObserverBatch [(exMutation, 1010)]]"
    by simp
  have full: "snd (hostRun ''c.canvas''
          [KeyDown ''Alt'' 1001 7, KeyUp ''Alt'', HostMutation exMove,
           ObserverBatch [(exMutation, 1010)]]
          (exManagerIdle, exWorld)) = exWorldMoved"
    unfolding split hostRun_append keys
    using obs by (simp add: hostRun_def hostStep_def exMove_exWorld)
  show ?thesis
    using exIdle_facts(7,8,3,5) b1 b2 full ex_diverged ex_restored_x(1)
    by (simp add: exSaved_def)
qed



end
